(* ===== verification/Papper_Prelude.thy ===== *)
theory Papper_Prelude
  imports Main "HOL-Library.Word"
begin

text \<open>
  Shared vocabulary of the papper development: the machine integers of the C++ code
  (\<open>size_t\<close> and \<open>uint64_t\<close> are 64-bit words, \<open>uint32_t\<close> 32-bit words, \<open>std::byte\<close> 8-bit
  words), byte-addressed memory with \<open>memcpy\<close> as checked reads and writes (\<open>None\<close> stands for
  an access outside the allocation, which is undefined behaviour in C++), little-endian
  integers, and the list, arithmetic and word facts the components share.

  Collections: \<open>mem_simps\<close> (reads and writes), \<open>word_conv\<close> (words against \<open>nat\<close>).
\<close>

named_theorems mem_simps
named_theorems word_conv

type_synonym u8 = "8 word"
type_synonym u32 = "32 word"
type_synonym u64 = "64 word"
type_synonym byte = "8 word"
type_synonym memory = "byte list"

section \<open>Arithmetic of ring buffer offsets\<close>

text \<open>
  Two intervals of positions inside one window of length \<open>c\<close> stay disjoint when every
  interval is stored from its start offset modulo \<open>c\<close> without being split.
\<close>

lemma mod_add_cases:
  assumes "d < (c::nat)"
  shows "(p + d) mod c = (if p mod c + d < c then p mod c + d else p mod c + d - c)"
proof -
  have lt: "p mod c < c" using assms by simp
  have "(p mod c + d) mod c = (if p mod c + d < c then p mod c + d else p mod c + d - c)"
  proof (cases "p mod c + d < c")
    case False
    then have "(p mod c + d) mod c = (p mod c + d - c) mod c" by (simp add: le_mod_geq)
    then show ?thesis using False lt assms by simp
  qed simp
  then show ?thesis by (simp add: mod_add_left_eq)
qed

lemma window_disjoint:
  assumes "0 < (c::nat)" and "p + n \<le> q" and "q + m \<le> p + c"
  shows "p mod c + n \<le> q mod c \<or> q mod c + m \<le> p mod c"
proof (cases "q = p + c")
  case True
  then show ?thesis using assms by simp
next
  case False
  then obtain d where d: "q = p + d" "d < c"
    using assms by (metis add_leE le_add_diff_inverse le_neq_implies_less nat_add_left_cancel_less)
  show ?thesis
    using assms d by (auto simp: mod_add_cases)
qed

lemma sum_lengths_concat: "sum_list (map length ms) = length (concat ms)"
  by (induction ms) auto

section \<open>Memory\<close>

definition mem_read :: "nat \<Rightarrow> nat \<Rightarrow> memory \<Rightarrow> byte list option" where
  "mem_read off n m = (if off + n \<le> length m then Some (take n (drop off m)) else None)"

definition mem_write :: "nat \<Rightarrow> byte list \<Rightarrow> memory \<Rightarrow> memory option" where
  "mem_write off bs m =
     (if off + length bs \<le> length m
      then Some (take off m @ bs @ drop (off + length bs) m) else None)"

lemma mem_write_length [mem_simps]: "mem_write off bs m = Some m' \<Longrightarrow> length m' = length m"
  by (auto simp: mem_write_def split: if_splits)

lemma mem_write_SomeD: "mem_write off bs m = Some m' \<Longrightarrow> off + length bs \<le> length m"
  by (auto simp: mem_write_def split: if_splits)

lemma mem_write_ok:
  "off + length bs \<le> length m \<Longrightarrow>
   mem_write off bs m = Some (take off m @ bs @ drop (off + length bs) m)"
  by (simp add: mem_write_def)

lemma mem_write_empty [simp]: "off \<le> length m \<Longrightarrow> mem_write off [] m = Some m"
  by (simp add: mem_write_def)

lemma mem_read_SomeD: "mem_read off n m = Some bs \<Longrightarrow> length bs = n \<and> off + n \<le> length m"
  by (auto simp: mem_read_def split: if_splits)

lemma mem_read_write_same [mem_simps]:
  "mem_write off bs m = Some m' \<Longrightarrow> mem_read off (length bs) m' = Some bs"
  by (auto simp: mem_write_def mem_read_def split: if_splits)

lemma mem_read_write_disjoint [mem_simps]:
  assumes "mem_write off bs m = Some m'" and "a + n \<le> off \<or> off + length bs \<le> a"
  shows "mem_read a n m' = mem_read a n m"
proof -
  have b: "off + length bs \<le> length m"
    and m': "m' = take off m @ bs @ drop (off + length bs) m"
    using assms(1) by (auto simp: mem_write_def split: if_splits)
  have len: "length m' = length m" using b m' by simp
  show ?thesis
  proof (cases "a + n \<le> off")
    case True
    have "take n (drop a m') = take n (drop a (take off m))"
      using True b by (simp add: m')
    also have "\<dots> = take n (drop a m)" using True by (simp add: drop_take min_def)
    finally show ?thesis by (simp add: mem_read_def len)
  next
    case False
    then have a: "off + length bs \<le> a" using assms(2) by simp
    have "drop a m' = drop a m"
      using a b by (simp add: m')
    then show ?thesis by (simp add: mem_read_def len)
  qed
qed

lemma mem_write_append:
  assumes "mem_write off xs m = Some m1"
  shows "mem_write (off + length xs) ys m1 = mem_write off (xs @ ys) m"
proof -
  have b: "off + length xs \<le> length m"
    and m1: "m1 = take off m @ xs @ drop (off + length xs) m"
    using assms by (auto simp: mem_write_def split: if_splits)
  then show ?thesis by (simp add: mem_write_def ac_simps)
qed

lemma mem_read_append:
  assumes "mem_read off (length xs + n) m = Some (xs @ ys)"
  shows "mem_read off (length xs) m = Some xs" and "mem_read (off + length xs) n m = Some ys"
proof -
  have b: "off + (length xs + n) \<le> length m" and t: "take (length xs + n) (drop off m) = xs @ ys"
    using assms by (auto simp: mem_read_def split: if_splits)
  have "take (length xs) (drop off m) = take (length xs) (take (length xs + n) (drop off m))"
    by (simp add: min_def)
  then have 1: "take (length xs) (drop off m) = xs" by (simp add: t)
  have "take n (drop (off + length xs) m) = drop (length xs) (take (length xs + n) (drop off m))"
    by (simp add: drop_take add.commute)
  then have 2: "take n (drop (off + length xs) m) = ys" by (simp add: t)
  show "mem_read off (length xs) m = Some xs" and "mem_read (off + length xs) n m = Some ys"
    using b 1 2 by (simp_all add: mem_read_def)
qed

lemma mem_read_join:
  assumes "mem_read off i m = Some xs" and "mem_read (off + i) n m = Some ys"
  shows "mem_read off (i + n) m = Some (xs @ ys)"
  using assms by (auto simp: mem_read_def take_add add.commute split: if_splits)

lemma mem_read_sub:
  assumes "mem_read off (length xs) m = Some xs" and "i + n \<le> length xs"
  shows "mem_read (off + i) n m = Some (take n (drop i xs))"
proof -
  have b: "off + length xs \<le> length m" and xs: "xs = take (length xs) (drop off m)"
    using assms(1) by (auto simp: mem_read_def split: if_splits)
  have "take n (drop i xs) = take n (drop (off + i) m)"
    using assms(2) by (subst xs) (simp add: drop_take add.commute min_def)
  then show ?thesis using b assms(2) by (simp add: mem_read_def)
qed

lemma mem_read_nth:
  assumes "mem_read off (length xs) m = Some xs" and "i < length xs"
  shows "mem_read (off + i) 1 m = Some [xs ! i]"
proof -
  have "take 1 (drop i xs) = [xs ! i]"
    using assms(2) by (simp add: Cons_nth_drop_Suc [symmetric])
  then show ?thesis using mem_read_sub [OF assms(1), of i 1] assms(2) by simp
qed

section \<open>Little-endian integers\<close>

fun le_bytes :: "nat \<Rightarrow> nat \<Rightarrow> byte list" where
  "le_bytes 0 x = []"
| "le_bytes (Suc n) x = of_nat (x mod 256) # le_bytes n (x div 256)"

fun le_nat :: "byte list \<Rightarrow> nat" where
  "le_nat [] = 0"
| "le_nat (b # bs) = unat b + 256 * le_nat bs"

lemma length_le_bytes [simp]: "length (le_bytes n x) = n"
  by (induction n arbitrary: x) auto

lemma unat_byte_mod: "unat (of_nat (x mod 256) :: byte) = x mod 256"
  by (simp add: unat_of_nat)

lemma le_nat_le_bytes: "le_nat (le_bytes n x) = x mod 256 ^ n"
proof (induction n arbitrary: x)
  case 0
  then show ?case by simp
next
  case (Suc n)
  have "x mod 256 + 256 * (x div 256 mod 256 ^ n) = x mod (256 * 256 ^ n)"
    by (simp add: mod_mult2_eq)
  then show ?case by (simp add: Suc unat_byte_mod del: of_nat_mod)
qed

lemma le_bytes_le_nat: "le_bytes (length bs) (le_nat bs) = bs"
proof (induction bs)
  case Nil
  then show ?case by simp
next
  case (Cons b bs)
  have lt: "unat b < 256" using unsigned_less [of b] by simp
  then have "(unat b + 256 * le_nat bs) mod 256 = unat b"
    and "(unat b + 256 * le_nat bs) div 256 = le_nat bs" by simp_all
  then show ?case using Cons by (simp del: of_nat_mod)
qed

definition u64_bytes :: "u64 \<Rightarrow> byte list" where
  "u64_bytes w = le_bytes 8 (unat w)"

definition u64_of_bytes :: "byte list \<Rightarrow> u64" where
  "u64_of_bytes bs = of_nat (le_nat bs)"

lemma length_u64_bytes [simp]: "length (u64_bytes w) = 8"
  by (simp add: u64_bytes_def)

lemma u64_of_bytes_u64_bytes [simp]: "u64_of_bytes (u64_bytes w) = w"
proof -
  have "unat w < 256 ^ 8" using unsigned_less [of w] by simp
  then have "le_nat (le_bytes 8 (unat w)) = unat w" by (simp add: le_nat_le_bytes)
  then show ?thesis by (simp add: u64_of_bytes_def u64_bytes_def)
qed

section \<open>64-bit words\<close>

lemma unat64_lt: "unat (w :: u64) < 18446744073709551616"
  using unsigned_less [of w] by simp

lemma unat64_of_nat [word_conv]:
  "n < 18446744073709551616 \<Longrightarrow> unat (of_nat n :: u64) = n"
  by (simp add: unat_of_nat take_bit_nat_eq_self)

lemma unat64_add_mod:
  assumes "c dvd (18446744073709551616 :: nat)"
  shows "unat (x + of_nat n :: u64) mod c = (unat x + n) mod c"
proof -
  have "unat (x + of_nat n :: u64) = (unat x + n) mod 18446744073709551616"
    by (simp add: unat_word_ariths unat_of_nat take_bit_eq_mod mod_simps)
  then show ?thesis using assms by (simp add: mod_mod_cancel)
qed

lemma unat64_pow2:
  assumes "k < 64"
  shows "unat (2 ^ k :: u64) = 2 ^ k"
proof -
  have "(2::nat) ^ k < 2 ^ 64" using assms by (intro power_strict_increasing) auto
  then show ?thesis using unat64_of_nat [of "2 ^ k"] by simp
qed

lemma pow2_dvd_64: "k \<le> 64 \<Longrightarrow> (2::nat) ^ k dvd 18446744073709551616"
  using le_imp_power_dvd [of k 64 "2::nat"] by simp

lemma unat64_and_mask:
  assumes "k < 64"
  shows "unat (and (p :: u64) (2 ^ k - 1)) = unat p mod 2 ^ k"
proof -
  have "and p (2 ^ k - 1) = take_bit k p"
    by (simp add: take_bit_eq_mask mask_eq_exp_minus_1)
  then have "unat (and p (2 ^ k - 1)) = take_bit k (unat p)"
    by (simp only: unsigned_take_bit_eq)
  then show ?thesis by (simp only: take_bit_eq_mod)
qed

section \<open>Decimal numbers\<close>

text \<open>The decimal digits of a number, as \<open>std::to_string\<close> and the default formatting of an unsigned
  integer print them.\<close>

definition digit_char :: "nat \<Rightarrow> char" where
  "digit_char d = char_of (48 + d)"

fun dec_string :: "nat \<Rightarrow> string" where
  "dec_string n = (if n < 10 then [digit_char n] else dec_string (n div 10) @ [digit_char (n mod 10)])"

declare dec_string.simps [simp del]

lemma digit_char_inj: "a < 10 \<Longrightarrow> b < 10 \<Longrightarrow> digit_char a = digit_char b \<Longrightarrow> a = b"
proof -
  assume "a < 10" "b < 10" "digit_char a = digit_char b"
  then have "of_char (char_of (48 + a) :: char) = (of_char (char_of (48 + b) :: char) :: nat)"
    by (simp add: digit_char_def)
  then show "a = b" using \<open>a < 10\<close> \<open>b < 10\<close> by simp
qed

lemma dec_string_not_Nil: "dec_string n \<noteq> []"
  by (subst dec_string.simps) simp

lemma dec_string_snoc:
  "dec_string n = (if n < 10 then [] else dec_string (n div 10)) @ [digit_char (n mod 10)]"
  by (subst dec_string.simps) simp

lemma dec_string_inj: "dec_string m = dec_string n \<Longrightarrow> m = n"
proof (induction m arbitrary: n rule: less_induct)
  case (less m)
  have eq: "(if m < 10 then [] else dec_string (m div 10)) @ [digit_char (m mod 10)] =
      (if n < 10 then [] else dec_string (n div 10)) @ [digit_char (n mod 10)]"
    using less.prems by (simp only: dec_string_snoc [symmetric])
  then have last: "m mod 10 = n mod 10" by (auto intro: digit_char_inj)
  show ?case
  proof (cases "m < 10")
    case True
    then have "n < 10" using eq dec_string_not_Nil [of "n div 10", symmetric] by (auto split: if_splits)
    then show ?thesis using True last by simp
  next
    case False
    then have "\<not> n < 10" using eq dec_string_not_Nil [of "m div 10"] by (auto split: if_splits)
    then have "dec_string (m div 10) = dec_string (n div 10)" using eq False by simp
    moreover have "m div 10 < m" using False by simp
    ultimately have "m div 10 = n div 10" using less.IH by blast
    then show ?thesis using last by (metis div_mod_decomp)
  qed
qed

end
