(* ===== verification/Level.thy ===== *)
theory Level
  imports Papper_Prelude
begin

text \<open>
  \<open>include/papper/detail/level.h\<close> and \<open>level_to_name\<close> of \<open>pattern.h\<close>. \<open>LogLevel\<close> is an
  enumeration over \<open>uint8_t\<close>; its comparisons are the comparisons of the underlying values.
\<close>

datatype log_level = Trace | Debug | Info | Warn | Error

fun level_code :: "log_level \<Rightarrow> u8" where
  "level_code Trace = 0"
| "level_code Debug = 1"
| "level_code Info = 2"
| "level_code Warn = 3"
| "level_code Error = 4"

lemma level_code_inject [simp]: "level_code a = level_code b \<longleftrightarrow> a = b"
  by (cases a; cases b) simp_all

instantiation log_level :: linorder
begin

definition less_eq_log_level :: "log_level \<Rightarrow> log_level \<Rightarrow> bool" where
  "less_eq_log_level a b \<longleftrightarrow> level_code a \<le> level_code b"

definition less_log_level :: "log_level \<Rightarrow> log_level \<Rightarrow> bool" where
  "less_log_level a b \<longleftrightarrow> level_code a < level_code b"

instance
proof
  fix x y :: log_level
  show "x \<le> y \<Longrightarrow> y \<le> x \<Longrightarrow> x = y"
    unfolding less_eq_log_level_def by (drule (1) antisym) simp
qed (auto simp: less_eq_log_level_def less_log_level_def order.strict_iff_order)

end

lemmas level_order = less_eq_log_level_def less_log_level_def

text \<open>The switch of \<open>level_to_name\<close> runs over the value held, which may be no enumerator.\<close>

definition level_to_name :: "u8 \<Rightarrow> string" where
  "level_to_name v =
     (if v = level_code Trace then ''TRACE''
      else if v = level_code Debug then ''DEBUG''
      else if v = level_code Info then ''INFO''
      else if v = level_code Warn then ''WARN''
      else if v = level_code Error then ''ERROR''
      else ''UNKNOWN'')"

lemma level_to_name_level [simp]:
  "level_to_name (level_code Trace) = ''TRACE''"
  "level_to_name (level_code Debug) = ''DEBUG''"
  "level_to_name (level_code Info) = ''INFO''"
  "level_to_name (level_code Warn) = ''WARN''"
  "level_to_name (level_code Error) = ''ERROR''"
  by (simp_all add: level_to_name_def del: level_code.simps)

lemma level_to_name_inj: "inj (\<lambda>l. level_to_name (level_code l))"
proof (rule injI)
  fix a b
  assume "level_to_name (level_code a) = level_to_name (level_code b)"
  then show "a = b" by (cases a; cases b) (simp_all del: level_code.simps)
qed

end
