(* ===== verification/Fifo_Spec.thy ===== *)
theory Fifo_Spec
  imports Papper_Prelude
begin

text \<open>
  The contract of a bounded byte-message queue, independent of its representation: the
  reference model is a list of messages with a byte budget, the model of the randomised test in
  \<open>tests/test_queue.cpp\<close> (a write succeeds exactly when there is room, a read returns the oldest
  message). The locale \<open>byte_fifo\<close> states the laws a queue promises its clients and proves, from
  them alone, that every script of operations behaves as the reference model.
\<close>

datatype fifo_op = Push "byte list" | Pop

datatype fifo_out = Pushed bool | Popped "byte list option"

section \<open>The reference model\<close>

definition fits :: "nat \<Rightarrow> byte list list \<Rightarrow> byte list \<Rightarrow> bool" where
  "fits c ms bs \<longleftrightarrow> length (concat ms) + length bs \<le> c"

definition admit :: "nat \<Rightarrow> byte list list \<Rightarrow> byte list \<Rightarrow> byte list list" where
  "admit c ms bs = (if fits c ms bs then ms @ [bs] else ms)"

fun model_run :: "nat \<Rightarrow> fifo_op list \<Rightarrow> byte list list \<Rightarrow> fifo_out list \<times> byte list list" where
  "model_run c [] ms = ([], ms)"
| "model_run c (Push bs # ops) ms =
     (let (outs, ms') = model_run c ops (admit c ms bs) in (Pushed (fits c ms bs) # outs, ms'))"
| "model_run c (Pop # ops) [] =
     (let (outs, ms') = model_run c ops [] in (Popped None # outs, ms'))"
| "model_run c (Pop # ops) (m # ms) =
     (let (outs, ms') = model_run c ops ms in (Popped (Some m) # outs, ms'))"

text \<open>
  The same script on an implementation. The reader knows the size of the message at the front
  (the backend reads it from the event's header); \<open>ns\<close> are the sizes of the queued messages.
\<close>

fun script_run ::
  "(byte list \<Rightarrow> 'q \<Rightarrow> (bool \<times> 'q) option) \<Rightarrow> (nat \<Rightarrow> 'q \<Rightarrow> (byte list option \<times> 'q) option) \<Rightarrow>
   fifo_op list \<Rightarrow> nat list \<Rightarrow> 'q \<Rightarrow> (fifo_out list \<times> 'q) option"
where
  "script_run push pop [] ns q = Some ([], q)"
| "script_run push pop (Push bs # ops) ns q =
     (case push bs q of
        None \<Rightarrow> None
      | Some (ok, q') \<Rightarrow>
          map_option (\<lambda>(outs, q''). (Pushed ok # outs, q''))
            (script_run push pop ops (if ok then ns @ [length bs] else ns) q'))"
| "script_run push pop (Pop # ops) ns q =
     (case pop (case ns of [] \<Rightarrow> 0 | n # _ \<Rightarrow> n) q of
        None \<Rightarrow> None
      | Some (r, q') \<Rightarrow>
          map_option (\<lambda>(outs, q''). (Popped r # outs, q''))
            (script_run push pop ops (drop 1 ns) q'))"

definition script_ok :: "fifo_op list \<Rightarrow> bool" where
  "script_ok ops \<longleftrightarrow> (\<forall>bs. Push bs \<in> set ops \<longrightarrow> bs \<noteq> [] \<and> length bs < 2 ^ 64)"

lemma script_ok_simps [simp]:
  "script_ok []"
  "script_ok (Pop # ops) \<longleftrightarrow> script_ok ops"
  "script_ok (Push bs # ops) \<longleftrightarrow> bs \<noteq> [] \<and> length bs < 18446744073709551616 \<and> script_ok ops"
  by (auto simp: script_ok_def)

section \<open>The contract\<close>

locale byte_fifo =
  fixes holds :: "'q \<Rightarrow> byte list list \<Rightarrow> bool"
    and cap :: "'q \<Rightarrow> nat"
    and push :: "byte list \<Rightarrow> 'q \<Rightarrow> (bool \<times> 'q) option"
    and pop :: "nat \<Rightarrow> 'q \<Rightarrow> (byte list option \<times> 'q) option"
  assumes push_law: "holds q ms \<Longrightarrow> bs \<noteq> [] \<Longrightarrow> length bs < 2 ^ 64 \<Longrightarrow>
      \<exists>q'. push bs q = Some (fits (cap q) ms bs, q') \<and> cap q' = cap q \<and>
        holds q' (admit (cap q) ms bs)"
    and pop_empty_law: "holds q [] \<Longrightarrow>
      \<exists>q'. pop n q = Some (None, q') \<and> cap q' = cap q \<and> holds q' []"
    and pop_front_law: "holds q (m # ms) \<Longrightarrow>
      \<exists>q'. pop (length m) q = Some (Some m, q') \<and> cap q' = cap q \<and> holds q' ms"
    and holds_bound: "holds q ms \<Longrightarrow> length (concat ms) \<le> cap q"
begin

lemma script_refines:
  assumes "holds q ms" and "script_ok ops"
  shows "\<exists>q'. script_run push pop ops (map length ms) q =
      Some (fst (model_run (cap q) ops ms), q') \<and> cap q' = cap q \<and>
      holds q' (snd (model_run (cap q) ops ms))"
  using assms
proof (induction "cap q" ops ms arbitrary: q rule: model_run.induct)
  case (1 ms)
  then show ?case by auto
next
  case (2 bs ops ms)
  then obtain q1 where q1: "push bs q = Some (fits (cap q) ms bs, q1)" "cap q1 = cap q"
    "holds q1 (admit (cap q) ms bs)"
    using push_law [of q ms bs] by auto
  have sizes: "(if fits (cap q) ms bs then map length ms @ [length bs] else map length ms) =
      map length (admit (cap q) ms bs)" by (simp add: admit_def)
  obtain q' where "script_run push pop ops (map length (admit (cap q) ms bs)) q1 =
      Some (fst (model_run (cap q) ops (admit (cap q) ms bs)), q')" "cap q' = cap q"
    "holds q' (snd (model_run (cap q) ops (admit (cap q) ms bs)))"
    using 2(1) [of q1] q1 2(3) by auto
  then show ?case using q1 sizes by (simp add: split_beta)
next
  case (3 ops)
  then obtain q1 where q1: "pop 0 q = Some (None, q1)" "cap q1 = cap q" "holds q1 []"
    using pop_empty_law by blast
  obtain q' where "script_run push pop ops [] q1 = Some (fst (model_run (cap q) ops []), q')"
    "cap q' = cap q" "holds q' (snd (model_run (cap q) ops []))"
    using 3(1) [of q1] q1 3(3) by auto
  then show ?case using q1 by (simp add: split_beta)
next
  case (4 ops m ms)
  then obtain q1 where q1: "pop (length m) q = Some (Some m, q1)" "cap q1 = cap q" "holds q1 ms"
    using pop_front_law by blast
  obtain q' where "script_run push pop ops (map length ms) q1 =
      Some (fst (model_run (cap q) ops ms), q')"
    "cap q' = cap q" "holds q' (snd (model_run (cap q) ops ms))"
    using 4(1) [of q1] q1 4(3) by auto
  then show ?case using q1 by (simp add: split_beta)
qed

text \<open>Messages that fit together are all accepted and come out in the order they went in.\<close>

lemma fifo_order:
  assumes "holds q []" and "\<And>bs. bs \<in> set ms \<Longrightarrow> bs \<noteq> []"
    and "length (concat ms) \<le> cap q" and "cap q < 2 ^ 64"
  shows "\<exists>q'. script_run push pop (map Push ms @ map (\<lambda>_. Pop) ms) [] q =
      Some (map (\<lambda>_. Pushed True) ms @ map (Popped \<circ> Some) ms, q') \<and> holds q' []"
proof -
  have pops: "model_run (cap q) (map (\<lambda>_. Pop) ns) ns = (map (Popped \<circ> Some) ns, [])" for ns
    by (induction ns) auto
  have pushes: "length (concat ps) + length (concat ns) \<le> cap q \<Longrightarrow>
      model_run (cap q) (map Push ns @ map (\<lambda>_. Pop) ms) ps =
      (map (\<lambda>_. Pushed True) ns @ fst (model_run (cap q) (map (\<lambda>_. Pop) ms) (ps @ ns)),
       snd (model_run (cap q) (map (\<lambda>_. Pop) ms) (ps @ ns)))" for ps ns
    by (induction ns arbitrary: ps) (auto simp: admit_def fits_def split_beta)
  have len: "length bs \<le> length (concat ms)" if "bs \<in> set ms" for bs
    using that by (induction ms) auto
  have ok: "script_ok (map Push ms @ map (\<lambda>_. Pop) ms)"
    using assms(2-4) len by (fastforce simp: script_ok_def)
  then show ?thesis
    using script_refines [OF assms(1) ok] pushes [of "[]" ms] assms(3) by (auto simp: pops)
qed

end

end
