(* ===== verification/Ring_Queue.thy ===== *)
theory Ring_Queue
  imports Fifo_Spec
begin

text \<open>
  \<open>include/papper/detail/queue.h\<close>: the single-producer single-consumer ring buffer between a
  logging thread and the backend. The buffer is allocated with twice the capacity, so that a
  message that crosses the end of the first half stays contiguous. Pointers into the buffer are
  offsets (\<open>None\<close> is \<open>nullptr\<close>); positions and sizes are 64-bit words and wrap as \<open>size_t\<close>
  does.

  The two loads of the shared positions are explicit arguments of the \<open>_obs\<close> definitions
  (\<open>loaded\<close> is the value the acquire load returned); the sequential operations load the current
  value, and theory \<open>Spsc\<close> lets them load any value the memory model allows.
\<close>

unbundle bit_operations_syntax

section \<open>The class\<close>

record queue =
  q_capacity :: u64
  q_wrap_mask :: u64
  q_buffer :: memory
  q_atomic_r :: u64
  q_atomic_w :: u64
  q_w :: u64
  q_cached_r :: u64
  q_r :: u64
  q_cached_w :: u64

text \<open>\<open>std::bit_ceil\<close>: the least power of two not below its argument, undefined above \<open>2 ^ 63\<close>.\<close>

definition bit_ceil :: "u64 \<Rightarrow> u64 option" where
  "bit_ceil x = map_option (\<lambda>k. 2 ^ k) (List.find (\<lambda>k. unat x \<le> 2 ^ k) [0..<64])"

definition new_queue :: "u64 \<Rightarrow> queue option" where
  "new_queue n =
     (case bit_ceil n of
        None \<Rightarrow> None
      | Some c \<Rightarrow> Some \<lparr>q_capacity = c, q_wrap_mask = c - 1,
          q_buffer = replicate (unat (2 * c)) 0,
          q_atomic_r = 0, q_atomic_w = 0, q_w = 0, q_cached_r = 0, q_r = 0, q_cached_w = 0\<rparr>)"

record write_reservation =
  wr_buffer :: "u64 option"
  wr_new_write_pos :: u64

definition reserve_write_obs :: "u64 \<Rightarrow> u64 \<Rightarrow> queue \<Rightarrow> write_reservation \<times> queue" where
  "reserve_write_obs loaded n q =
     (if q_cached_r q + q_capacity q - q_w q < n then
        let q' = q\<lparr>q_cached_r := loaded\<rparr> in
        if q_cached_r q' + q_capacity q' - q_w q' < n
        then (\<lparr>wr_buffer = None, wr_new_write_pos = 0\<rparr>, q')
        else (\<lparr>wr_buffer = Some (q_w q' AND q_wrap_mask q'),
               wr_new_write_pos = q_w q' + n\<rparr>, q')
      else (\<lparr>wr_buffer = Some (q_w q AND q_wrap_mask q),
             wr_new_write_pos = q_w q + n\<rparr>, q))"

definition reserve_write :: "u64 \<Rightarrow> queue \<Rightarrow> write_reservation \<times> queue" where
  "reserve_write n q = reserve_write_obs (q_atomic_r q) n q"

definition commit_write :: "u64 \<Rightarrow> queue \<Rightarrow> queue" where
  "commit_write new_write_pos q = q\<lparr>q_w := new_write_pos, q_atomic_w := new_write_pos\<rparr>"

definition is_empty_obs :: "u64 \<Rightarrow> queue \<Rightarrow> bool \<times> queue" where
  "is_empty_obs loaded q =
     (if q_cached_w q \<le> q_r q then
        let q' = q\<lparr>q_cached_w := loaded\<rparr> in (q_cached_w q' = q_r q', q')
      else (False, q))"

definition is_empty :: "queue \<Rightarrow> bool \<times> queue" where
  "is_empty q = is_empty_obs (q_atomic_w q) q"

record read_reservation =
  rr_buffer :: "u64 option"
  rr_current_read_pos :: u64

definition reserve_read_obs :: "u64 \<Rightarrow> queue \<Rightarrow> read_reservation \<times> queue" where
  "reserve_read_obs loaded q =
     (case is_empty_obs loaded q of
        (True, q') \<Rightarrow> (\<lparr>rr_buffer = None, rr_current_read_pos = 0\<rparr>, q')
      | (False, q') \<Rightarrow> (\<lparr>rr_buffer = Some (q_r q' AND q_wrap_mask q'),
                       rr_current_read_pos = q_r q'\<rparr>, q'))"

definition reserve_read :: "queue \<Rightarrow> read_reservation \<times> queue" where
  "reserve_read q = reserve_read_obs (q_atomic_w q) q"

definition commit_read :: "u64 \<Rightarrow> queue \<Rightarrow> queue" where
  "commit_read new_read_pos q = q\<lparr>q_r := new_read_pos, q_atomic_r := new_read_pos\<rparr>"

text \<open>
  The two protocols of the queue's clients, as the unit tests write them (\<open>write_bytes\<close> and
  \<open>read_bytes\<close> of \<open>tests/test_queue.cpp\<close>): reserve, copy, commit. \<open>None\<close> is a copy outside the
  allocation.
\<close>

definition write_bytes :: "byte list \<Rightarrow> queue \<Rightarrow> (bool \<times> queue) option" where
  "write_bytes bytes q =
     (let (res, q') = reserve_write (of_nat (length bytes)) q in
      case wr_buffer res of
        None \<Rightarrow> Some (False, q')
      | Some off \<Rightarrow>
          (case mem_write (unat off) bytes (q_buffer q') of
             None \<Rightarrow> None
           | Some buf \<Rightarrow>
               Some (True, commit_write (wr_new_write_pos res) (q'\<lparr>q_buffer := buf\<rparr>))))"

definition read_bytes :: "nat \<Rightarrow> queue \<Rightarrow> (byte list option \<times> queue) option" where
  "read_bytes n q =
     (let (res, q') = reserve_read q in
      case rr_buffer res of
        None \<Rightarrow> Some (None, q')
      | Some off \<Rightarrow>
          (case mem_read (unat off) n (q_buffer q') of
             None \<Rightarrow> None
           | Some bytes \<Rightarrow>
               Some (Some bytes, commit_read (rr_current_read_pos res + of_nat n) q')))"

section \<open>The invariant\<close>

text \<open>
  \<open>laid_out c buf p ms\<close>: the messages \<open>ms\<close> lie in \<open>buf\<close> one after the other from position \<open>p\<close>,
  each contiguous from its start offset modulo the capacity \<open>c\<close>.
\<close>

fun laid_out :: "nat \<Rightarrow> memory \<Rightarrow> nat \<Rightarrow> byte list list \<Rightarrow> bool" where
  "laid_out c buf p [] = True"
| "laid_out c buf p (m # ms) =
     (mem_read (p mod c) (length m) buf = Some m \<and> laid_out c buf (p + length m) ms)"

text \<open>
  \<open>q_inv k lag seen unseen q\<close>: the capacity is \<open>2 ^ k\<close>; the reader has freed \<open>lag\<close> bytes the
  writer's cached position does not show yet; of the committed messages, \<open>seen\<close> are below the
  reader's cached write position and \<open>unseen\<close> above it. The positions are related as words, so
  the invariant does not change when they pass \<open>2 ^ 64\<close>.
\<close>

definition q_inv :: "nat \<Rightarrow> nat \<Rightarrow> byte list list \<Rightarrow> byte list list \<Rightarrow> queue \<Rightarrow> bool" where
  "q_inv k lag seen unseen q \<longleftrightarrow>
     k < 63 \<and> q_capacity q = 2 ^ k \<and> q_wrap_mask q = 2 ^ k - 1 \<and>
     length (q_buffer q) = 2 * 2 ^ k \<and>
     q_cached_r q + of_nat lag = q_r q \<and>
     q_r q + of_nat (length (concat seen)) = q_cached_w q \<and>
     q_cached_w q + of_nat (length (concat unseen)) = q_w q \<and>
     lag + length (concat seen) + length (concat unseen) \<le> 2 ^ k \<and>
     q_atomic_r q = q_r q \<and> q_atomic_w q = q_w q \<and>
     [] \<notin> set seen \<and> [] \<notin> set unseen \<and>
     laid_out (2 ^ k) (q_buffer q) (unat (q_r q)) (seen @ unseen)"

definition q_holds :: "queue \<Rightarrow> byte list list \<Rightarrow> bool" where
  "q_holds q ms \<longleftrightarrow> (\<exists>k lag seen unseen. q_inv k lag seen unseen q \<and> ms = seen @ unseen)"


definition q_cap :: "queue \<Rightarrow> nat" where
  "q_cap q = unat (q_capacity q)"

section \<open>Layout lemmas\<close>

lemma laid_out_cong:
  "p mod c = p' mod c \<Longrightarrow> laid_out c buf p ms = laid_out c buf p' ms"
proof (induction ms arbitrary: p p')
  case (Cons m ms)
  then have "(p + length m) mod c = (p' + length m) mod c" by (metis mod_add_left_eq)
  with Cons show ?case by (metis laid_out.simps(2))
qed simp

lemma laid_out_append:
  "laid_out c buf p (ms @ ns) \<longleftrightarrow>
     laid_out c buf p ms \<and> laid_out c buf (p + length (concat ms)) ns"
  by (induction ms arbitrary: p) (auto simp: add.assoc)

text \<open>A write inside the free region \<open>[q, q + n)\<close> keeps the messages from \<open>p\<close> below \<open>q\<close>.\<close>

lemma laid_out_write_part:
  assumes "0 < c" and "laid_out c buf p ms" and "mem_write a bs buf = Some buf'"
    and "q mod c \<le> a" and "a + length bs \<le> q mod c + n"
    and "p + length (concat ms) \<le> q" and "q + n \<le> b + c" and "b \<le> p"
  shows "laid_out c buf' p ms"
  using assms(2,6,8)
proof (induction ms arbitrary: p)
  case (Cons m ms)
  have "p mod c + length m \<le> q mod c \<or> q mod c + n \<le> p mod c"
    using Cons.prems assms(1,7) by (intro window_disjoint) auto
  then have "mem_read (p mod c) (length m) buf' = mem_read (p mod c) (length m) buf"
    using assms(3-5) by (intro mem_read_write_disjoint) auto
  with Cons show ?case by (auto simp: add.assoc)
qed simp

lemma laid_out_write_new:
  assumes "mem_write (p mod c) bs buf = Some buf'"
  shows "laid_out c buf' p [bs]"
  using mem_read_write_same [OF assms] by simp

section \<open>Construction\<close>

lemma bit_ceil_SomeD:
  assumes "bit_ceil x = Some c"
  shows "\<exists>k < 64. c = 2 ^ k \<and> unat x \<le> 2 ^ k \<and> (\<forall>j < k. 2 ^ j < unat x)"
proof -
  obtain k where k: "List.find (\<lambda>k. unat x \<le> 2 ^ k) [0..<64] = Some k" "c = 2 ^ k"
    using assms by (auto simp: bit_ceil_def)
  then obtain i where i: "i < 64" "unat x \<le> 2 ^ k" "k = i" "\<forall>j < i. \<not> unat x \<le> 2 ^ j"
    by (auto simp: find_Some_iff)
  then show ?thesis using k by (auto simp: not_le)
qed

lemma bit_ceil_None_iff: "bit_ceil x = None \<longleftrightarrow> 2 ^ 63 < unat x"
proof -
  have "(\<forall>k \<in> {0..<64::nat}. \<not> unat x \<le> 2 ^ k) \<longleftrightarrow> 2 ^ 63 < unat x"
  proof
    assume "2 ^ 63 < unat x"
    moreover have "(2::nat) ^ k \<le> 2 ^ 63" if "k < 64" for k :: nat
      using that by (intro power_increasing) auto
    ultimately show "\<forall>k \<in> {0..<64::nat}. \<not> unat x \<le> 2 ^ k" by fastforce
  next
    assume "\<forall>k \<in> {0..<64::nat}. \<not> unat x \<le> 2 ^ k"
    then have "\<not> unat x \<le> 2 ^ 63" by (rule bspec) simp
    then show "2 ^ 63 < unat x" by simp
  qed
  then show ?thesis unfolding bit_ceil_def by (simp add: find_None_iff Ball_def)
qed

lemma bit_ceil_small:
  assumes "unat x \<le> 2 ^ 62"
  obtains k where "bit_ceil x = Some (2 ^ k)" "k < 63" "unat x \<le> 2 ^ k"
proof -
  have "bit_ceil x \<noteq> None" using assms by (simp add: bit_ceil_None_iff)
  then obtain c where c: "bit_ceil x = Some c" by blast
  then obtain k where k: "c = 2 ^ k" "unat x \<le> 2 ^ k" "\<forall>j < k. 2 ^ j < unat x"
    using bit_ceil_SomeD by blast
  have "k < 63"
  proof (rule ccontr)
    assume "\<not> k < 63"
    then have "(2::nat) ^ 62 < unat x" using k(3) by (auto dest: spec [of _ 62])
    then show False using assms by simp
  qed
  with c k that show ?thesis by blast
qed

lemma new_queue_inv:
  assumes "unat n \<le> 2 ^ 62"
  obtains q k where "new_queue n = Some q" "q_inv k 0 [] [] q" "unat n \<le> 2 ^ k"
proof -
  obtain k where k: "bit_ceil n = Some (2 ^ k)" "k < 63" "unat n \<le> 2 ^ k"
    using bit_ceil_small [OF assms] .
  have "unat (2 * 2 ^ k :: u64) = 2 * 2 ^ k"
    using unat64_pow2 [of "Suc k"] k(2) by simp
  then show ?thesis
    using k by (intro that) (auto simp: new_queue_def q_inv_def)
qed

section \<open>Space and offsets\<close>


lemma q_inv_w_word:
  assumes "q_inv k lag seen unseen q"
  shows "q_w q = q_r q + of_nat (length (concat (seen @ unseen)))"
    and "q_w q = q_cached_r q + of_nat (lag + length (concat seen) + length (concat unseen))"
  using assms by (simp_all add: q_inv_def add.assoc [symmetric])

lemma q_inv_space:
  assumes "q_inv k lag seen unseen q"
  shows "unat (q_cached_r q + q_capacity q - q_w q) =
    2 ^ k - (lag + length (concat seen) + length (concat unseen))"
proof -
  let ?t = "lag + length (concat seen) + length (concat unseen)"
  have k: "k < 63" and t: "?t \<le> 2 ^ k"
    and w: "q_cached_r q + q_capacity q - q_w q = 2 ^ k - of_nat ?t"
    using assms q_inv_w_word(2) [OF assms] by (simp_all add: q_inv_def)
  have "(2 ^ k - of_nat ?t :: u64) = of_nat (2 ^ k - ?t)"
    using t by (simp only: of_nat_diff of_nat_power of_nat_numeral)
  moreover have "(2::nat) ^ k < 18446744073709551616"
    using k power_strict_increasing [of k 64 "2::nat"] by simp
  ultimately show ?thesis using w by (simp only: unat64_of_nat less_imp_diff_less)
qed

lemma q_inv_lacks_space:
  assumes "q_inv k lag seen unseen q"
  shows "q_cached_r q + q_capacity q - q_w q < n \<longleftrightarrow>
    2 ^ k < lag + length (concat seen) + length (concat unseen) + unat n"
  using q_inv_space [OF assms] assms by (auto simp: word_less_nat_alt q_inv_def)

lemma q_inv_offset:
  assumes "q_inv k lag seen unseen q"
  shows "unat (p AND q_wrap_mask q) = unat p mod 2 ^ k"
  using assms by (auto simp: q_inv_def unat64_and_mask)

lemma q_inv_pow2_dvd: "q_inv k lag seen unseen q \<Longrightarrow> 2 ^ k dvd (18446744073709551616 :: nat)"
  by (auto simp: q_inv_def intro: pow2_dvd_64)

lemma q_inv_w_mod:
  assumes "q_inv k lag seen unseen q"
  shows "unat (q_w q) mod 2 ^ k = (unat (q_r q) + length (concat (seen @ unseen))) mod 2 ^ k"
  using unat64_add_mod [OF q_inv_pow2_dvd [OF assms]] by (simp only: q_inv_w_word(1) [OF assms])

text \<open>A stale or fresh load of the read position keeps the invariant, with a smaller lag.\<close>

lemma q_inv_load_r:
  assumes "q_inv k lag seen unseen q" and "d \<le> lag"
  shows "q_inv k (lag - d) seen unseen (q\<lparr>q_cached_r := q_cached_r q + of_nat d\<rparr>)"
proof -
  have "(of_nat d + of_nat (lag - d) :: u64) = of_nat lag"
    using assms(2) by (metis of_nat_add le_add_diff_inverse)
  then show ?thesis
    using assms by (auto simp: q_inv_def add.assoc)
qed

text \<open>A load of the write position moves a prefix of the unseen messages to the seen ones.\<close>

lemma q_inv_load_w:
  assumes "q_inv k lag seen (us @ vs) q"
  shows "q_inv k lag (seen @ us) vs
    (q\<lparr>q_cached_w := q_cached_w q + of_nat (length (concat us))\<rparr>)"
  using assms by (auto simp: q_inv_def add.assoc)

section \<open>The operations on a queue that satisfies the invariant\<close>

lemma reserve_write_obs_cases:
  assumes "reserve_write_obs loaded n q = (res, q')"
  shows "\<not> q_cached_r q + q_capacity q - q_w q < n \<and> q' = q \<and>
      res = \<lparr>wr_buffer = Some (q_w q AND q_wrap_mask q), wr_new_write_pos = q_w q + n\<rparr> \<or>
    q_cached_r q + q_capacity q - q_w q < n \<and> q' = q\<lparr>q_cached_r := loaded\<rparr> \<and>
      (if q_cached_r q' + q_capacity q' - q_w q' < n
       then res = \<lparr>wr_buffer = None, wr_new_write_pos = 0\<rparr>
       else res = \<lparr>wr_buffer = Some (q_w q' AND q_wrap_mask q'), wr_new_write_pos = q_w q' + n\<rparr>)"
  using assms unfolding reserve_write_obs_def Let_def by (auto split: if_splits)

lemma reserve_write_obs_inv:
  assumes inv: "q_inv k lag seen unseen q" and d: "d \<le> lag"
    and loaded: "loaded = q_cached_r q + of_nat d"
    and res: "reserve_write_obs loaded n q = (res, q')"
  obtains (full) "wr_buffer res = None" "q_inv k (lag - d) seen unseen q'"
      "2 ^ k < lag - d + length (concat (seen @ unseen)) + unat n"
      "q_buffer q' = q_buffer q" "q_w q' = q_w q" "q_cached_r q + q_capacity q - q_w q < n"
  | (room) lag' off where "wr_buffer res = Some off" "wr_new_write_pos res = q_w q + n"
      "q_inv k lag' seen unseen q'"
      "lag' = (if q_cached_r q + q_capacity q - q_w q < n then lag - d else lag)"
      "lag' + length (concat (seen @ unseen)) + unat n \<le> 2 ^ k"
      "unat off = unat (q_w q) mod 2 ^ k" "q_buffer q' = q_buffer q" "q_w q' = q_w q"
proof -
  let ?q = "q\<lparr>q_cached_r := loaded\<rparr>"
  have inv': "q_inv k (lag - d) seen unseen ?q"
    using q_inv_load_r [OF inv d] by (simp only: loaded)
  note space = q_inv_lacks_space [OF inv, of n] q_inv_lacks_space [OF inv', of n]
  from reserve_write_obs_cases [OF res] consider
    (old) "\<not> q_cached_r q + q_capacity q - q_w q < n" "q' = q"
      "res = \<lparr>wr_buffer = Some (q_w q AND q_wrap_mask q), wr_new_write_pos = q_w q + n\<rparr>"
  | (null) "q_cached_r q + q_capacity q - q_w q < n" "q' = ?q" "q_cached_r ?q + q_capacity ?q - q_w ?q < n"
      "res = \<lparr>wr_buffer = None, wr_new_write_pos = 0\<rparr>"
  | (new) "q_cached_r q + q_capacity q - q_w q < n" "q' = ?q" "\<not> q_cached_r ?q + q_capacity ?q - q_w ?q < n"
      "res = \<lparr>wr_buffer = Some (q_w ?q AND q_wrap_mask ?q), wr_new_write_pos = q_w ?q + n\<rparr>"
    by (metis (full_types))
  then show ?thesis
  proof cases
    case old
    then show ?thesis
      using inv q_inv_offset [OF inv] space(1) by (intro room [of _ lag]) auto
  next
    case null
    then show ?thesis
      using inv' space(2) by (intro full) auto
  next
    case new
    then show ?thesis
      using inv' q_inv_offset [OF inv', of "q_w q"] space(2) by (intro room [of _ "lag - d"]) auto
  qed
qed

text \<open>The region a reservation hands out is inside the allocation and touches no live message.\<close>

lemma q_inv_region_bound:
  assumes "q_inv k lag seen unseen q" and "lag + length (concat (seen @ unseen)) + n \<le> 2 ^ k"
  shows "unat (q_w q) mod 2 ^ k + n \<le> length (q_buffer q)"
proof -
  have "unat (q_w q) mod 2 ^ k < 2 ^ k" and "n \<le> 2 ^ k" and "length (q_buffer q) = 2 * 2 ^ k"
    using assms by (simp_all add: q_inv_def)
  then show ?thesis by linarith
qed

lemma q_inv_write_part:
  assumes inv: "q_inv k lag seen unseen q"
    and "lag + length (concat (seen @ unseen)) + n \<le> 2 ^ k"
    and "unat (q_w q) mod 2 ^ k \<le> a" and "a + length bs \<le> unat (q_w q) mod 2 ^ k + n"
    and w: "mem_write a bs (q_buffer q) = Some buf"
  shows "q_inv k lag seen unseen (q\<lparr>q_buffer := buf\<rparr>)"
proof -
  have "laid_out (2 ^ k) buf (unat (q_r q)) (seen @ unseen)"
  proof (rule laid_out_write_part)
    show "laid_out (2 ^ k) (q_buffer q) (unat (q_r q)) (seen @ unseen)"
      using inv by (simp add: q_inv_def)
    show "(unat (q_r q) + length (concat (seen @ unseen))) mod 2 ^ k \<le> a"
      and "a + length bs \<le> (unat (q_r q) + length (concat (seen @ unseen))) mod 2 ^ k + n"
      using assms(3,4) by (simp_all only: q_inv_w_mod [OF inv])
    show "unat (q_r q) + length (concat (seen @ unseen)) + n \<le> unat (q_r q) + 2 ^ k"
      using assms(2) by simp
  qed (use w in auto)
  then show ?thesis using inv w by (auto simp: q_inv_def mem_write_length)
qed

lemma q_inv_write_region:
  assumes inv: "q_inv k lag seen unseen q"
    and "lag + length (concat (seen @ unseen)) + length bs \<le> 2 ^ k"
  obtains buf where "mem_write (unat (q_w q) mod 2 ^ k) bs (q_buffer q) = Some buf"
    "q_inv k lag seen unseen (q\<lparr>q_buffer := buf\<rparr>)"
    "laid_out (2 ^ k) buf (unat (q_w q)) [bs]"
proof -
  obtain buf where w: "mem_write (unat (q_w q) mod 2 ^ k) bs (q_buffer q) = Some buf"
    using q_inv_region_bound [OF assms] by (meson mem_write_ok)
  then show ?thesis
    using q_inv_write_part [OF assms _ _ w] laid_out_write_new [OF w] by (intro that) auto
qed

lemma commit_write_inv:
  assumes inv: "q_inv k lag seen unseen q" and "bs \<noteq> []"
    and "lag + length (concat (seen @ unseen)) + length bs \<le> 2 ^ k"
    and "laid_out (2 ^ k) (q_buffer q) (unat (q_w q)) [bs]"
  shows "q_inv k lag seen (unseen @ [bs]) (commit_write (q_w q + of_nat (length bs)) q)"
proof -
  have "laid_out (2 ^ k) (q_buffer q) (unat (q_r q) + length (concat (seen @ unseen))) [bs]"
    using assms(4) q_inv_w_mod [OF inv] by (metis laid_out_cong)
  then have "laid_out (2 ^ k) (q_buffer q) (unat (q_r q)) ((seen @ unseen) @ [bs])"
    using inv by (simp only: laid_out_append [of _ _ _ "seen @ unseen"] q_inv_def)
  then show ?thesis using assms by (auto simp: q_inv_def commit_write_def)
qed


lemma is_empty_obs_inv:
  assumes inv: "q_inv k lag seen (us @ vs) q"
    and ld: "loaded = q_cached_w q + of_nat (length (concat us))"
    and res: "is_empty_obs loaded q = (e, q')"
  obtains (empty) "e" "seen = []" "us = []" "q_inv k lag [] vs q'"
      "q_buffer q' = q_buffer q" "q_r q' = q_r q" "q_cached_w q \<le> q_r q"
  | (kept) m seen' where "\<not> e" "q' = q" "seen = m # seen'" "\<not> q_cached_w q \<le> q_r q"
  | (loaded) m seen' where "\<not> e" "q_inv k lag (m # seen') vs q'" "seen @ us = m # seen'"
      "q_buffer q' = q_buffer q" "q_r q' = q_r q" "q_cached_w q \<le> q_r q"
proof -
  let ?q = "q\<lparr>q_cached_w := loaded\<rparr>"
  have inv': "q_inv k lag (seen @ us) vs ?q"
    using q_inv_load_w [OF inv] by (simp only: ld)
  have small: "length (concat (seen @ us)) < 18446744073709551616"
  proof -
    have "length (concat (seen @ us)) \<le> 2 ^ k" and "k < 63" using inv' by (simp_all add: q_inv_def)
    moreover have "(2::nat) ^ k < 2 ^ 64" using \<open>k < 63\<close> by (intro power_strict_increasing) auto
    ultimately show ?thesis by simp
  qed
  have ne: "seen @ us \<noteq> [] \<Longrightarrow> loaded \<noteq> q_r q"
    and eq: "seen @ us = [] \<Longrightarrow> loaded = q_r q"
  proof -
    have l: "loaded = q_r q + of_nat (length (concat (seen @ us)))"
      using inv' by (simp add: q_inv_def)
    then show "seen @ us = [] \<Longrightarrow> loaded = q_r q" by simp
    assume "seen @ us \<noteq> []"
    moreover have "[] \<notin> set (seen @ us)" using inv' by (simp add: q_inv_def)
    ultimately have "length (concat (seen @ us)) \<noteq> 0" by (cases "seen @ us") auto
    then have "(of_nat (length (concat (seen @ us))) :: u64) \<noteq> 0"
      using small by (metis unat64_of_nat unat_0)
    then show "loaded \<noteq> q_r q" using l by simp
  qed
  show ?thesis
  proof (cases "q_cached_w q \<le> q_r q")
    case False
    have "seen \<noteq> []"
    proof
      assume "seen = []"
      then have "q_cached_w q = q_r q" using inv by (simp add: q_inv_def)
      then show False using False by simp
    qed
    then obtain m seen' where "seen = m # seen'" by (cases seen) auto
    then show ?thesis using False res by (intro kept) (auto simp: is_empty_obs_def)
  next
    case True
    then have r: "e = (loaded = q_r q)" "q' = ?q" using res by (auto simp: is_empty_obs_def)
    show ?thesis
    proof (cases "seen @ us")
      case Nil
      then show ?thesis using True r eq inv' by (intro empty) auto
    next
      case (Cons m seen')
      then show ?thesis using True r ne inv' by (intro loaded [of m seen']) auto
    qed
  qed
qed

text \<open>A read reservation points at the first message, wherever the positions have wrapped to.\<close>

lemma q_inv_front:
  assumes "q_inv k lag seen unseen q" and "seen @ unseen = m # ms"
  shows "mem_read (unat (q_r q AND q_wrap_mask q)) (length m) (q_buffer q) = Some m"
proof -
  have "laid_out (2 ^ k) (q_buffer q) (unat (q_r q)) (m # ms)"
    using assms by (simp only: q_inv_def)
  then show ?thesis by (simp add: q_inv_offset [OF assms(1)])
qed

lemma reserve_read_obs_inv:
  assumes inv: "q_inv k lag seen (us @ vs) q"
    and ld: "loaded = q_cached_w q + of_nat (length (concat us))"
    and res: "reserve_read_obs loaded q = (res, q')"
  obtains (empty) "rr_buffer res = None" "seen = []" "us = []" "q_inv k lag [] vs q'"
      "q_buffer q' = q_buffer q" "q_r q' = q_r q" "q_cached_w q \<le> q_r q"
  | (front) off m seen' unseen' where "rr_buffer res = Some off"
      "rr_current_read_pos res = q_r q'" "q_inv k lag (m # seen') unseen' q'"
      "(m # seen') @ unseen' = seen @ us @ vs"
      "mem_read (unat off) (length m) (q_buffer q') = Some m"
      "q_buffer q' = q_buffer q" "q_r q' = q_r q" "unat off = unat (q_r q) mod 2 ^ k"
      "m # seen' = (if q_cached_w q \<le> q_r q then seen @ us else seen)"
proof -
  obtain e where e: "is_empty_obs loaded q = (e, q')"
    and r: "res = (if e then \<lparr>rr_buffer = None, rr_current_read_pos = 0\<rparr>
       else \<lparr>rr_buffer = Some (q_r q' AND q_wrap_mask q'), rr_current_read_pos = q_r q'\<rparr>)"
    using res by (auto simp: reserve_read_obs_def split: prod.splits bool.splits)
  from inv ld e show ?thesis
  proof (cases rule: is_empty_obs_inv)
    case empty
    with r show ?thesis by (intro that(1)) auto
  next
    case (kept m seen')
    then have "q_inv k lag (m # seen') (us @ vs) q'" using inv by simp
    from q_inv_front [OF this] show ?thesis using inv kept r
      by (intro front [of _ m seen' "us @ vs"]) (auto simp: q_inv_offset [OF inv])
  next
    case (loaded m seen')
    from q_inv_front [OF loaded(2)] show ?thesis using loaded r
      by (intro front [of _ m seen' vs]) (auto simp: q_inv_offset [OF loaded(2)])
  qed
qed

lemma commit_read_inv:
  assumes inv: "q_inv k lag (m # seen) unseen q"
  shows "q_inv k (lag + length m) seen unseen (commit_read (q_r q + of_nat (length m)) q)"
proof -
  have "laid_out (2 ^ k) (q_buffer q) (unat (q_r q) + length m) (seen @ unseen)"
    using inv by (simp add: q_inv_def)
  moreover have "(unat (q_r q) + length m) mod 2 ^ k = unat (q_r q + of_nat (length m)) mod 2 ^ k"
    by (rule unat64_add_mod [OF q_inv_pow2_dvd [OF inv], symmetric])
  ultimately have "laid_out (2 ^ k) (q_buffer q) (unat (q_r q + of_nat (length m))) (seen @ unseen)"
    using laid_out_cong by blast
  then show ?thesis
    using inv by (simp add: q_inv_def commit_read_def add.assoc [symmetric])
qed


section \<open>The sequential operations implement the FIFO contract\<close>

lemma q_inv_cap: "q_inv k lag seen unseen q \<Longrightarrow> q_cap q = 2 ^ k"
  by (simp add: q_inv_def q_cap_def unat64_pow2)

lemma q_holds_bound: "q_holds q ms \<Longrightarrow> length (concat ms) \<le> q_cap q"
  using q_inv_cap by (fastforce simp: q_holds_def q_inv_def)

lemma reserve_write_capacity: "reserve_write_obs l n q = (res, q') \<Longrightarrow> q_capacity q' = q_capacity q"
  by (auto simp: reserve_write_obs_def Let_def split: if_splits)

lemma write_bytes_law:
  assumes "q_holds q ms" and ne: "bs \<noteq> []" and len: "length bs < 2 ^ 64"
  shows "\<exists>q'. write_bytes bs q = Some (fits (q_cap q) ms bs, q') \<and> q_cap q' = q_cap q \<and>
    q_holds q' (admit (q_cap q) ms bs)"
proof -
  obtain k lag seen unseen where inv: "q_inv k lag seen unseen q" and ms: "ms = seen @ unseen"
    using assms(1) by (auto simp: q_holds_def)
  obtain res q1 where res: "reserve_write_obs (q_atomic_r q) (of_nat (length bs)) q = (res, q1)"
    by fastforce
  have loaded: "q_atomic_r q = q_cached_r q + of_nat lag" using inv by (simp add: q_inv_def)
  have n: "unat (of_nat (length bs) :: u64) = length bs"
    using len by (simp add: unat64_of_nat)
  note cap = q_inv_cap [OF inv]
  have cap1: "q_cap q1 = q_cap q"
    using reserve_write_capacity [OF res] by (simp add: q_cap_def)
  from inv order_refl loaded res show ?thesis
  proof (cases rule: reserve_write_obs_inv)
    case full
    then have "\<not> fits (q_cap q) ms bs" using n cap ms by (simp add: fits_def)
    then show ?thesis
      using full res ms cap1 by (auto simp: write_bytes_def reserve_write_def admit_def q_holds_def)
  next
    case (room lag' off)
    obtain buf where buf: "mem_write (unat (q_w q1) mod 2 ^ k) bs (q_buffer q1) = Some buf"
      and inv2: "q_inv k lag' seen unseen (q1\<lparr>q_buffer := buf\<rparr>)"
      and new: "laid_out (2 ^ k) buf (unat (q_w q1)) [bs]"
      using room(5) unfolding n by (rule q_inv_write_region [OF room(3)])
    have "q_inv k lag' seen (unseen @ [bs])
        (commit_write (q_w q1 + of_nat (length bs)) (q1\<lparr>q_buffer := buf\<rparr>))"
      using commit_write_inv [OF inv2 ne] room(5) n new by simp
    moreover have "fits (q_cap q) ms bs" using room(5) n cap ms by (simp add: fits_def)
    ultimately show ?thesis
      using room res buf ms cap1
      by (auto simp: write_bytes_def reserve_write_def admit_def q_holds_def q_cap_def commit_write_def)
  qed
qed

lemma reserve_read_capacity: "reserve_read_obs l q = (res, q') \<Longrightarrow> q_capacity q' = q_capacity q"
  by (auto simp: reserve_read_obs_def is_empty_obs_def Let_def split: if_splits prod.splits bool.splits)

lemma read_bytes_laws:
  assumes "q_holds q ms"
  shows "ms = [] \<Longrightarrow> \<exists>q'. read_bytes n q = Some (None, q') \<and> q_cap q' = q_cap q \<and> q_holds q' []"
    and "ms = m # ms' \<Longrightarrow> \<exists>q'. read_bytes (length m) q = Some (Some m, q') \<and>
      q_cap q' = q_cap q \<and> q_holds q' ms'"
proof -
  obtain k lag seen unseen where inv: "q_inv k lag seen (unseen @ []) q" and ms: "ms = seen @ unseen"
    using assms(1) by (auto simp: q_holds_def)
  have loaded: "q_atomic_w q = q_cached_w q + of_nat (length (concat unseen))"
    using inv by (simp add: q_inv_def)
  obtain res q1 where res: "reserve_read_obs (q_atomic_w q) q = (res, q1)" by fastforce
  have cap1: "q_cap q1 = q_cap q"
    using reserve_read_capacity [OF res] by (simp add: q_cap_def)
  show "ms = [] \<Longrightarrow> \<exists>q'. read_bytes n q = Some (None, q') \<and> q_cap q' = q_cap q \<and> q_holds q' []"
    using inv loaded res
  proof (cases rule: reserve_read_obs_inv)
    case empty
    then show ?thesis
      using res cap1 by (fastforce simp: read_bytes_def reserve_read_def q_holds_def)
  qed (use ms in auto)
  assume m: "ms = m # ms'"
  from inv loaded res
  show "\<exists>q'. read_bytes (length m) q = Some (Some m, q') \<and> q_cap q' = q_cap q \<and> q_holds q' ms'"
  proof (cases rule: reserve_read_obs_inv)
    case (front off m1 seen' unseen')
    have eq: "m1 = m" "ms' = seen' @ unseen'" using front(4) m ms by auto
    show ?thesis
      using front commit_read_inv [OF front(3)] res cap1
      by (auto simp: read_bytes_def reserve_read_def q_holds_def eq q_cap_def commit_read_def)
  qed (use ms m in auto)
qed

interpretation rq: byte_fifo q_holds q_cap write_bytes read_bytes
  by unfold_locales (use write_bytes_law read_bytes_laws q_holds_bound in auto)

lemma new_queue_holds:
  assumes "unat n \<le> 2 ^ 62"
  obtains q where "new_queue n = Some q" "q_holds q []" "unat n \<le> q_cap q"
  using new_queue_inv [OF assms] q_inv_cap unfolding q_holds_def by (metis append_Nil)


text \<open>Moving every position of an empty queue to \<open>p\<close>: the state after \<open>p\<close> bytes of traffic.\<close>

definition queue_at :: "u64 \<Rightarrow> queue \<Rightarrow> queue" where
  "queue_at p q = q\<lparr>q_atomic_r := p, q_atomic_w := p, q_w := p, q_cached_r := p, q_r := p,
     q_cached_w := p\<rparr>"

lemma queue_at_holds:
  assumes "unat n \<le> 2 ^ 62" and "new_queue n = Some q"
  shows "q_holds (queue_at p q) []" and "q_cap (queue_at p q) = q_cap q"
proof -
  obtain k where "q_inv k 0 [] [] q"
    using new_queue_inv [OF assms(1)] assms(2) by (metis option.inject)
  then have "q_inv k 0 [] [] (queue_at p q)" by (simp add: q_inv_def queue_at_def)
  then show "q_holds (queue_at p q) []" unfolding q_holds_def by (metis append_Nil)
  show "q_cap (queue_at p q) = q_cap q" by (simp add: q_cap_def queue_at_def)
qed

section \<open>Properties\<close>

text \<open>C7. The ring buffer refines the bounded FIFO of byte messages. On a queue constructed
  with a capacity of at most \<open>2 ^ 62\<close>, every script of writes and reads runs without an access
  outside the allocation, a write succeeds exactly when the unread bytes and the new message fit
  in the capacity, and a read returns the oldest unread message unchanged, or nothing exactly
  when there is none.\<close>

theorem queue_refines_fifo:
  assumes "unat n \<le> 2 ^ 62" and "new_queue n = Some q" and "script_ok ops"
  shows "\<exists>q'. script_run write_bytes read_bytes ops [] q =
      Some (fst (model_run (q_cap q) ops []), q') \<and>
    q_holds q' (snd (model_run (q_cap q) ops []))"
proof -
  obtain q0 where "new_queue n = Some q0" "q_holds q0 []" using new_queue_holds [OF assms(1)] .
  then have "q_holds q []" using assms(2) by simp
  then show ?thesis using rq.script_refines [OF _ assms(3), of q "[]"] by auto
qed

theorem queue_refines_fifo_witness:
  "\<exists>q q'. new_queue 3 = Some q \<and> q_cap q = 4 \<and>
     script_run write_bytes read_bytes [Push [1, 2, 3], Push [4, 5], Pop, Push [4, 5, 6], Pop, Pop] [] q =
       Some ([Pushed True, Pushed False, Popped (Some [1, 2, 3]), Pushed True,
              Popped (Some [4, 5, 6]), Popped None], q') \<and> q_holds q' []"
proof -
  obtain q where q: "new_queue 3 = Some q" "q_cap q = 4"
    by (simp add: new_queue_def bit_ceil_def upt_rec q_cap_def)
  have "unat (3 :: u64) \<le> 2 ^ 62" by simp
  from queue_refines_fifo [OF this q(1),
      of "[Push [1, 2, 3], Push [4, 5], Pop, Push [4, 5, 6], Pop, Pop]"] q
  show ?thesis by (auto simp: fits_def admit_def)
qed

text \<open>C37. Wrap-around of the 64-bit positions is harmless: a script gives the same answers on a
  fresh queue and on one whose positions start anywhere in \<open>size_t\<close>, for instance so close below
  \<open>2 ^ 64\<close> that they overflow during the script.\<close>

theorem queue_wraparound_harmless:
  assumes "unat n \<le> 2 ^ 62" and "new_queue n = Some q" and "script_ok ops"
  shows "map_option fst (script_run write_bytes read_bytes ops [] (queue_at p q)) =
    map_option fst (script_run write_bytes read_bytes ops [] q)"
proof -
  have eq: "queue_at 0 q = q"
    using assms(2) by (auto simp: new_queue_def queue_at_def split: option.splits)
  have "map_option fst (script_run write_bytes read_bytes ops [] (queue_at p' q)) =
      Some (fst (model_run (q_cap q) ops []))" for p'
    using rq.script_refines [OF queue_at_holds(1) [OF assms(1,2)] assms(3)]
    by (fastforce simp: queue_at_holds(2) [OF assms(1,2)])
  from this [of p] this [of 0] show ?thesis by (auto simp: eq)
qed

theorem queue_wraparound_harmless_witness:
  "\<exists>q. new_queue 8 = Some q \<and>
     map_option fst (script_run write_bytes read_bytes [Push [7, 8, 9, 10, 11], Pop, Push [1], Pop]
       [] (queue_at (- 3) q)) =
     map_option fst (script_run write_bytes read_bytes [Push [7, 8, 9, 10, 11], Pop, Push [1], Pop]
       [] q)"
proof -
  have n: "unat (8 :: u64) \<le> 2 ^ 62" by simp
  obtain q where q: "new_queue 8 = Some q" using new_queue_holds [OF n] by blast
  have "script_ok [Push [7, 8, 9, 10, 11], Pop, Push [1], Pop]" by simp
  from queue_wraparound_harmless [OF n q this] q show ?thesis by blast
qed

text \<open>A write reservation is refused exactly when the unread bytes and the request exceed
  the capacity; otherwise it is one contiguous region inside the allocation, and whatever is
  written to it leaves every unread message in place.\<close>

theorem reserve_write_safe:
  assumes "q_holds q ms" and "reserve_write n q = (res, q')"
  shows "(wr_buffer res = None \<longleftrightarrow> q_cap q < length (concat ms) + unat n) \<and>
    (\<forall>off bs. wr_buffer res = Some off \<and> length bs = unat n \<longrightarrow>
      (\<exists>buf. mem_write (unat off) bs (q_buffer q') = Some buf \<and>
        q_holds (q'\<lparr>q_buffer := buf\<rparr>) ms))"
proof -
  obtain k lag seen unseen where inv: "q_inv k lag seen unseen q" and ms: "ms = seen @ unseen"
    using assms(1) by (auto simp: q_holds_def)
  have loaded: "q_atomic_r q = q_cached_r q + of_nat lag" using inv by (simp add: q_inv_def)
  have res: "reserve_write_obs (q_atomic_r q) n q = (res, q')"
    using assms(2) by (simp add: reserve_write_def)
  note cap = q_inv_cap [OF inv]
  from inv order_refl loaded res show ?thesis
  proof (cases rule: reserve_write_obs_inv)
    case full
    then show ?thesis using cap ms by simp
  next
    case (room lag' off)
    have "\<exists>buf. mem_write (unat off) bs (q_buffer q') = Some buf \<and>
        q_holds (q'\<lparr>q_buffer := buf\<rparr>) ms" if len: "length bs = unat n" for bs
    proof -
      obtain buf where "mem_write (unat (q_w q') mod 2 ^ k) bs (q_buffer q') = Some buf"
        "q_inv k lag' seen unseen (q'\<lparr>q_buffer := buf\<rparr>)"
        using room(5) unfolding len [symmetric] by (rule q_inv_write_region [OF room(3)])
      then show ?thesis using room ms by (auto simp: q_holds_def)
    qed
    then show ?thesis using room cap ms by auto
  qed
qed

theorem reserve_write_safe_witness:
  "\<exists>q res q'. new_queue 8 = Some q \<and> reserve_write 5 q = (res, q') \<and>
     (\<exists>buf. mem_write 0 [1, 2, 3, 4, 5] (q_buffer q') = Some buf \<and>
        q_holds (q'\<lparr>q_buffer := buf\<rparr>) [])"
proof -
  have n: "unat (8 :: u64) \<le> 2 ^ 62" by simp
  obtain q where q: "new_queue 8 = Some q" "q_holds q []" using new_queue_holds [OF n] by blast
  obtain res q' where res: "reserve_write 5 q = (res, q')" by fastforce
  have "wr_buffer res = Some 0"
    using q(1) res by (auto simp: new_queue_def bit_ceil_def upt_rec reserve_write_def
        reserve_write_obs_def)
  with reserve_write_safe [OF q(2) res] q(1) res show ?thesis
    by (fastforce dest: spec [of _ "[1, 2, 3, 4, 5]"])
qed

text \<open>\<open>is_empty\<close> answers whether there is an unread message, also when the positions have
  wrapped, and changes nothing but the reader's cached position.\<close>

theorem is_empty_exact:
  assumes "q_holds q ms"
  shows "(fst (is_empty q) \<longleftrightarrow> ms = []) \<and> q_holds (snd (is_empty q)) ms \<and>
    (snd (is_empty q))\<lparr>q_cached_w := q_cached_w q\<rparr> = q"
proof -
  obtain k lag seen unseen where inv: "q_inv k lag seen (unseen @ []) q" and ms: "ms = seen @ unseen"
    using assms(1) by (auto simp: q_holds_def)
  have loaded: "q_atomic_w q = q_cached_w q + of_nat (length (concat unseen))"
    using inv by (simp add: q_inv_def)
  obtain e q' where res: "is_empty_obs (q_atomic_w q) q = (e, q')" by fastforce
  have "(e \<longleftrightarrow> ms = []) \<and> q_holds q' ms"
    using inv loaded res
  proof (cases rule: is_empty_obs_inv)
    case (kept m seen')
    then show ?thesis using assms ms by simp
  next
    case (loaded m seen')
    then have "ms = (m # seen') @ []" using ms by simp
    then show ?thesis using loaded(1,2) unfolding q_holds_def by blast
  next
    case empty
    then have "ms = [] @ []" using ms by simp
    then show ?thesis using empty(1,4) unfolding q_holds_def by blast
  qed
  moreover have "(snd (is_empty q))\<lparr>q_cached_w := q_cached_w q\<rparr> = q"
    by (simp add: is_empty_def is_empty_obs_def Let_def)
  ultimately show ?thesis using res by (simp add: is_empty_def)
qed

theorem is_empty_exact_witness:
  "\<exists>q. new_queue 8 = Some q \<and> fst (is_empty (queue_at (- 1) q))"
proof -
  have n: "unat (8 :: u64) \<le> 2 ^ 62" by simp
  obtain q where q: "new_queue 8 = Some q" using new_queue_holds [OF n] by blast
  from is_empty_exact [OF queue_at_holds(1) [OF n q]] q show ?thesis by blast
qed

text \<open>The capacity is the least power of two that is not below the requested size, and
  sizes above \<open>2 ^ 63\<close>, which \<open>std::bit_ceil\<close> does not define, have none.\<close>

theorem new_queue_capacity:
  "(case new_queue n of
      None \<Rightarrow> 2 ^ 63 < unat n
    | Some q \<Rightarrow> \<exists>k < 64. q_cap q = 2 ^ k \<and> unat n \<le> 2 ^ k \<and> (\<forall>j. unat n \<le> 2 ^ j \<longrightarrow> k \<le> j))"
proof (cases "bit_ceil n")
  case None
  then have "2 ^ 63 < unat n" using bit_ceil_None_iff by blast
  with None show ?thesis by (simp add: new_queue_def)
next
  case (Some c)
  then obtain k where k: "k < 64" "c = 2 ^ k" "unat n \<le> 2 ^ k" "\<forall>j < k. 2 ^ j < unat n"
    using bit_ceil_SomeD by blast
  then have "\<forall>j. unat n \<le> 2 ^ j \<longrightarrow> k \<le> j" by (meson not_le)
  then show ?thesis using Some k by (auto simp: new_queue_def q_cap_def unat64_pow2)
qed

theorem new_queue_capacity_witness:
  "\<exists>q. new_queue 100 = Some q \<and> (\<exists>k < 64. q_cap q = 2 ^ k \<and> 100 \<le> (2 :: nat) ^ k)"
proof -
  have "new_queue 100 \<noteq> None" by (simp add: new_queue_def bit_ceil_def upt_rec)
  then show ?thesis using new_queue_capacity [of 100] by (auto split: option.splits)
qed



end
