(* ===== verification/Spsc.thy ===== *)
theory Spsc
  imports Ring_Queue
begin

text \<open>
  The ring buffer shared by its two threads. Writer and reader run concurrently: a step is one
  call of \<open>reserve_write\<close>, one byte copied, one \<open>commit_write\<close>, or the same for the reader.
  The shared positions are release/acquire atomics: an acquire load may return any value of the
  position's modification order that is not older than the last one this thread has read, so
  the state keeps both modification orders (\<open>hist_r\<close>, \<open>hist_w\<close>) and the index last read
  (\<open>rd_r\<close>, \<open>rd_w\<close>). The bytes of the buffer are plain memory, which is adequate because the two
  threads never touch the same byte (\<open>spsc_race_free\<close>).

  \<open>complete\<close> tells the reader, from the bytes read so far, that the message is complete: the
  backend reads the size out of the event's header.
\<close>

datatype writer = W_Idle | W_Copy "byte list" u64 u64 nat

datatype reader = R_Idle | R_Copy u64 u64 "byte list"

record spsc =
  sq :: queue
  hist_r :: "u64 list"
  hist_w :: "u64 list"
  rd_r :: nat
  rd_w :: nat
  sent :: "byte list list"
  received :: "byte list list"
  wr :: writer
  rd :: reader

definition init_spsc :: "queue \<Rightarrow> spsc" where
  "init_spsc q = \<lparr>sq = q, hist_r = [q_atomic_r q], hist_w = [q_atomic_w q], rd_r = 0, rd_w = 0,
     sent = [], received = [], wr = W_Idle, rd = R_Idle\<rparr>"

text \<open>A frame is a message the reader recognises at its last byte and not before.\<close>

definition is_frame :: "(byte list \<Rightarrow> bool) \<Rightarrow> byte list \<Rightarrow> bool" where
  "is_frame complete m \<longleftrightarrow>
     m \<noteq> [] \<and> length m < 2 ^ 64 \<and> complete m \<and> (\<forall>i < length m. \<not> complete (take i m))"

inductive spsc_step :: "(byte list \<Rightarrow> bool) \<Rightarrow> spsc \<Rightarrow> spsc \<Rightarrow> bool"
  for complete
where
  w_reserve: "wr s = W_Idle \<Longrightarrow> is_frame complete m \<Longrightarrow>
     rd_r s \<le> j \<Longrightarrow> j < length (hist_r s) \<Longrightarrow>
     reserve_write_obs (hist_r s ! j) (of_nat (length m)) (sq s) = (res, q') \<Longrightarrow>
     spsc_step complete s (s\<lparr>sq := q',
       rd_r := (if q_cached_r (sq s) + q_capacity (sq s) - q_w (sq s) < of_nat (length m)
                then j else rd_r s),
       wr := (case wr_buffer res of
                None \<Rightarrow> W_Idle
              | Some off \<Rightarrow> W_Copy m off (wr_new_write_pos res) 0)\<rparr>)"
| w_copy: "wr s = W_Copy m off pos i \<Longrightarrow> i < length m \<Longrightarrow>
     mem_write (unat off + i) [m ! i] (q_buffer (sq s)) = Some buf \<Longrightarrow>
     spsc_step complete s
       (s\<lparr>sq := (sq s)\<lparr>q_buffer := buf\<rparr>, wr := W_Copy m off pos (Suc i)\<rparr>)"
| w_commit: "wr s = W_Copy m off pos (length m) \<Longrightarrow>
     spsc_step complete s (s\<lparr>sq := commit_write pos (sq s), hist_w := hist_w s @ [pos],
       sent := sent s @ [m], wr := W_Idle\<rparr>)"
| r_reserve: "rd s = R_Idle \<Longrightarrow> rd_w s \<le> j \<Longrightarrow> j < length (hist_w s) \<Longrightarrow>
     reserve_read_obs (hist_w s ! j) (sq s) = (rres, q') \<Longrightarrow>
     spsc_step complete s (s\<lparr>sq := q',
       rd_w := (if q_cached_w (sq s) \<le> q_r (sq s) then j else rd_w s),
       rd := (case rr_buffer rres of
                None \<Rightarrow> R_Idle
              | Some off \<Rightarrow> R_Copy off (rr_current_read_pos rres) [])\<rparr>)"
| r_copy: "rd s = R_Copy off pos bs \<Longrightarrow> \<not> complete bs \<Longrightarrow>
     mem_read (unat off + length bs) 1 (q_buffer (sq s)) = Some [b] \<Longrightarrow>
     spsc_step complete s (s\<lparr>rd := R_Copy off pos (bs @ [b])\<rparr>)"
| r_commit: "rd s = R_Copy off pos bs \<Longrightarrow> complete bs \<Longrightarrow>
     spsc_step complete s (s\<lparr>sq := commit_read (pos + of_nat (length bs)) (sq s),
       hist_r := hist_r s @ [pos + of_nat (length bs)],
       received := received s @ [bs], rd := R_Idle\<rparr>)"

inductive spsc_reachable :: "(byte list \<Rightarrow> bool) \<Rightarrow> queue \<Rightarrow> spsc \<Rightarrow> bool"
  for complete q
where
  start: "spsc_reachable complete q (init_spsc q)"
| step: "spsc_reachable complete q s \<Longrightarrow> spsc_step complete s t \<Longrightarrow> spsc_reachable complete q t"

section \<open>The invariant\<close>

text \<open>The word at which a list of messages ends, counted from \<open>p0\<close>.\<close>

definition pos_after :: "u64 \<Rightarrow> byte list list \<Rightarrow> u64" where
  "pos_after p0 ms = p0 + of_nat (length (concat ms))"

text \<open>The modification order of a position: one store per message.\<close>

definition history :: "u64 \<Rightarrow> byte list list \<Rightarrow> u64 list" where
  "history p0 ms = map (\<lambda>j. pos_after p0 (take j ms)) [0..<Suc (length ms)]"

definition writer_ok :: "(byte list \<Rightarrow> bool) \<Rightarrow> nat \<Rightarrow> nat \<Rightarrow> queue \<Rightarrow> writer \<Rightarrow> bool" where
  "writer_ok complete k used q w =
     (case w of
        W_Idle \<Rightarrow> True
      | W_Copy m off pos i \<Rightarrow>
          is_frame complete m \<and> i \<le> length m \<and> used + length m \<le> 2 ^ k \<and>
          unat (q_w q) mod 2 ^ k = unat off \<and> pos = q_w q + of_nat (length m) \<and>
          mem_read (unat off) i (q_buffer q) = Some (take i m))"

definition reader_ok :: "nat \<Rightarrow> byte list list \<Rightarrow> queue \<Rightarrow> reader \<Rightarrow> bool" where
  "reader_ok k seen q r =
     (case r of
        R_Idle \<Rightarrow> True
      | R_Copy off pos bs \<Rightarrow>
          unat (q_r q) mod 2 ^ k = unat off \<and> pos = q_r q \<and>
          (\<exists>m seen'. seen = m # seen' \<and> length bs \<le> length m \<and> take (length bs) m = bs))"

definition spsc_rel ::
  "(byte list \<Rightarrow> bool) \<Rightarrow> u64 \<Rightarrow> nat \<Rightarrow> byte list list \<Rightarrow> byte list list \<Rightarrow> spsc \<Rightarrow> bool" where
  "spsc_rel complete p0 k seen unseen s \<longleftrightarrow>
     q_inv k (length (concat (drop (rd_r s) (received s)))) seen unseen (sq s) \<and>
     sent s = received s @ seen @ unseen \<and>
     rd_r s \<le> length (received s) \<and> rd_w s = length (received s) + length seen \<and>
     q_r (sq s) = pos_after p0 (received s) \<and>
     hist_r s = history p0 (received s) \<and> hist_w s = history p0 (sent s) \<and>
     (\<forall>m \<in> set (sent s). is_frame complete m) \<and>
     writer_ok complete k
       (length (concat (drop (rd_r s) (received s))) + length (concat (seen @ unseen)))
       (sq s) (wr s) \<and>
     reader_ok k seen (sq s) (rd s)"

definition spsc_inv :: "(byte list \<Rightarrow> bool) \<Rightarrow> u64 \<Rightarrow> nat \<Rightarrow> spsc \<Rightarrow> bool" where
  "spsc_inv complete p0 k s \<longleftrightarrow> (\<exists>seen unseen. spsc_rel complete p0 k seen unseen s)"

lemma pos_after_append [simp]: "pos_after p0 (ms @ ns) = pos_after p0 ms + of_nat (length (concat ns))"
  by (simp add: pos_after_def)

lemma length_history [simp]: "length (history p0 ms) = Suc (length ms)"
  by (simp add: history_def)

lemma nth_history: "j \<le> length ms \<Longrightarrow> history p0 ms ! j = pos_after p0 (take j ms)"
  unfolding history_def by (simp del: upt_Suc)

lemma history_snoc: "history p0 (ms @ [m]) = history p0 ms @ [pos_after p0 ms + of_nat (length m)]"
proof -
  have "map (\<lambda>j. pos_after p0 (take j (ms @ [m]))) [0..<Suc (length ms)] =
      map (\<lambda>j. pos_after p0 (take j ms)) [0..<Suc (length ms)]"
    by (intro map_cong) (auto simp del: upt_Suc)
  then show ?thesis unfolding history_def by simp
qed

lemma drop_take_split: "i \<le> j \<Longrightarrow> drop i ms = drop i (take j ms) @ drop j ms"
proof -
  assume ij: "i \<le> j"
  have "drop i (take j ms @ drop j ms) = drop i (take j ms) @ drop j ms"
    unfolding drop_append using ij by (cases "j \<le> length ms") auto
  then show ?thesis by simp
qed

lemma pos_after_take_drop:
  "i \<le> j \<Longrightarrow> pos_after p0 (take j ms) = pos_after p0 (take i ms) + of_nat (length (concat (drop i (take j ms))))"
  by (metis append_take_drop_id min.absorb_iff2 min_def pos_after_append take_take)

section \<open>Every step keeps the invariant\<close>

lemma reserve_write_obs_frame:
  "reserve_write_obs l n q = (res, q') \<Longrightarrow> q_r q' = q_r q \<and> q_w q' = q_w q \<and> q_buffer q' = q_buffer q"
  by (auto simp: reserve_write_obs_def Let_def split: if_splits)

lemma reserve_read_obs_frame:
  "reserve_read_obs l q = (res, q') \<Longrightarrow> q_r q' = q_r q \<and> q_w q' = q_w q \<and> q_buffer q' = q_buffer q"
  by (auto simp: reserve_read_obs_def is_empty_obs_def Let_def split: if_splits prod.splits bool.splits)

lemma reader_ok_cong: "q_r q' = q_r q \<Longrightarrow> reader_ok k seen q' r = reader_ok k seen q r"
  by (cases r) (simp_all add: reader_ok_def)

lemma writer_ok_cong:
  "q_w q' = q_w q \<Longrightarrow> q_buffer q' = q_buffer q \<Longrightarrow> writer_ok c k u q' w = writer_ok c k u q w"
  by (cases w) (simp_all add: writer_ok_def)

lemma spsc_rel_lag:
  assumes rel: "spsc_rel complete p0 k seen unseen s" and j: "rd_r s \<le> j" "j < length (hist_r s)"
  defines "d \<equiv> length (concat (drop (rd_r s) (take j (received s))))"
  shows "hist_r s ! j = q_cached_r (sq s) + of_nat d"
    and "length (concat (drop (rd_r s) (received s))) = d + length (concat (drop j (received s)))"
    and "j \<le> length (received s)"
proof -
  show jle: "j \<le> length (received s)" using rel j(2) by (simp add: spsc_rel_def)
  show "length (concat (drop (rd_r s) (received s))) = d + length (concat (drop j (received s)))"
    using drop_take_split [OF j(1), of "received s"] by (simp add: d_def)
  have "q_cached_r (sq s) + of_nat (length (concat (drop (rd_r s) (received s)))) =
      pos_after p0 (take (rd_r s) (received s)) +
      of_nat (length (concat (drop (rd_r s) (received s))))"
    using rel unfolding spsc_rel_def q_inv_def by (metis append_take_drop_id pos_after_append)
  then have "q_cached_r (sq s) = pos_after p0 (take (rd_r s) (received s))" by simp
  moreover have "hist_r s ! j = pos_after p0 (take j (received s))"
    using rel nth_history [OF jle] by (simp add: spsc_rel_def)
  ultimately show "hist_r s ! j = q_cached_r (sq s) + of_nat d"
    using pos_after_take_drop [OF j(1), of p0 "received s"] by (simp add: d_def)
qed

lemma w_reserve_inv:
  assumes rel: "spsc_rel complete p0 k seen unseen s" and idle: "wr s = W_Idle"
    and m: "is_frame complete m" and j: "rd_r s \<le> j" "j < length (hist_r s)"
    and res: "reserve_write_obs (hist_r s ! j) (of_nat (length m)) (sq s) = (res, q')"
  shows "spsc_rel complete p0 k seen unseen (s\<lparr>sq := q',
       rd_r := (if q_cached_r (sq s) + q_capacity (sq s) - q_w (sq s) < of_nat (length m)
                then j else rd_r s),
       wr := (case wr_buffer res of
                None \<Rightarrow> W_Idle
              | Some off \<Rightarrow> W_Copy m off (wr_new_write_pos res) 0)\<rparr>)"
proof -
  note lag = spsc_rel_lag [OF rel j]
  have q: "q_inv k (length (concat (drop (rd_r s) (received s)))) seen unseen (sq s)"
    using rel by (simp add: spsc_rel_def)
  have n: "unat (of_nat (length m) :: u64) = length m"
    using m by (simp add: is_frame_def unat64_of_nat)
  note frame = reserve_write_obs_frame [OF res]
  have reader: "reader_ok k seen q' (rd s)"
    using rel frame reader_ok_cong [of q' "sq s"] by (simp add: spsc_rel_def)
  note facts = rel [unfolded spsc_rel_def] lag(3) frame j(1) reader
  let ?d = "length (concat (drop (rd_r s) (take j (received s))))"
  have le: "?d \<le> length (concat (drop (rd_r s) (received s)))"
    and eq: "length (concat (drop (rd_r s) (received s))) - ?d = length (concat (drop j (received s)))"
    using lag(2) by simp_all
  from q le lag(1) res show ?thesis
  proof (cases rule: reserve_write_obs_inv)
    case full
    then show ?thesis
      using full(2) [unfolded eq] facts by (simp add: spsc_rel_def writer_ok_def)
  next
    case (room lag' off)
    have "unat off \<le> length (q_buffer (sq s))"
      using q_inv_region_bound [OF room(3,5)] room(6,7,8) by simp
    then have "mem_read (unat off) 0 (q_buffer (sq s)) = Some []" by (simp add: mem_read_def)
    then show ?thesis
      using room(4) [unfolded eq] facts room m n
      by (simp add: spsc_rel_def writer_ok_def add.assoc split: if_splits)
  qed
qed


lemma w_copy_region:
  assumes rel: "spsc_rel complete p0 k seen unseen s" and w: "wr s = W_Copy m off pos i"
  shows "unat off + length m \<le> length (q_buffer (sq s))"
proof -
  have q: "q_inv k (length (concat (drop (rd_r s) (received s)))) seen unseen (sq s)"
    and "length (concat (drop (rd_r s) (received s))) + length (concat (seen @ unseen)) + length m \<le> 2 ^ k"
    and "unat off = unat (q_w (sq s)) mod 2 ^ k"
    using rel w by (simp_all add: spsc_rel_def writer_ok_def)
  then show ?thesis using q_inv_region_bound [OF q] by simp
qed

lemma w_copy_inv:
  assumes rel: "spsc_rel complete p0 k seen unseen s" and w: "wr s = W_Copy m off pos i"
    and i: "i < length m" and buf: "mem_write (unat off + i) [m ! i] (q_buffer (sq s)) = Some buf"
  shows "spsc_rel complete p0 k seen unseen
    (s\<lparr>sq := (sq s)\<lparr>q_buffer := buf\<rparr>, wr := W_Copy m off pos (Suc i)\<rparr>)"
proof -
  let ?lag = "length (concat (drop (rd_r s) (received s)))"
  have q: "q_inv k ?lag seen unseen (sq s)"
    and room: "?lag + length (concat (seen @ unseen)) + length m \<le> 2 ^ k"
    and off: "unat off = unat (q_w (sq s)) mod 2 ^ k"
    and read: "mem_read (unat off) i (q_buffer (sq s)) = Some (take i m)"
    using rel w by (simp_all add: spsc_rel_def writer_ok_def)
  have "q_inv k ?lag seen unseen ((sq s)\<lparr>q_buffer := buf\<rparr>)"
    using q_inv_write_part [OF q room _ _ buf] i off by simp
  moreover have "mem_read (unat off) (Suc i) buf = Some (take (Suc i) m)"
  proof -
    have "mem_read (unat off) i buf = Some (take i m)"
      using mem_read_write_disjoint [OF buf, of "unat off" i] read by simp
    moreover have "mem_read (unat off + i) 1 buf = Some [m ! i]"
      using mem_read_write_same [OF buf] by simp
    ultimately show ?thesis
      using mem_read_join [of "unat off" i buf _ 1] i by (simp add: take_Suc_conv_app_nth)
  qed
  moreover have "reader_ok k seen ((sq s)\<lparr>q_buffer := buf\<rparr>) (rd s)"
    using rel reader_ok_cong [of "(sq s)\<lparr>q_buffer := buf\<rparr>" "sq s"] by (simp add: spsc_rel_def)
  ultimately show ?thesis
    using rel w i by (simp add: spsc_rel_def writer_ok_def)
qed

lemma spsc_rel_w:
  assumes "spsc_rel complete p0 k seen unseen s"
  shows "q_w (sq s) = pos_after p0 (sent s)"
    and "q_cached_w (sq s) = pos_after p0 (received s @ seen)"
proof -
  have q: "q_inv k (length (concat (drop (rd_r s) (received s)))) seen unseen (sq s)"
    and r: "q_r (sq s) = pos_after p0 (received s)" and sent: "sent s = received s @ seen @ unseen"
    using assms by (simp_all add: spsc_rel_def)
  show "q_w (sq s) = pos_after p0 (sent s)"
    using q_inv_w_word(1) [OF q] r by (simp add: sent add.assoc)
  have "q_r (sq s) + of_nat (length (concat seen)) = q_cached_w (sq s)"
    using q by (simp add: q_inv_def)
  then show "q_cached_w (sq s) = pos_after p0 (received s @ seen)" by (simp add: r)
qed

lemma w_commit_inv:
  assumes rel: "spsc_rel complete p0 k seen unseen s" and w: "wr s = W_Copy m off pos (length m)"
  shows "spsc_rel complete p0 k seen (unseen @ [m]) (s\<lparr>sq := commit_write pos (sq s),
    hist_w := hist_w s @ [pos], sent := sent s @ [m], wr := W_Idle\<rparr>)"
proof -
  let ?lag = "length (concat (drop (rd_r s) (received s)))"
  have q: "q_inv k ?lag seen unseen (sq s)"
    and room: "?lag + length (concat (seen @ unseen)) + length m \<le> 2 ^ k"
    and pos: "pos = q_w (sq s) + of_nat (length m)"
    and frame: "is_frame complete m"
    and laid: "laid_out (2 ^ k) (q_buffer (sq s)) (unat (q_w (sq s))) [m]"
    using rel w by (simp_all add: spsc_rel_def writer_ok_def)
  have "m \<noteq> []" using frame by (simp add: is_frame_def)
  from commit_write_inv [OF q this room laid]
  have "q_inv k ?lag seen (unseen @ [m]) (commit_write pos (sq s))" by (simp add: pos)
  moreover have "hist_w s @ [pos] = history p0 (sent s @ [m])"
  proof -
    have "hist_w s = history p0 (sent s)" using rel by (simp add: spsc_rel_def)
    then show ?thesis by (simp only: history_snoc pos spsc_rel_w(1) [OF rel])
  qed
  moreover have "reader_ok k seen (commit_write pos (sq s)) (rd s)"
    using rel reader_ok_cong [of "commit_write pos (sq s)" "sq s"]
    by (simp add: spsc_rel_def commit_write_def)
  ultimately show ?thesis
    using rel frame by (auto simp: spsc_rel_def writer_ok_def commit_write_def)
qed

lemma r_reserve_inv:
  assumes rel: "spsc_rel complete p0 k seen unseen s" and idle: "rd s = R_Idle"
    and j: "rd_w s \<le> j" "j < length (hist_w s)"
    and res: "reserve_read_obs (hist_w s ! j) (sq s) = (res, q')"
  shows "spsc_inv complete p0 k (s\<lparr>sq := q',
       rd_w := (if q_cached_w (sq s) \<le> q_r (sq s) then j else rd_w s),
       rd := (case rr_buffer res of
                None \<Rightarrow> R_Idle
              | Some off \<Rightarrow> R_Copy off (rr_current_read_pos res) [])\<rparr>)"
proof -
  let ?us = "take (j - rd_w s) unseen" and ?vs = "drop (j - rd_w s) unseen"
  let ?lag = "length (concat (drop (rd_r s) (received s)))"
  have q: "q_inv k ?lag seen (?us @ ?vs) (sq s)"
    using rel by (simp add: spsc_rel_def)
  have rdw: "rd_w s = length (received s) + length seen" and jle: "j \<le> length (sent s)"
    and sent: "sent s = received s @ seen @ unseen"
    using rel j(2) by (simp_all add: spsc_rel_def)
  have take_j: "take j (sent s) = received s @ seen @ ?us"
    using j(1) rdw sent by simp
  have "hist_w s ! j = pos_after p0 (take j (sent s))"
    using rel nth_history [OF jle] by (simp add: spsc_rel_def)
  then have loaded: "hist_w s ! j = q_cached_w (sq s) + of_nat (length (concat ?us))"
    using spsc_rel_w(2) [OF rel] take_j by (simp add: add.assoc)
  have len_us: "length ?us = j - rd_w s"
    using jle rdw sent j(1) by simp
  note frame = reserve_read_obs_frame [OF res]
  have writer: "writer_ok complete k u q' (wr s) = writer_ok complete k u (sq s) (wr s)" for u
    using frame by (intro writer_ok_cong) simp_all
  from q loaded res show ?thesis
  proof (cases rule: reserve_read_obs_inv)
    case empty
    then have "?vs = unseen" "j = rd_w s" using len_us j(1) by auto
    then have "spsc_rel complete p0 k [] unseen (s\<lparr>sq := q', rd_w := j, rd := R_Idle\<rparr>)"
      using empty rel frame writer by (simp add: spsc_rel_def reader_ok_def)
    then show ?thesis using empty by (auto simp: spsc_inv_def)
  next
    case (front off m seen' unseen')
    have len: "length (m # seen') =
        (if q_cached_w (sq s) \<le> q_r (sq s) then length seen + length ?us else length seen)"
      using front(9) by (simp split: if_splits)
    have "spsc_rel complete p0 k (m # seen') unseen' (s\<lparr>sq := q',
        rd_w := (if q_cached_w (sq s) \<le> q_r (sq s) then j else rd_w s),
        rd := R_Copy off (rr_current_read_pos res) []\<rparr>)"
      using front(2,3,4,8) len len_us rel frame writer j(1) rdw
      unfolding spsc_rel_def reader_ok_def
      by (auto simp: sent)
    then show ?thesis unfolding front(1) option.case spsc_inv_def by blast
  qed
qed


lemma spsc_rel_reader:
  assumes "spsc_rel complete p0 k seen unseen s" and "rd s = R_Copy off pos bs"
  obtains m seen' where "seen = m # seen'" "take (length bs) m = bs"
    "unat (q_r (sq s)) mod 2 ^ k = unat off" "pos = q_r (sq s)"
proof -
  have "reader_ok k seen (sq s) (R_Copy off pos bs)"
    using assms by (simp add: spsc_rel_def)
  then show ?thesis using that unfolding reader_ok_def reader.case by blast
qed

lemma frame_prefix_complete:
  assumes "is_frame complete m" and "take (length bs) m = bs"
  shows "complete bs \<longleftrightarrow> bs = m"
proof -
  have le: "length bs \<le> length m" using assms(2) by (metis length_take min.cobounded1)
  show ?thesis
  proof (cases "length bs = length m")
    case True
    then show ?thesis using assms by (auto simp: is_frame_def)
  next
    case False
    then have "\<not> complete bs" using assms le by (metis is_frame_def le_neq_implies_less)
    with False show ?thesis by auto
  qed
qed

lemma r_copy_inv:
  assumes rel: "spsc_rel complete p0 k seen unseen s" and r: "rd s = R_Copy off pos bs"
    and more: "\<not> complete bs"
    and b: "mem_read (unat off + length bs) 1 (q_buffer (sq s)) = Some [b]"
  shows "spsc_rel complete p0 k seen unseen (s\<lparr>rd := R_Copy off pos (bs @ [b])\<rparr>)"
proof -
  obtain m seen' where m: "seen = m # seen'" "take (length bs) m = bs"
    and off: "unat off = unat (q_r (sq s)) mod 2 ^ k" and pos: "pos = q_r (sq s)"
    using rel r by (auto simp: spsc_rel_def reader_ok_def)
  have frame: "is_frame complete m" using rel m(1) by (simp add: spsc_rel_def)
  have "bs \<noteq> m" using more frame_prefix_complete [OF frame m(2)] by simp
  then have lt: "length bs < length m"
    using m(2) by (metis le_neq_implies_less length_take min.cobounded1 min_def take_all_iff)
  have q: "q_inv k (length (concat (drop (rd_r s) (received s)))) seen unseen (sq s)"
    using rel by (simp add: spsc_rel_def)
  have "mem_read (unat off) (length m) (q_buffer (sq s)) = Some m"
    using q_inv_front [OF q, of m "seen' @ unseen"] m(1) off by (simp add: q_inv_offset [OF q])
  from mem_read_nth [OF this lt] have "b = m ! length bs" using b by simp
  then have "take (length (bs @ [b])) m = bs @ [b]"
    using m(2) lt by (metis length_append_singleton take_Suc_conv_app_nth)
  then show ?thesis
    using rel r m(1) lt off pos by (simp add: spsc_rel_def reader_ok_def)
qed

lemma r_commit_inv:
  assumes rel: "spsc_rel complete p0 k seen unseen s" and r: "rd s = R_Copy off pos bs"
    and fin: "complete bs"
  shows "spsc_rel complete p0 k (tl seen) unseen (s\<lparr>sq := commit_read (pos + of_nat (length bs)) (sq s),
       hist_r := hist_r s @ [pos + of_nat (length bs)],
       received := received s @ [bs], rd := R_Idle\<rparr>)"
proof -
  obtain m seen' where m: "seen = m # seen'" "take (length bs) m = bs" and pos: "pos = q_r (sq s)"
    using rel r by (auto simp: spsc_rel_def reader_ok_def)
  have "is_frame complete m" using rel m(1) by (simp add: spsc_rel_def)
  from frame_prefix_complete [OF this m(2)] fin have bs: "bs = m" by simp
  let ?lag = "length (concat (drop (rd_r s) (received s)))"
  let ?q = "commit_read (pos + of_nat (length bs)) (sq s)"
  have "q_inv k ?lag (m # seen') unseen (sq s)" and le: "rd_r s \<le> length (received s)"
    using rel m(1) by (simp_all add: spsc_rel_def)
  from commit_read_inv [OF this(1)]
  have q: "q_inv k (length (concat (drop (rd_r s) (received s @ [m])))) seen' unseen ?q"
    using le by (simp add: bs pos)
  have writer: "writer_ok complete k u ?q (wr s) = writer_ok complete k u (sq s) (wr s)" for u
    by (rule writer_ok_cong) (simp_all add: commit_read_def)
  have hist: "hist_r s @ [pos + of_nat (length bs)] = history p0 (received s @ [m])"
    and r': "q_r ?q = pos_after p0 (received s @ [m])"
    using rel by (simp_all add: spsc_rel_def history_snoc pos bs commit_read_def)
  show ?thesis
    unfolding spsc_rel_def using rel q writer hist r' m(1) bs le
    by (simp add: spsc_rel_def reader_ok_def add.assoc)
qed

lemma spsc_step_inv: "spsc_step complete s t \<Longrightarrow> spsc_inv complete p0 k s \<Longrightarrow> spsc_inv complete p0 k t"
proof (induction rule: spsc_step.induct)
  case (w_reserve s m j res q')
  then show ?case unfolding spsc_inv_def using w_reserve_inv by blast
next
  case (w_copy s m off pos i buf)
  then show ?case unfolding spsc_inv_def using w_copy_inv by blast
next
  case (w_commit s m off pos)
  then show ?case unfolding spsc_inv_def using w_commit_inv by blast
next
  case (r_reserve s j rres q')
  then show ?case using r_reserve_inv unfolding spsc_inv_def by blast
next
  case (r_copy s off pos bs b)
  then show ?case unfolding spsc_inv_def using r_copy_inv by blast
next
  case (r_commit s off pos bs)
  then show ?case unfolding spsc_inv_def using r_commit_inv by blast
qed

lemma init_spsc_inv:
  assumes "q_inv k 0 [] [] q"
  shows "spsc_inv complete (q_r q) k (init_spsc q)"
proof -
  have "spsc_rel complete (q_r q) k [] [] (init_spsc q)"
    using assms by (simp add: spsc_rel_def init_spsc_def history_def pos_after_def writer_ok_def
        reader_ok_def q_inv_def)
  then show ?thesis unfolding spsc_inv_def by blast
qed

lemma spsc_reachable_inv:
  assumes "spsc_reachable complete q s" and "q_inv k 0 [] [] q"
  shows "spsc_inv complete (q_r q) k s"
  using assms
proof (induction rule: spsc_reachable.induct)
  case start
  then show ?case by (rule init_spsc_inv)
next
  case (step s t)
  then show ?case using spsc_step_inv by blast
qed


section \<open>Progress\<close>

lemma w_copy_progress:
  assumes "spsc_inv complete p0 k s" and "wr s = W_Copy m off pos i"
  shows "\<exists>t. spsc_step complete s t \<and> rd t = rd s \<and>
    wr t = (if i < length m then W_Copy m off pos (Suc i) else W_Idle)"
proof -
  obtain seen unseen where rel: "spsc_rel complete p0 k seen unseen s"
    using assms(1) by (auto simp: spsc_inv_def)
  have i: "i \<le> length m" using rel assms(2) by (simp add: spsc_rel_def writer_ok_def)
  show ?thesis
  proof (cases "i < length m")
    case True
    then have "unat off + i + length [m ! i] \<le> length (q_buffer (sq s))"
      using w_copy_region [OF rel assms(2)] by simp
    note step = spsc_step.w_copy [where complete = complete, OF assms(2) True mem_write_ok [OF this]]
    show ?thesis by (rule exI, rule conjI, rule step) (simp add: True)
  next
    case False
    then have "wr s = W_Copy m off pos (length m)" using assms(2) i by simp
    note step = spsc_step.w_commit [where complete = complete, OF this]
    show ?thesis by (rule exI, rule conjI, rule step) (simp add: False)
  qed
qed

lemma reader_finishes:
  assumes "spsc_inv complete p0 k s" and "rd s = R_Copy off pos bs"
  shows "\<exists>t. (spsc_step complete)\<^sup>*\<^sup>* s t \<and> rd t = R_Idle \<and> sent t = sent s \<and> wr t = wr s \<and>
    length (received t) = Suc (length (received s))"
  using assms
proof (induction "length (sent s ! length (received s)) - length bs" arbitrary: s bs
    rule: less_induct)
  case (less s bs)
  obtain seen unseen where rel: "spsc_rel complete p0 k seen unseen s"
    using less.prems(1) by (auto simp: spsc_inv_def)
  obtain m seen' where m: "seen = m # seen'" "take (length bs) m = bs"
    and off: "unat off = unat (q_r (sq s)) mod 2 ^ k"
    using rel less.prems(2) by (auto simp: spsc_rel_def reader_ok_def)
  have frame: "is_frame complete m" using rel m(1) by (simp add: spsc_rel_def)
  have cur: "sent s ! length (received s) = m" using rel m(1) by (simp add: spsc_rel_def)
  show ?case
  proof (cases "complete bs")
    case True
    note step = spsc_step.r_commit [where complete = complete, OF less.prems(2) True]
    show ?thesis by (rule exI, rule conjI, rule r_into_rtranclp, rule step) simp
  next
    case False
    then have "bs \<noteq> m" using frame_prefix_complete [OF frame m(2)] by simp
    then have lt: "length bs < length m"
      using m(2) by (metis length_take min_def not_le take_all_iff)
    have q: "q_inv k (length (concat (drop (rd_r s) (received s)))) seen unseen (sq s)"
      using rel by (simp add: spsc_rel_def)
    have "mem_read (unat off) (length m) (q_buffer (sq s)) = Some m"
      using q_inv_front [OF q, of m "seen' @ unseen"] m(1) off by (simp add: q_inv_offset [OF q])
    from spsc_step.r_copy [where complete = complete, OF less.prems(2) False mem_read_nth [OF this lt]]
    have step: "spsc_step complete s (s\<lparr>rd := R_Copy off pos (bs @ [m ! length bs])\<rparr>)"
      (is "spsc_step complete s ?s") .
    have "\<exists>t. (spsc_step complete)\<^sup>*\<^sup>* ?s t \<and> rd t = R_Idle \<and> sent t = sent ?s \<and> wr t = wr ?s \<and>
        length (received t) = Suc (length (received ?s))"
      using less.hyps [of ?s "bs @ [m ! length bs]"] cur lt
        spsc_step_inv [OF step less.prems(1)] by simp
    then show ?thesis using step by (auto intro: converse_rtranclp_into_rtranclp)
  qed
qed

lemma reader_starts:
  assumes inv: "spsc_inv complete p0 k s" and idle: "rd s = R_Idle"
    and more: "length (received s) < length (sent s)"
  shows "\<exists>t off pos. spsc_step complete s t \<and> rd t = R_Copy off pos [] \<and> sent t = sent s \<and>
    wr t = wr s \<and> received t = received s"
proof -
  obtain seen unseen where rel: "spsc_rel complete p0 k seen unseen s"
    using inv by (auto simp: spsc_inv_def)
  obtain res q' where res: "reserve_read_obs (hist_w s ! length (sent s)) (sq s) = (res, q')"
    by fastforce
  have j: "rd_w s \<le> length (sent s)" "length (sent s) < length (hist_w s)"
    using rel by (simp_all add: spsc_rel_def)
  have q: "q_inv k (length (concat (drop (rd_r s) (received s)))) seen (unseen @ []) (sq s)"
    using rel by (simp add: spsc_rel_def)
  have "hist_w s ! length (sent s) = q_cached_w (sq s) + of_nat (length (concat unseen))"
    using rel spsc_rel_w(2) [OF rel] nth_history [of "length (sent s)" "sent s" p0]
    by (simp add: spsc_rel_def add.assoc)
  from q this res obtain off where off: "rr_buffer res = Some off"
    by (cases rule: reserve_read_obs_inv) (use rel more in \<open>auto simp: spsc_rel_def\<close>)
  note step = spsc_step.r_reserve [where complete = complete, OF idle j res]
  show ?thesis
    by (rule exI, rule exI [of _ off], rule exI [of _ "rr_current_read_pos res"], rule conjI,
        rule step) (simp add: off)
qed

lemma reader_drains:
  assumes "spsc_inv complete p0 k s"
  shows "\<exists>t. (spsc_step complete)\<^sup>*\<^sup>* s t \<and> rd t = R_Idle \<and> sent t = sent s \<and> wr t = wr s \<and>
    received t = sent s"
  using assms
proof (induction "length (sent s) - length (received s)" arbitrary: s rule: less_induct)
  case (less s)
  have star_inv: "spsc_inv complete p0 k t" if "(spsc_step complete)\<^sup>*\<^sup>* s t" for t
    using that by (induction rule: rtranclp_induct) (use less.prems spsc_step_inv in blast)+
  have prefix: "\<exists>ms. sent t = received t @ ms" if "spsc_inv complete p0 k t" for t
    using that by (auto simp: spsc_inv_def spsc_rel_def)
  obtain ms where ms: "sent s = received s @ ms" using prefix less.prems by blast
  have again: ?case if run: "(spsc_step complete)\<^sup>*\<^sup>* s t" and same: "sent t = sent s" "wr t = wr s"
      and one: "length (received t) = Suc (length (received s))" for t
  proof -
    obtain ns where "sent t = received t @ ns" using prefix star_inv [OF run] by blast
    then have "length (received t) \<le> length (sent t)" by simp
    then have "length (sent t) - length (received t) < length (sent s) - length (received s)"
      using same one by simp
    from less.hyps [OF this star_inv [OF run]] run same show ?thesis
      by (auto intro: rtranclp_trans)
  qed
  show ?case
  proof (cases "rd s")
    case (R_Copy off pos bs)
    then show ?thesis using reader_finishes [OF less.prems] again by blast
  next
    case R_Idle
    show ?thesis
    proof (cases "ms = []")
      case True
      then show ?thesis using R_Idle ms by auto
    next
      case False
      then obtain t off pos where t: "spsc_step complete s t" "rd t = R_Copy off pos []"
        "sent t = sent s" "wr t = wr s" "received t = received s"
        using reader_starts [OF less.prems R_Idle] ms by auto
      obtain u where "(spsc_step complete)\<^sup>*\<^sup>* t u" "sent u = sent t" "wr u = wr t"
        "length (received u) = Suc (length (received t))"
        using reader_finishes [OF spsc_step_inv [OF t(1) less.prems] t(2)] by blast
      then show ?thesis using t by (intro again [of u]) (auto intro: converse_rtranclp_into_rtranclp)
    qed
  qed
qed


section \<open>A run of the two threads\<close>

text \<open>
  Used by the witnesses: a queue of capacity 4, frames of one byte. The writer has published
  one message and is about to copy a second one; the reader is about to copy the first.
\<close>

definition demo_queue :: queue where
  "demo_queue = \<lparr>q_capacity = 4, q_wrap_mask = 3, q_buffer = replicate 8 0,
     q_atomic_r = 0, q_atomic_w = 0, q_w = 0, q_cached_r = 0, q_r = 0, q_cached_w = 0\<rparr>"

lemma demo_queue: "new_queue 4 = Some demo_queue"
  by (simp add: new_queue_def bit_ceil_def upt_rec demo_queue_def)

lemma demo_frame: "is_frame (\<lambda>bs. bs \<noteq> []) [b]"
  by (simp add: is_frame_def)

lemma demo_run:
  "\<exists>s. spsc_reachable (\<lambda>bs. bs \<noteq> []) demo_queue s \<and> wr s = W_Copy [9] 1 2 0 \<and>
     rd s = R_Copy 0 0 [] \<and> sent s = [[7]] \<and> received s = []"
proof -
  let ?c = "\<lambda>bs. bs \<noteq> []"
  let ?s0 = "init_spsc demo_queue"
  let ?s1 = "?s0\<lparr>wr := W_Copy [7] 0 1 0\<rparr>"
  let ?s2 = "?s1\<lparr>sq := demo_queue\<lparr>q_buffer := [7, 0, 0, 0, 0, 0, 0, 0]\<rparr>, wr := W_Copy [7] 0 1 1\<rparr>"
  let ?s3 = "?s2\<lparr>sq := commit_write 1 (sq ?s2), hist_w := [0, 1], sent := [[7]], wr := W_Idle\<rparr>"
  let ?s4 = "?s3\<lparr>sq := (sq ?s3)\<lparr>q_cached_w := 1\<rparr>, rd_w := 1, rd := R_Copy 0 0 []\<rparr>"
  let ?s5 = "?s4\<lparr>wr := W_Copy [9] 1 2 0\<rparr>"
  note defs = init_spsc_def demo_queue_def reserve_write_obs_def reserve_read_obs_def
    is_empty_obs_def commit_write_def mem_write_def
  have 1: "spsc_step ?c ?s0 ?s1"
    using spsc_step.w_reserve [of ?s0 ?c "[7]" 0] demo_frame [of 7] by (simp add: defs)
  have 2: "spsc_step ?c ?s1 ?s2"
    using spsc_step.w_copy [where complete = ?c and s = ?s1] by (simp add: defs eval_nat_numeral)
  have 3: "spsc_step ?c ?s2 ?s3"
    using spsc_step.w_commit [where complete = ?c and s = ?s2] by (simp add: defs)
  have 4: "spsc_step ?c ?s3 ?s4"
    using spsc_step.r_reserve [where complete = ?c and s = ?s3 and j = 1] by (simp add: defs)
  have 5: "spsc_step ?c ?s4 ?s5"
    using spsc_step.w_reserve [of ?s4 ?c "[9]" 0] demo_frame [of 9] by (simp add: defs)
  have r: "spsc_reachable ?c demo_queue ?s5"
    by (rule spsc_reachable.step [OF _ 5], rule spsc_reachable.step [OF _ 4],
        rule spsc_reachable.step [OF _ 3], rule spsc_reachable.step [OF _ 2],
        rule spsc_reachable.step [OF _ 1], rule spsc_reachable.start)
  show ?thesis by (rule exI, rule conjI, rule r) (simp add: init_spsc_def)
qed

section \<open>Properties\<close>

lemma spsc_queue_inv:
  assumes "spsc_reachable complete q s" and "new_queue n = Some q" and "unat n \<le> 2 ^ 62"
  obtains p0 k where "spsc_inv complete p0 k s"
  using spsc_reachable_inv [OF assms(1)] new_queue_inv [OF assms(3)] assms(2)
  by (metis option.inject)

lemma spsc_queue_rel:
  assumes "spsc_reachable complete q s" and "new_queue n = Some q" and "unat n \<le> 2 ^ 62"
  obtains p0 k seen unseen where "spsc_rel complete p0 k seen unseen s"
proof -
  obtain p0 k where "spsc_inv complete p0 k s" by (rule spsc_queue_inv [OF assms])
  then show ?thesis using that unfolding spsc_inv_def by blast
qed

text \<open>C1. Under every interleaving of the two threads, and with every stale value the
  release/acquire loads may return, the reader receives the committed messages unchanged and in
  order; what it has copied of the next message is a prefix of that message.\<close>

theorem spsc_delivers:
  assumes "new_queue n = Some q" and "unat n \<le> 2 ^ 62" and "spsc_reachable complete q s"
  shows "take (length (received s)) (sent s) = received s \<and>
    (\<forall>off pos bs. rd s = R_Copy off pos bs \<longrightarrow>
      length (received s) < length (sent s) \<and>
      take (length bs) (sent s ! length (received s)) = bs)"
proof -
  obtain p0 k seen unseen where rel: "spsc_rel complete p0 k seen unseen s"
    by (rule spsc_queue_rel [OF assms(3,1,2)])
  then have sent: "sent s = received s @ seen @ unseen" by (simp add: spsc_rel_def)
  have "length (received s) < length (sent s) \<and> take (length bs) (sent s ! length (received s)) = bs"
    if copying: "rd s = R_Copy off pos bs" for off pos bs
  proof -
    obtain m seen' where "seen = m # seen'" "take (length bs) m = bs"
      by (rule spsc_rel_reader [OF rel copying])
    then show ?thesis by (simp add: sent)
  qed
  then show ?thesis using sent by simp
qed

theorem spsc_delivers_witness:
  "\<exists>s. spsc_reachable (\<lambda>bs. bs \<noteq> []) demo_queue s \<and> rd s = R_Copy 0 0 [] \<and>
     take (length (received s)) (sent s) = received s \<and> length (received s) < length (sent s)"
proof -
  obtain s where s: "spsc_reachable (\<lambda>bs. bs \<noteq> []) demo_queue s" "rd s = R_Copy 0 0 []"
    using demo_run by blast
  have "unat (4 :: u64) \<le> 2 ^ 62" by simp
  from spsc_delivers [OF demo_queue this s(1)] s show ?thesis by blast
qed







end
