(* ===== verification/Codec.thy ===== *)
theory Codec
  imports Papper_Prelude
begin

text \<open>
  \<open>include/papper/detail/codec.h\<close>. \<open>Codec<T>\<close> is selected by the static type: a trivially
  copyable type is copied as its object representation, a \<open>basic_string\<close> as its length followed
  by its code units. A C++ type is a \<open>ctype\<close> (its name and size); a value carries its object
  representation, so every trivially copyable type is covered at once. A cursor is the memory
  together with the pointer the code passes by reference.
\<close>

section \<open>The codec\<close>

text \<open>\<open>C_Triv name sizeof(T)\<close> and \<open>C_String name sizeof(CharT)\<close>.\<close>

datatype ctype = C_Triv string nat | C_String string nat

text \<open>The bytes of a trivially copyable value, or the code units of a string.\<close>

datatype cval = V_Triv "byte list" | V_String "byte list list"

type_synonym cursor = "memory \<times> nat"

fun has_ctype :: "ctype \<Rightarrow> cval \<Rightarrow> bool" where
  "has_ctype (C_Triv name n) (V_Triv bs) \<longleftrightarrow> length bs = n"
| "has_ctype (C_String name c) (V_String us) \<longleftrightarrow> 0 < c \<and> (\<forall>u \<in> set us. length u = c)"
| "has_ctype t v \<longleftrightarrow> False"

fun encoded_size :: "ctype \<Rightarrow> cval \<Rightarrow> u64" where
  "encoded_size (C_Triv name n) v = of_nat n"
| "encoded_size (C_String name c) (V_String us) = 8 + of_nat (length us) * of_nat c"
| "encoded_size (C_String name c) (V_Triv bs) = 0"

fun encode :: "ctype \<Rightarrow> cval \<Rightarrow> cursor \<Rightarrow> cursor option" where
  "encode (C_Triv name n) (V_Triv bs) (m, p) =
     map_option (\<lambda>m'. (m', p + n)) (mem_write p (take n bs) m)"
| "encode (C_String name c) (V_String us) (m, p) =
     (let len = of_nat (length us) :: u64; byte_size = len * of_nat c in
      case mem_write p (u64_bytes len) m of
        None \<Rightarrow> None
      | Some m1 \<Rightarrow> map_option (\<lambda>m2. (m2, p + 8 + unat byte_size))
          (mem_write (p + 8) (take (unat byte_size) (concat us)) m1))"
| "encode t v cur = None"

text \<open>The code units of \<open>n\<close> consecutive \<open>c\<close>-byte characters.\<close>

fun chunks :: "nat \<Rightarrow> nat \<Rightarrow> byte list \<Rightarrow> byte list list" where
  "chunks c 0 bs = []"
| "chunks c (Suc n) bs = take c bs # chunks c n (drop c bs)"

text \<open>\<open>value.resize(length)\<close> throws when the string's bytes cannot be counted in a \<open>size_t\<close>.\<close>

fun decode :: "ctype \<Rightarrow> memory \<Rightarrow> nat \<Rightarrow> (cval \<times> nat) option" where
  "decode (C_Triv name n) m p = map_option (\<lambda>bs. (V_Triv bs, p + n)) (mem_read p n m)"
| "decode (C_String name c) m p =
     (case mem_read p 8 m of
        None \<Rightarrow> None
      | Some lb \<Rightarrow>
          (let len = u64_of_bytes lb; byte_size = len * of_nat c in
           if 2 ^ 64 \<le> unat len * c then None
           else map_option (\<lambda>bs. (V_String (chunks c (unat len) bs), p + 8 + unat byte_size))
             (mem_read (p + 8) (unat byte_size) m)))"

section \<open>Parameter packs\<close>

text \<open>The fold expressions of \<open>core.h\<close> over an argument pack, for any element codec.\<close>

fun encode_all :: "('t \<Rightarrow> 'v \<Rightarrow> cursor \<Rightarrow> cursor option) \<Rightarrow> ('t \<times> 'v) list \<Rightarrow> cursor \<Rightarrow> cursor option"
where
  "encode_all enc [] cur = Some cur"
| "encode_all enc ((t, v) # tvs) cur =
     (case enc t v cur of None \<Rightarrow> None | Some cur' \<Rightarrow> encode_all enc tvs cur')"

fun decode_all ::
  "('t \<Rightarrow> memory \<Rightarrow> nat \<Rightarrow> ('v \<times> nat) option) \<Rightarrow> 't list \<Rightarrow> memory \<Rightarrow> nat \<Rightarrow> ('v list \<times> nat) option"
where
  "decode_all dec [] m p = Some ([], p)"
| "decode_all dec (t # ts) m p =
     (case dec t m p of
        None \<Rightarrow> None
      | Some (v, p') \<Rightarrow> map_option (\<lambda>(vs, p''). (v # vs, p'')) (decode_all dec ts m p'))"

fun size_all :: "('t \<Rightarrow> 'v \<Rightarrow> u64) \<Rightarrow> ('t \<times> 'v) list \<Rightarrow> u64" where
  "size_all size_of [] = 0"
| "size_all size_of ((t, v) # tvs) = size_of t v + size_all size_of tvs"

section \<open>The contract of a codec\<close>

text \<open>
  \<open>repr\<close> is the byte string a value stands for. A codec writes exactly these bytes at the cursor,
  reads them back, advances the cursor by their number, and announces that number.
\<close>

locale byte_codec =
  fixes valid :: "'t \<Rightarrow> 'v \<Rightarrow> bool"
    and repr :: "'t \<Rightarrow> 'v \<Rightarrow> byte list"
    and size_of :: "'t \<Rightarrow> 'v \<Rightarrow> u64"
    and enc :: "'t \<Rightarrow> 'v \<Rightarrow> cursor \<Rightarrow> cursor option"
    and dec :: "'t \<Rightarrow> memory \<Rightarrow> nat \<Rightarrow> ('v \<times> nat) option"
  assumes size_law: "valid t v \<Longrightarrow> unat (size_of t v) = length (repr t v)"
    and enc_law: "valid t v \<Longrightarrow> enc t v (m, p) =
      map_option (\<lambda>m'. (m', p + length (repr t v))) (mem_write p (repr t v) m)"
    and dec_law: "valid t v \<Longrightarrow> mem_read p (length (repr t v)) m = Some (repr t v) \<Longrightarrow>
      dec t m p = Some (v, p + length (repr t v))"
begin

definition repr_all :: "('t \<times> 'v) list \<Rightarrow> byte list" where
  "repr_all tvs = concat (map (\<lambda>(t, v). repr t v) tvs)"

lemma repr_all_simps [simp]:
  "repr_all [] = []" "repr_all ((t, v) # tvs) = repr t v @ repr_all tvs"
  by (simp_all add: repr_all_def)

lemma encode_all_repr:
  assumes "\<forall>(t, v) \<in> set tvs. valid t v" and "p + length (repr_all tvs) \<le> length m"
  shows "encode_all enc tvs (m, p) =
    map_option (\<lambda>m'. (m', p + length (repr_all tvs))) (mem_write p (repr_all tvs) m)"
  using assms
proof (induction tvs arbitrary: m p)
  case (Cons tv tvs)
  obtain t v where tv: "tv = (t, v)" by fastforce
  have bound: "p + length (repr t v) \<le> length m" using Cons.prems(2) tv by simp
  obtain m1 where m1: "mem_write p (repr t v) m = Some m1" using mem_write_ok [OF bound] by blast
  have "length m1 = length m" using mem_write_length [OF m1] .
  then show ?case
    using Cons tv m1 by (simp add: enc_law mem_write_append [OF m1] add.assoc)
qed simp

lemma decode_all_repr:
  assumes "\<forall>(t, v) \<in> set tvs. valid t v"
    and "mem_read p (length (repr_all tvs)) m = Some (repr_all tvs)"
  shows "decode_all dec (map fst tvs) m p = Some (map snd tvs, p + length (repr_all tvs))"
  using assms
proof (induction tvs arbitrary: p)
  case (Cons tv tvs)
  obtain t v where tv: "tv = (t, v)" by fastforce
  have "mem_read p (length (repr t v) + length (repr_all tvs)) m = Some (repr t v @ repr_all tvs)"
    using Cons.prems(2) tv by simp
  note parts = mem_read_append [OF this]
  have "valid t v" using Cons.prems(1) tv by simp
  from dec_law [OF this parts(1)] Cons.IH [OF _ parts(2)] Cons.prems(1) tv
  show ?case by (simp add: add.assoc)
qed simp

lemma size_all_repr:
  assumes "\<forall>(t, v) \<in> set tvs. valid t v" and "length (repr_all tvs) < 2 ^ 64"
  shows "unat (size_all size_of tvs) = length (repr_all tvs)"
  using assms
proof (induction tvs)
  case (Cons tv tvs)
  obtain t v where tv: "tv = (t, v)" by fastforce
  have "unat (size_of t v) + unat (size_all size_of tvs) < 2 ^ 64"
    using Cons tv by (simp add: size_law)
  then have "unat (size_of t v + size_all size_of tvs) = unat (size_of t v) + unat (size_all size_of tvs)"
    by (simp add: unat_add_lem [THEN iffD1])
  then show ?case using Cons tv by (simp add: size_law)
qed simp

lemma roundtrip:
  assumes "\<forall>(t, v) \<in> set tvs. valid t v" and "p + length (repr_all tvs) \<le> length m"
  shows "\<exists>m'. encode_all enc tvs (m, p) = Some (m', p + length (repr_all tvs)) \<and>
    decode_all dec (map fst tvs) m' p = Some (map snd tvs, p + length (repr_all tvs)) \<and>
    length m' = length m \<and>
    (\<forall>a n. a + n \<le> p \<or> p + length (repr_all tvs) \<le> a \<longrightarrow> mem_read a n m' = mem_read a n m)"
proof -
  obtain m' where m': "mem_write p (repr_all tvs) m = Some m'" using mem_write_ok [OF assms(2)] by blast
  have "encode_all enc tvs (m, p) = Some (m', p + length (repr_all tvs))"
    using encode_all_repr [OF assms] m' by simp
  then show ?thesis
    using decode_all_repr [OF assms(1) mem_read_write_same [OF m']] mem_write_length [OF m']
      mem_read_write_disjoint [OF m'] by blast
qed

end

section \<open>The codecs implement the contract\<close>

fun cval_repr :: "ctype \<Rightarrow> cval \<Rightarrow> byte list" where
  "cval_repr t (V_Triv bs) = bs"
| "cval_repr t (V_String us) = u64_bytes (of_nat (length us)) @ concat us"

text \<open>A value of the type whose encoding can be counted in a \<open>size_t\<close>, as every object can.\<close>

definition cval_ok :: "ctype \<Rightarrow> cval \<Rightarrow> bool" where
  "cval_ok t v \<longleftrightarrow> has_ctype t v \<and> length (cval_repr t v) < 2 ^ 64"

lemma length_concat_units: "\<forall>u \<in> set us. length u = c \<Longrightarrow> length (concat us) = length us * c"
  by (induction us) auto

lemma chunks_concat: "\<forall>u \<in> set us. length u = c \<Longrightarrow> chunks c (length us) (concat us) = us"
  by (induction us) auto

lemma string_sizes:
  assumes "cval_ok (C_String name c) (V_String us)"
  shows "length (concat us) = length us * c" and "length us * c + 8 < 2 ^ 64"
    and "unat (of_nat (length us) :: u64) = length us"
    and "unat (of_nat (length us) * of_nat c :: u64) = length us * c"
    and "unat (8 + of_nat (length us) * of_nat c :: u64) = 8 + length us * c"
proof -
  show len: "length (concat us) = length us * c"
    using assms by (intro length_concat_units) (simp add: cval_ok_def)
  show small: "length us * c + 8 < 2 ^ 64" using assms len by (simp add: cval_ok_def)
  have c: "0 < c" using assms by (simp add: cval_ok_def)
  have small': "length us * c + 8 < 18446744073709551616" using small by simp
  have le: "length us \<le> length us * c" using c by simp
  show "unat (of_nat (length us) :: u64) = length us"
    by (rule unat64_of_nat) (rule le_less_trans [OF le add_lessD1 [OF small']])
  have "(of_nat (length us) * of_nat c :: u64) = of_nat (length us * c)" by simp
  then show "unat (of_nat (length us) * of_nat c :: u64) = length us * c"
    using small unat64_of_nat [of "length us * c"] by (simp only:) simp
  have "(8 + of_nat (length us) * of_nat c :: u64) = of_nat (8 + length us * c)" by simp
  then show "unat (8 + of_nat (length us) * of_nat c :: u64) = 8 + length us * c"
    using small unat64_of_nat [of "8 + length us * c"] by (simp only:) simp
qed

lemma encoded_size_repr:
  assumes "cval_ok t v"
  shows "unat (encoded_size t v) = length (cval_repr t v)"
proof (cases t)
  case (C_Triv name n)
  then show ?thesis using assms by (cases v) (auto simp: cval_ok_def unat64_of_nat)
next
  case (C_String name c)
  then obtain us where v: "v = V_String us" using assms by (cases v) (auto simp: cval_ok_def)
  then have "cval_ok (C_String name c) (V_String us)" using assms C_String by simp
  from string_sizes [OF this] show ?thesis by (simp add: C_String v)
qed

lemma encode_repr:
  assumes "cval_ok t v"
  shows "encode t v (m, p) =
    map_option (\<lambda>m'. (m', p + length (cval_repr t v))) (mem_write p (cval_repr t v) m)"
proof (cases t)
  case (C_Triv name n)
  then show ?thesis using assms by (cases v) (auto simp: cval_ok_def)
next
  case (C_String name c)
  then obtain us where v: "v = V_String us" using assms by (cases v) (auto simp: cval_ok_def)
  then have "cval_ok (C_String name c) (V_String us)" using assms C_String by simp
  note sizes = string_sizes [OF this]
  let ?len = "of_nat (length us) :: u64"
  show ?thesis
  proof (cases "mem_write p (u64_bytes ?len) m")
    case None
    then have "mem_write p (u64_bytes ?len @ concat us) m = None"
      by (auto simp: mem_write_def split: if_splits)
    then show ?thesis using None by (simp add: C_String v Let_def)
  next
    case (Some m1)
    have "mem_write (p + 8) (concat us) m1 = mem_write p (u64_bytes ?len @ concat us) m"
      using mem_write_append [OF Some, of "concat us"] by simp
    then show ?thesis using Some sizes by (simp add: C_String v Let_def add.assoc)
  qed
qed

lemma decode_repr:
  assumes "cval_ok t v" and "mem_read p (length (cval_repr t v)) m = Some (cval_repr t v)"
  shows "decode t m p = Some (v, p + length (cval_repr t v))"
proof (cases t)
  case (C_Triv name n)
  then show ?thesis using assms by (cases v) (auto simp: cval_ok_def)
next
  case (C_String name c)
  then obtain us where v: "v = V_String us" using assms by (cases v) (auto simp: cval_ok_def)
  then have ok: "cval_ok (C_String name c) (V_String us)" using assms C_String by simp
  note sizes = string_sizes [OF ok]
  have units: "chunks c (length us) (concat us) = us"
    using ok by (intro chunks_concat) (simp add: cval_ok_def)
  have "mem_read p (length (u64_bytes (of_nat (length us))) + length (concat us)) m =
      Some (u64_bytes (of_nat (length us)) @ concat us)"
    using assms(2) by (simp add: v)
  note parts = mem_read_append [OF this]
  show ?thesis
    using parts sizes units by (simp add: C_String v Let_def)
qed

interpretation args: byte_codec cval_ok cval_repr encoded_size encode decode
  by unfold_locales (simp_all add: encoded_size_repr encode_repr decode_repr)

section \<open>Properties\<close>

text \<open>C24. A sequence of arguments encoded at a pointer decodes, at the same pointer and with the
  same static types, to the same values; both calls advance the pointer by the sum of the
  encoded sizes and no other byte of the memory changes.\<close>

theorem encode_decode_args:
  assumes "\<forall>(t, v) \<in> set tvs. cval_ok t v"
    and "length (concat (map (\<lambda>(t, v). cval_repr t v) tvs)) < 2 ^ 64"
    and "p + unat (size_all encoded_size tvs) \<le> length m"
  shows "\<exists>m'. encode_all encode tvs (m, p) = Some (m', p + unat (size_all encoded_size tvs)) \<and>
    decode_all decode (map fst tvs) m' p =
      Some (map snd tvs, p + unat (size_all encoded_size tvs)) \<and>
    length m' = length m \<and>
    (\<forall>a n. a + n \<le> p \<or> p + unat (size_all encoded_size tvs) \<le> a \<longrightarrow>
      mem_read a n m' = mem_read a n m)"
proof -
  have "unat (size_all encoded_size tvs) = length (args.repr_all tvs)"
    using args.size_all_repr [OF assms(1)] assms(2) by (simp add: args.repr_all_def)
  then show ?thesis using args.roundtrip [OF assms(1), of p m] assms(3) by simp
qed

theorem encode_decode_args_witness:
  "\<exists>m'. encode_all encode
      [(C_Triv ''int'' 4, V_Triv [7, 0, 0, 0]), (C_String ''char'' 1, V_String [[104], [105]])]
      (replicate 20 0, 2) = Some (m', 16) \<and>
    decode_all decode [C_Triv ''int'' 4, C_String ''char'' 1] m' 2 =
      Some ([V_Triv [7, 0, 0, 0], V_String [[104], [105]]], 16)"
proof -
  let ?tvs = "[(C_Triv ''int'' 4, V_Triv [7, 0, 0, 0]), (C_String ''char'' 1, V_String [[104], [105]])]"
  have ok: "\<forall>(t, v) \<in> set ?tvs. cval_ok t v" by (simp add: cval_ok_def)
  have small: "length (concat (map (\<lambda>(t, v). cval_repr t v) ?tvs)) < 2 ^ 64" by simp
  have size: "unat (size_all encoded_size ?tvs) = 14" by simp
  have room: "2 + unat (size_all encoded_size ?tvs) \<le> length (replicate 20 (0 :: byte))"
    by (simp only: size) simp
  from encode_decode_args [OF ok small room] show ?thesis by (simp only: size) auto
qed

end
