(* ===== verification/Pending_Slot.thy ===== *)
theory Pending_Slot
  imports "HOL-Library.Multiset"
begin

text \<open>
  The hand-over protocol that \<open>SinkHandler\<close> (sink.h) and \<open>PatternFormatterHandler\<close> (pattern.h)
  share: an owner keeps a current resource and an atomic slot for the next one. \<open>queue\<close> exchanges
  the slot and releases what it held; \<open>poll\<close> empties the slot and, if there was something in it,
  releases the current resource and installs the new one. Only \<open>managed\<close> resources are really
  given back (a sink never closes stdout or stderr). \<open>other\<close> stands for every operation that
  only uses the current resource; \<open>destroy\<close> releases what is left. \<open>released\<close> is the sequence of
  resources given up so far.

  The laws are about one operation each; the lemmas follow resources through whole runs: nothing is
  lost, nothing is released twice, and the current resource is never a released one.
\<close>

datatype ('q, 'o) slot_op = Queue_New 'q | Poll_Switch | Use 'o

fun queued :: "('q, 'o) slot_op list \<Rightarrow> 'q list" where
  "queued [] = []"
| "queued (Queue_New q # ops) = q # queued ops"
| "queued (Poll_Switch # ops) = queued ops"
| "queued (Use x # ops) = queued ops"

lemma queued_Cons: "queued (x # ops) = queued [x] @ queued ops"
  by (cases x) auto

lemma queued_append [simp]: "queued (ops @ ops') = queued ops @ queued ops'"
proof (induction ops)
  case (Cons x ops)
  then show ?case by (cases x) auto
qed simp

locale pending_slot =
  fixes queue :: "'q \<Rightarrow> 's \<Rightarrow> 's"
    and poll :: "'s \<Rightarrow> 's"
    and other :: "'o \<Rightarrow> 's \<Rightarrow> 's"
    and destroy :: "'s \<Rightarrow> 's"
    and resource :: "'q \<Rightarrow> 'r"
    and managed :: "'r \<Rightarrow> bool"
    and current :: "'s \<Rightarrow> 'r"
    and pending :: "'s \<Rightarrow> 'r option"
    and released :: "'s \<Rightarrow> 'r list"
  assumes queue_laws: "current (queue q s) = current s" "pending (queue q s) = Some (resource q)"
      "released (queue q s) = released s @ filter managed (case pending s of None \<Rightarrow> [] | Some p \<Rightarrow> [p])"
    and poll_none: "pending s = None \<Longrightarrow> poll s = s"
    and poll_some: "pending s = Some p \<Longrightarrow> current (poll s) = p"
      "pending s = Some p \<Longrightarrow> pending (poll s) = None"
      "pending s = Some p \<Longrightarrow> released (poll s) = released s @ filter managed [current s]"
    and other_laws: "current (other x s) = current s" "pending (other x s) = pending s"
      "released (other x s) = released s"
    and destroy_law: "released (destroy s) = released s @
      filter managed ((case pending s of None \<Rightarrow> [] | Some p \<Rightarrow> [p]) @ [current s])"
begin

fun step :: "('q, 'o) slot_op \<Rightarrow> 's \<Rightarrow> 's" where
  "step (Queue_New q) s = queue q s"
| "step Poll_Switch s = poll s"
| "step (Use x) s = other x s"

definition run :: "('q, 'o) slot_op list \<Rightarrow> 's \<Rightarrow> 's" where
  "run ops s = fold step ops s"

definition held :: "'s \<Rightarrow> 'r list" where
  "held s = filter managed (current s # (case pending s of None \<Rightarrow> [] | Some p \<Rightarrow> [p]))"

definition handed :: "('q, 'o) slot_op list \<Rightarrow> 'r list" where
  "handed ops = filter managed (map resource (queued ops))"

lemma run_simps [simp]: "run [] s = s" "run (x # ops) s = run ops (step x s)"
    "run (ops @ ops') s = run ops' (run ops s)"
  by (simp_all add: run_def)

lemma poll_cases: "pending s = None \<and> poll s = s \<or> (\<exists>p. pending s = Some p \<and> current (poll s) = p \<and>
    pending (poll s) = None \<and> released (poll s) = released s @ filter managed [current s])"
  using poll_none poll_some by (cases "pending s") auto

lemma step_conserves:
  "mset (released (step x s)) + mset (held (step x s)) = mset (released s) + mset (held s) + mset (handed [x])"
proof (cases x)
  case Poll_Switch
  then show ?thesis using poll_cases [of s] by (auto simp: held_def handed_def)
qed (auto simp: held_def handed_def queue_laws other_laws split: option.split)

lemma handed_Cons: "handed (x # ops) = handed [x] @ handed ops"
  by (simp add: handed_def queued_Cons [of x ops])

lemma conserves:
  "mset (released (run ops s)) + mset (held (run ops s)) = mset (released s) + mset (held s) + mset (handed ops)"
proof (induction ops arbitrary: s)
  case Nil
  then show ?case by (simp add: handed_def)
next
  case (Cons x ops)
  have "mset (released (run ops (step x s))) + mset (held (run ops (step x s))) =
      mset (released (step x s)) + mset (held (step x s)) + mset (handed ops)"
    by (rule Cons.IH)
  also have "\<dots> = mset (released s) + mset (held s) + mset (handed (x # ops))"
    unfolding step_conserves handed_Cons [of x ops] by (simp add: ac_simps)
  finally show ?case by simp
qed

text \<open>After the destructor every managed resource that was ever owned has been released, each as
  often as it was handed over.\<close>

lemma destroy_releases_all:
  "mset (released (destroy (run ops s))) = mset (released s) + mset (held s) + mset (handed ops)"
proof -
  have "mset (released (destroy (run ops s))) = mset (released (run ops s)) + mset (held (run ops s))"
    by (simp add: destroy_law held_def ac_simps split: option.split)
  then show ?thesis using conserves by simp
qed

text \<open>If no managed resource is handed over twice, none is released twice, and neither the current
  one nor the pending one has been released.\<close>

lemma owned_not_released:
  assumes "distinct (released s @ held s @ handed ops)"
  shows "distinct (released (run ops s) @ held (run ops s))"
proof -
  have "mset (released (run ops s) @ held (run ops s)) = mset (released s @ held s @ handed ops)"
    using conserves by simp
  then show ?thesis using assms by (metis mset_eq_imp_distinct_iff)
qed

lemma step_current: "x \<noteq> Poll_Switch \<Longrightarrow> current (step x s) = current s"
  by (cases x) (simp_all add: queue_laws other_laws)

lemma current_stable: "Poll_Switch \<notin> set ops \<Longrightarrow> current (run ops s) = current s"
  by (induction ops arbitrary: s) (auto simp: step_current)

lemma pending_stable:
  "Poll_Switch \<notin> set ops \<Longrightarrow> queued ops = [] \<Longrightarrow> pending (run ops s) = pending s"
proof (induction ops arbitrary: s)
  case (Cons x ops)
  then show ?case by (cases x) (auto simp: other_laws)
qed simp

text \<open>The last resource queued before a poll is the one the poll installs.\<close>

lemma poll_installs_last:
  assumes "Poll_Switch \<notin> set ops" and "queued ops = []"
  shows "current (run (Queue_New q # ops @ [Poll_Switch]) s) = resource q"
proof -
  have "pending (run ops (queue q s)) = Some (resource q)"
    using pending_stable [OF assms] by (simp add: queue_laws)
  then show ?thesis by (simp add: poll_some)
qed

end

end
