(* ===== verification/Sink.thy ===== *)
theory Sink
  imports Papper_Prelude Pending_Slot
begin

text \<open>
  \<open>include/papper/detail/sink.h\<close>: the file the backend writes to and its replacement while the
  program runs. The C library is modelled by the sequence of calls made to it (\<open>sk_io\<close>), oldest
  first; what a call does to a file is its documented meaning (\<open>io_ok\<close> says that no call is made on a
  file after \<open>fclose\<close>, \<open>file_output\<close> reads off the bytes a file received).

  The handler is used by one backend thread and any number of threads that call \<open>queue_new_sink\<close>.
  The pending descriptor is the only shared datum and is only touched by atomic exchanges, after
  which the old descriptor belongs to the exchanging thread alone, so an execution is a sequence of
  whole operations.
\<close>

datatype cfile = Stdout | Stderr | Disk nat

datatype io_call =
  IO_Write cfile string
| IO_Putc cfile char
| IO_Flush cfile
| IO_Close cfile
| IO_Setvbuf cfile int u64

record sink_descriptor =
  sd_file :: cfile
  sd_mode :: int
  sd_size :: u64

record sink =
  sk_file :: cfile
  sk_pending :: "sink_descriptor option"
  sk_io :: "io_call list"

definition new_sink_handler :: sink where
  "new_sink_handler = \<lparr>sk_file = Stdout, sk_pending = None, sk_io = []\<rparr>"

definition io :: "io_call list \<Rightarrow> sink \<Rightarrow> sink" where
  "io calls s = s\<lparr>sk_io := sk_io s @ calls\<rparr>"

definition close_calls :: "cfile \<Rightarrow> io_call list" where
  "close_calls f = (if f \<noteq> Stdout \<and> f \<noteq> Stderr then [IO_Close f] else [])"

definition close_file :: "cfile \<Rightarrow> sink \<Rightarrow> sink" where
  "close_file f s = io (close_calls f) s"

definition sink_dtor :: "sink \<Rightarrow> sink" where
  "sink_dtor s =
     (let s1 = s\<lparr>sk_pending := None\<rparr>;
          s2 = (case sk_pending s of None \<Rightarrow> s1 | Some p \<Rightarrow> close_file (sd_file p) s1)
      in close_file (sk_file s2) s2)"

definition queue_new_sink :: "cfile option \<Rightarrow> int \<Rightarrow> u64 \<Rightarrow> sink \<Rightarrow> sink" where
  "queue_new_sink file buffering_mode buffer_size s =
     (case file of
        None \<Rightarrow> s
      | Some f \<Rightarrow>
          let new_sink = \<lparr>sd_file = f, sd_mode = buffering_mode, sd_size = buffer_size\<rparr>;
              s1 = s\<lparr>sk_pending := Some new_sink\<rparr>
          in (case sk_pending s of None \<Rightarrow> s1 | Some prev \<Rightarrow> close_file (sd_file prev) s1))"

definition sink_write :: "string \<Rightarrow> sink \<Rightarrow> sink" where
  "sink_write str s = io [IO_Write (sk_file s) str] s"

definition write_str_and_endl :: "string \<Rightarrow> sink \<Rightarrow> sink" where
  "write_str_and_endl str s = io [IO_Write (sk_file s) str, IO_Putc (sk_file s) (CHR 0x0A)] s"

definition poll_for_pending_sink_switch :: "sink \<Rightarrow> sink" where
  "poll_for_pending_sink_switch s =
     (let s1 = s\<lparr>sk_pending := None\<rparr>
      in case sk_pending s of
           None \<Rightarrow> s1
         | Some new_sink \<Rightarrow>
             let s2 = io [IO_Flush (sk_file s1)] s1;
                 s3 = close_file (sk_file s2) s2;
                 s4 = s3\<lparr>sk_file := sd_file new_sink\<rparr>
             in io [IO_Setvbuf (sk_file s4) (sd_mode new_sink) (sd_size new_sink)] s4)"

lemmas sink_defs = io_def close_file_def sink_dtor_def queue_new_sink_def sink_write_def
  write_str_and_endl_def poll_for_pending_sink_switch_def

section \<open>Reading the sequence of calls\<close>

fun io_file :: "io_call \<Rightarrow> cfile" where
  "io_file (IO_Write f str) = f"
| "io_file (IO_Putc f c) = f"
| "io_file (IO_Flush f) = f"
| "io_file (IO_Close f) = f"
| "io_file (IO_Setvbuf f m n) = f"

fun closed_by :: "io_call \<Rightarrow> cfile list" where
  "closed_by (IO_Close f) = [f]"
| "closed_by (IO_Write f str) = []"
| "closed_by (IO_Putc f c) = []"
| "closed_by (IO_Flush f) = []"
| "closed_by (IO_Setvbuf f m n) = []"

definition closes :: "io_call list \<Rightarrow> cfile list" where
  "closes calls = concat (map closed_by calls)"

fun io_ok_from :: "cfile set \<Rightarrow> io_call list \<Rightarrow> bool" where
  "io_ok_from C [] \<longleftrightarrow> True"
| "io_ok_from C (c # cs) \<longleftrightarrow> io_file c \<notin> C \<and> io_ok_from (C \<union> set (closed_by c)) cs"

definition io_ok :: "io_call list \<Rightarrow> bool" where
  "io_ok calls = io_ok_from {} calls"

fun output_to :: "cfile \<Rightarrow> io_call \<Rightarrow> string" where
  "output_to f (IO_Write g str) = (if f = g then str else [])"
| "output_to f (IO_Putc g c) = (if f = g then [c] else [])"
| "output_to f (IO_Flush g) = []"
| "output_to f (IO_Close g) = []"
| "output_to f (IO_Setvbuf g m n) = []"

definition file_output :: "cfile \<Rightarrow> io_call list \<Rightarrow> string" where
  "file_output f calls = concat (map (output_to f) calls)"

fun is_disk :: "cfile \<Rightarrow> bool" where
  "is_disk (Disk n) \<longleftrightarrow> True"
| "is_disk Stdout \<longleftrightarrow> False"
| "is_disk Stderr \<longleftrightarrow> False"

lemma is_disk_iff: "is_disk f \<longleftrightarrow> f \<noteq> Stdout \<and> f \<noteq> Stderr"
  by (cases f) auto

lemma closes_simps [simp]:
  "closes [] = []" "closes (c # cs) = closed_by c @ closes cs" "closes (a @ b) = closes a @ closes b"
  by (simp_all add: closes_def)

lemma close_calls_facts [simp]:
  "closes (close_calls f) = filter is_disk [f]" "file_output g (close_calls f) = []"
  by (auto simp: close_calls_def is_disk_iff file_output_def)

lemma file_output_simps [simp]:
  "file_output f [] = []" "file_output f (c # cs) = output_to f c @ file_output f cs"
  "file_output f (a @ b) = file_output f a @ file_output f b"
  by (simp_all add: file_output_def)

lemma io_ok_from_append:
  "io_ok_from C (a @ b) \<longleftrightarrow> io_ok_from C a \<and> io_ok_from (C \<union> set (closes a)) b"
  by (induction a arbitrary: C) (auto simp: Un_assoc)

lemma io_ok_append: "io_ok (a @ b) \<longleftrightarrow> io_ok a \<and> io_ok_from (set (closes a)) b"
  by (simp add: io_ok_def io_ok_from_append)

lemma io_ok_close_calls: "io_ok_from C (close_calls f) \<longleftrightarrow> (is_disk f \<longrightarrow> f \<notin> C)"
  by (simp add: close_calls_def is_disk_iff)

section \<open>The sink keeps the hand-over protocol\<close>

datatype sink_use = Write_Raw string | Write_Line string

fun sink_use_op :: "sink_use \<Rightarrow> sink \<Rightarrow> sink" where
  "sink_use_op (Write_Raw str) s = sink_write str s"
| "sink_use_op (Write_Line str) s = write_str_and_endl str s"

definition queue_descriptor :: "sink_descriptor \<Rightarrow> sink \<Rightarrow> sink" where
  "queue_descriptor d s = queue_new_sink (Some (sd_file d)) (sd_mode d) (sd_size d) s"

abbreviation sink_released :: "sink \<Rightarrow> cfile list" where
  "sink_released s \<equiv> closes (sk_io s)"

abbreviation sink_pending_file :: "sink \<Rightarrow> cfile option" where
  "sink_pending_file s \<equiv> map_option sd_file (sk_pending s)"

interpretation sk: pending_slot queue_descriptor poll_for_pending_sink_switch sink_use_op sink_dtor
  sd_file is_disk sk_file sink_pending_file sink_released
proof (unfold_locales, goal_cases)
  case (8 x s)
  then show ?case by (cases x) (simp_all add: sink_defs)
next
  case (9 x s)
  then show ?case by (cases x) (simp_all add: sink_defs)
next
  case (10 x s)
  then show ?case by (cases x) (simp_all add: sink_defs)
qed (auto simp: queue_descriptor_def sink_defs Let_def split: option.split)

text \<open>A run of the sink: the calls of all threads on one handler, in the order in which they take
  effect.\<close>

type_synonym sink_op = "(sink_descriptor, sink_use) slot_op"

fun sink_step :: "sink_op \<Rightarrow> sink \<Rightarrow> sink" where
  "sink_step (Queue_New d) s = queue_descriptor d s"
| "sink_step Poll_Switch s = poll_for_pending_sink_switch s"
| "sink_step (Use u) s = sink_use_op u s"

definition sink_run :: "sink_op list \<Rightarrow> sink \<Rightarrow> sink" where
  "sink_run ops s = fold sink_step ops s"

lemma sink_run_simps [simp]:
  "sink_run [] s = s" "sink_run (x # ops) s = sink_run ops (sink_step x s)"
  "sink_run (ops @ ops') s = sink_run ops' (sink_run ops s)"
  by (simp_all add: sink_run_def)

lemma sink_step_eq: "sink_step x s = sk.step x s"
  by (cases x) simp_all

lemma sink_run_eq: "sink_run ops s = sk.run ops s"
  by (induction ops arbitrary: s) (simp_all add: sink_step_eq)

definition sink_files :: "sink_op list \<Rightarrow> cfile list" where
  "sink_files ops = map sd_file (queued ops)"

lemma sk_handed: "sk.handed ops = filter is_disk (sink_files ops)"
  by (simp add: sk.handed_def sink_files_def)

lemma sk_held_new: "sk.held new_sink_handler = []"
  by (simp add: sk.held_def new_sink_handler_def)

lemma sk_released_new: "closes (sk_io new_sink_handler) = []"
  by (simp add: new_sink_handler_def)

section \<open>No call on a closed file\<close>

definition sink_safe :: "sink \<Rightarrow> bool" where
  "sink_safe s \<longleftrightarrow> io_ok (sk_io s)"

definition sink_owned :: "sink \<Rightarrow> bool" where
  "sink_owned s \<longleftrightarrow> distinct (closes (sk_io s) @ sk.held s) \<and> (\<forall>f \<in> set (closes (sk_io s)). is_disk f)"

lemma sink_owned_open:
  assumes "sink_owned s"
  shows "sk_file s \<notin> set (closes (sk_io s))"
    and "sk_pending s = Some d \<Longrightarrow> sd_file d \<notin> set (closes (sk_io s))"
    and "sk_pending s = Some d \<Longrightarrow> is_disk (sk_file s) \<Longrightarrow> sd_file d \<noteq> sk_file s"
  using assms by (auto simp: sink_owned_def sk.held_def split: if_splits)

lemma sink_step_safe:
  assumes "sink_owned s" and "sink_safe s"
  shows "sink_safe (sink_step x s)"
proof (cases x)
  case (Queue_New d)
  show ?thesis
    using assms(2) sink_owned_open(2) [OF assms(1)]
    by (auto simp: Queue_New queue_descriptor_def sink_defs sink_safe_def io_ok_append io_ok_close_calls
        Let_def split: option.split)
next
  case Poll_Switch
  show ?thesis
  proof (cases "sk_pending s")
    case None
    then show ?thesis using assms(2) by (simp add: Poll_Switch sink_defs sink_safe_def)
  next
    case (Some d)
    then show ?thesis
      using assms(2) sink_owned_open(1) [OF assms(1)] sink_owned_open(2,3) [OF assms(1) Some]
      by (auto simp: Poll_Switch sink_defs sink_safe_def io_ok_append io_ok_from_append
          io_ok_close_calls Let_def)
  qed
next
  case (Use u)
  then show ?thesis
    using assms(2) sink_owned_open(1) [OF assms(1)]
    by (cases u) (auto simp: sink_defs sink_safe_def io_ok_append)
qed

lemma sink_dtor_safe:
  assumes "sink_owned s" and "sink_safe s"
  shows "sink_safe (sink_dtor s)"
proof (cases "sk_pending s")
  case None
  then show ?thesis
    using assms(2) sink_owned_open(1) [OF assms(1)]
    by (simp add: sink_defs sink_safe_def io_ok_append io_ok_close_calls)
next
  case (Some d)
  then show ?thesis
    using assms(2) sink_owned_open(1) [OF assms(1)] sink_owned_open(2,3) [OF assms(1) Some]
    by (auto simp: sink_defs sink_safe_def io_ok_append io_ok_from_append io_ok_close_calls)
qed

lemma sink_closes_disk:
  assumes "\<forall>f \<in> set (closes (sk_io s)). is_disk f"
  shows "\<forall>f \<in> set (closes (sk_io (sink_step x s))). is_disk f"
proof (cases x)
  case (Queue_New d)
  show ?thesis unfolding Queue_New sink_step.simps sk.queue_laws using assms by auto
next
  case Poll_Switch
  have "\<exists>fs. closes (sk_io (poll_for_pending_sink_switch s)) = closes (sk_io s) @ filter is_disk fs"
  proof (cases "sk_pending s")
    case None
    then show ?thesis using sk.poll_none [of s] by (intro exI [of _ "[]"]) simp
  next
    case (Some d)
    then show ?thesis using sk.poll_some(3) [of s "sd_file d"] by (intro exI [of _ "[sk_file s]"]) simp
  qed
  then show ?thesis unfolding Poll_Switch sink_step.simps using assms by auto
next
  case (Use u)
  show ?thesis unfolding Use sink_step.simps sk.other_laws by (rule assms)
qed

lemma sink_run_owned:
  assumes "distinct (filter is_disk (sink_files ops))"
  shows "sink_owned (sink_run ops new_sink_handler)"
proof -
  have disk: "\<forall>f \<in> set (closes (sk_io s)). is_disk f \<Longrightarrow>
      \<forall>f \<in> set (closes (sk_io (sink_run ops s))). is_disk f" for s
  proof (induction ops arbitrary: s)
    case (Cons x ops)
    show ?case unfolding sink_run_simps by (rule Cons.IH, rule sink_closes_disk, rule Cons.prems)
  qed simp
  show ?thesis
    unfolding sink_owned_def
    using disk [of new_sink_handler, unfolded sk_released_new] sk.owned_not_released [of new_sink_handler ops] assms
    by (simp add: sink_run_eq sk_handed sk_held_new sk_released_new)
qed

lemma sink_run_safe:
  "distinct (filter is_disk (sink_files ops)) \<Longrightarrow> sink_safe (sink_run ops new_sink_handler)"
proof (induction ops rule: rev_induct)
  case Nil
  then show ?case by (simp add: sink_safe_def new_sink_handler_def io_ok_def)
next
  case (snoc x ops)
  then have "distinct (filter is_disk (sink_files ops))" by (simp add: sink_files_def)
  then show ?case using snoc.IH sink_run_owned [of ops] by (simp add: sink_step_safe)
qed

section \<open>Properties\<close>

text \<open>C22. If no file is handed to the sink twice, the whole life of the handler, from the first call to the
  destructor, never touches a closed file, and at the end every file that was handed over has been
  closed exactly once, while stdout and stderr have not been closed.\<close>
theorem sink_closes_every_file_once:
  assumes "distinct (filter is_disk (sink_files ops))"
  shows "io_ok (sk_io (sink_dtor (sink_run ops new_sink_handler))) \<and>
    mset (closes (sk_io (sink_dtor (sink_run ops new_sink_handler)))) =
      mset (filter is_disk (sink_files ops))"
proof
  show "io_ok (sk_io (sink_dtor (sink_run ops new_sink_handler)))"
    using sink_dtor_safe [OF sink_run_owned sink_run_safe] assms by (simp add: sink_safe_def)
  show "mset (closes (sk_io (sink_dtor (sink_run ops new_sink_handler)))) =
      mset (filter is_disk (sink_files ops))"
    using sk.destroy_releases_all [of ops new_sink_handler]
    by (simp add: sink_run_eq sk_handed sk_held_new sk_released_new)
qed

definition demo_sink_ops :: "sink_op list" where
  "demo_sink_ops =
     [Queue_New \<lparr>sd_file = Disk 1, sd_mode = 1, sd_size = 8192\<rparr>, Use (Write_Line ''a''),
      Poll_Switch, Use (Write_Line ''b''), Queue_New \<lparr>sd_file = Stderr, sd_mode = 1, sd_size = 8192\<rparr>,
      Queue_New \<lparr>sd_file = Disk 2, sd_mode = 0, sd_size = 64\<rparr>]"

lemma sink_closes_every_file_once_witness:
  "distinct (filter is_disk (sink_files demo_sink_ops)) \<and>
   mset (closes (sk_io (sink_dtor (sink_run demo_sink_ops new_sink_handler)))) = {#Disk 1, Disk 2#}"
proof -
  have "distinct (filter is_disk (sink_files demo_sink_ops))"
    by (simp add: demo_sink_ops_def sink_files_def)
  with sink_closes_every_file_once [OF this] show ?thesis
    by (simp add: demo_sink_ops_def sink_files_def)
qed

fun use_text :: "sink_op \<Rightarrow> string" where
  "use_text (Use (Write_Raw str)) = str"
| "use_text (Use (Write_Line str)) = str @ [CHR 0x0A]"
| "use_text Poll_Switch = []"
| "use_text (Queue_New d) = []"

lemma sink_step_output:
  assumes "x \<noteq> Poll_Switch"
  shows "file_output f (sk_io (sink_step x s)) =
    file_output f (sk_io s) @ (if f = sk_file s then use_text x else [])"
proof (cases x)
  case (Use u)
  then show ?thesis by (cases u) (auto simp: sink_defs)
qed (use assms in \<open>auto simp: queue_descriptor_def sink_defs Let_def split: option.split\<close>)

lemma sink_step_current: "x \<noteq> Poll_Switch \<Longrightarrow> sk_file (sink_step x s) = sk_file s"
  unfolding sink_step_eq by (rule sk.step_current)

lemma sink_output_stable:
  "Poll_Switch \<notin> set ops \<Longrightarrow> file_output f (sk_io (sink_run ops s)) =
     file_output f (sk_io s) @ (if f = sk_file s then concat (map use_text ops) else [])"
proof (induction ops arbitrary: s)
  case (Cons x ops)
  have x: "x \<noteq> Poll_Switch" and ops: "Poll_Switch \<notin> set ops" using Cons.prems by auto
  show ?case
    using Cons.IH [OF ops, of "sink_step x s"] sink_step_current [OF x, of s] sink_step_output [OF x, of f s]
    by simp
qed simp

text \<open>A sink that is queued takes effect at the next poll and not before: what is written after
  that poll, until the poll after it, goes to the new file, in order and complete, whatever other
  sinks are queued in the meantime; no other file receives any of it.\<close>
theorem sink_switch_routes_output:
  assumes "Poll_Switch \<notin> set before" and "queued before = []" and "Poll_Switch \<notin> set after"
    and "s' = sink_run (Queue_New d # before @ [Poll_Switch]) s"
  shows "file_output f (sk_io (sink_run after s')) =
    file_output f (sk_io s') @ (if f = sd_file d then concat (map use_text after) else []) \<and>
    file_output f (sk_io s') =
      file_output f (sk_io s) @ (if f = sk_file s then concat (map use_text before) else [])"
proof
  have cur: "sk_file s' = sd_file d"
    unfolding assms(4) sink_run_eq by (rule sk.poll_installs_last [OF assms(1,2)])
  show "file_output f (sk_io (sink_run after s')) =
      file_output f (sk_io s') @ (if f = sd_file d then concat (map use_text after) else [])"
    using sink_output_stable [OF assms(3), of f s'] cur by simp
  have poll: "file_output f (sk_io (poll_for_pending_sink_switch t)) = file_output f (sk_io t)" for t
    by (auto simp: sink_defs Let_def split: option.split)
  show "file_output f (sk_io s') =
      file_output f (sk_io s) @ (if f = sk_file s then concat (map use_text before) else [])"
    using sink_output_stable [OF assms(1), of f "sink_step (Queue_New d) s"]
      sink_step_current [of "Queue_New d" s] sink_step_output [of "Queue_New d" f s]
    by (simp add: assms(4) poll)
qed

lemma sink_switch_routes_output_witness:
  "file_output (Disk 1)
     (sk_io (sink_run [Use (Write_Line ''b'')]
       (sink_run (Queue_New \<lparr>sd_file = Disk 1, sd_mode = 1, sd_size = 8192\<rparr> #
          [Use (Write_Line ''a'')] @ [Poll_Switch]) new_sink_handler))) = ''b'' @ [CHR 0x0A]"
  (is "file_output _ (sk_io (sink_run _ ?s)) = _")
proof -
  have "file_output (Disk 1) (sk_io (sink_run [Use (Write_Line ''b'')] ?s)) =
      file_output (Disk 1) (sk_io ?s) @ ''b'' @ [CHR 0x0A] \<and>
      file_output (Disk 1) (sk_io ?s) = file_output (Disk 1) (sk_io new_sink_handler) @ []"
    using sink_switch_routes_output [of "[Use (Write_Line ''a'')]" "[Use (Write_Line ''b'')]", OF _ _ _ refl,
        where d = "\<lparr>sd_file = Disk 1, sd_mode = 1, sd_size = 8192\<rparr>" and s = new_sink_handler and f = "Disk 1"]
    by (simp add: new_sink_handler_def del: sink_run_simps)
  then show ?thesis by (simp add: new_sink_handler_def del: sink_run_simps)
qed

text \<open>The safety of the sink does depend on every file being handed over once: setting the file that
  is already the sink closes it at the switch and goes on using it.\<close>
theorem sink_same_file_closed_in_use:
  assumes "is_disk (sd_file d)" and "sk_pending s = None" and "sk_file s = sd_file d"
  shows "\<not> io_ok (sk_io (sink_run [Queue_New d, Poll_Switch, Use (Write_Line str)] s)) \<and>
    sk_file (sink_run [Queue_New d, Poll_Switch] s) \<in> set (closes (sk_io (sink_run [Queue_New d, Poll_Switch] s)))"
  using assms
  by (auto simp: queue_descriptor_def sink_defs Let_def io_ok_append io_ok_from_append close_calls_def is_disk_iff)

lemma sink_same_file_closed_in_use_witness:
  "\<not> io_ok (sk_io (sink_run
       [Queue_New \<lparr>sd_file = Disk 1, sd_mode = 1, sd_size = 8192\<rparr>, Poll_Switch, Use (Write_Line ''x'')]
       \<lparr>sk_file = Disk 1, sk_pending = None, sk_io = []\<rparr>))"
  by (rule sink_same_file_closed_in_use [THEN conjunct1]) simp_all

end
