(* ===== verification/Pattern_Parse.thy ===== *)
theory Pattern_Parse
  imports Papper_Prelude
begin

text \<open>
  The compile-time half of \<open>include/papper/detail/pattern.h\<close>: \<open>parse_pattern\<close> turns a pattern
  such as \<open>[{time:HMSf}] {message}\<close> into a format string for \<open>fmt\<close> and the list of fields and
  specs. The function is \<open>consteval\<close>, so a write past the end of the format buffer is a compile
  error: \<open>None\<close>. The fixed arrays with their counters are lists (the filled prefix).
\<close>

datatype pattern_field =
  F_Level | F_ThreadName | F_Time | F_File | F_Function | F_Line | F_Message

datatype format_spec = S_None | S_TimeHMS | S_TimeHMSf | S_TimeHMSF | S_FileNameOnly

datatype parsing_error =
  E_None | UnterminatedBrace | EmptyFieldName | UnknownFieldName | UnknownFormatSpec
| InvalidSpecUsage | TooManyFields | UnmatchedClosingBrace

text \<open>The assertions of \<open>PatternFormatter\<close>, which are checked when a pattern is compiled: a pattern with an
  error does not compile and gives this message.\<close>

definition quoted :: "char \<Rightarrow> string" where
  "quoted c = [CHR 0x27, c, CHR 0x27]"

fun static_assertion :: "parsing_error \<Rightarrow> string option" where
  "static_assertion E_None = None"
| "static_assertion UnterminatedBrace = Some (''pattern contains unterminated '' @ quoted (CHR ''{''))"
| "static_assertion EmptyFieldName = Some (''pattern contains empty '' @ [CHR 0x27] @ ''{}'' @ [CHR 0x27])"
| "static_assertion UnknownFieldName = Some ''pattern contains unknown field name''"
| "static_assertion UnknownFormatSpec = Some ''pattern contains unknown format spec''"
| "static_assertion InvalidSpecUsage = Some ''pattern contains invalid field/spec combination''"
| "static_assertion TooManyFields =
     Some ''pattern contains too many fields (use papper_set_long_pattern() instead)''"
| "static_assertion UnmatchedClosingBrace =
     Some (''pattern contains '' @ quoted (CHR ''}'') @ '' with no matching opening brace '' @ quoted (CHR ''{''))"

text \<open>Every error of the parser has its assertion.\<close>

lemma static_assertion_None [simp]: "static_assertion e = None \<longleftrightarrow> e = E_None"
  by (cases e) simp_all

text \<open>\<open>StaticString\<close>: the characters of a string literal without the NUL that ends it.\<close>

definition static_string :: "string \<Rightarrow> string" where
  "static_string literal = take (length literal - 1) literal"

lemma static_string_literal [simp]: "static_string (pattern @ [c]) = pattern"
  by (simp add: static_string_def)

section \<open>Tables\<close>

definition field_table :: "(string \<times> pattern_field) list" where
  "field_table =
     [(''time'', F_Time), (''file'', F_File), (''function'', F_Function), (''line'', F_Line),
      (''level'', F_Level), (''message'', F_Message), (''m'', F_Message),
      (''thread'', F_ThreadName)]"

definition name_to_field_enum :: "string \<Rightarrow> pattern_field option" where
  "name_to_field_enum name = map_of field_table name"

definition spec_table :: "(string \<times> format_spec) list" where
  "spec_table =
     [('''', S_None), (''HMS'', S_TimeHMS), (''HMSf'', S_TimeHMSf), (''HMSF'', S_TimeHMSF),
      (''path'', S_None), (''nameonly'', S_FileNameOnly)]"

definition name_to_format_spec_enum :: "string \<Rightarrow> format_spec option" where
  "name_to_format_spec_enum name = map_of spec_table name"

definition validate_field_spec_combination :: "pattern_field \<Rightarrow> format_spec \<Rightarrow> bool" where
  "validate_field_spec_combination field spec =
     (if field = F_Time \<and> (spec = S_TimeHMS \<or> spec = S_TimeHMSf \<or> spec = S_TimeHMSF) then True
      else if field = F_File \<and> spec = S_FileNameOnly then True
      else spec = S_None)"

section \<open>The parser\<close>

record parsed_pattern =
  pp_error :: parsing_error
  pp_fmt_str :: string
  pp_fields :: "pattern_field list"
  pp_specs :: "format_spec list"

definition empty_pattern :: parsed_pattern where
  "empty_pattern = \<lparr>pp_error = E_None, pp_fmt_str = [], pp_fields = [], pp_specs = []\<rparr>"

definition push_char :: "nat \<Rightarrow> char \<Rightarrow> parsed_pattern \<Rightarrow> parsed_pattern option" where
  "push_char max_len c r =
     (if length (pp_fmt_str r) < max_len then Some (r\<lparr>pp_fmt_str := pp_fmt_str r @ [c]\<rparr>) else None)"

fun push_chars :: "nat \<Rightarrow> string \<Rightarrow> parsed_pattern \<Rightarrow> parsed_pattern option" where
  "push_chars max_len [] r = Some r"
| "push_chars max_len (c # cs) r =
     (case push_char max_len c r of None \<Rightarrow> None | Some r' \<Rightarrow> push_chars max_len cs r')"

fun spec_expansion :: "format_spec \<Rightarrow> string" where
  "spec_expansion S_None = ''{}''"
| "spec_expansion S_TimeHMS = ''{}''"
| "spec_expansion S_TimeHMSf = ''{}.{:06}''"
| "spec_expansion S_TimeHMSF = ''{}.{:09}''"
| "spec_expansion S_FileNameOnly = ''{}''"

definition expand_spec_into_result :: "nat \<Rightarrow> format_spec \<Rightarrow> parsed_pattern \<Rightarrow> parsed_pattern option" where
  "expand_spec_into_result max_len spec r = push_chars max_len (spec_expansion spec) r"

text \<open>The inner loop: the index of the next closing brace, or the size of the pattern.\<close>

function find_close :: "string \<Rightarrow> nat \<Rightarrow> nat" where
  "find_close pat j =
     (if j < length pat \<and> pat ! j \<noteq> CHR ''}'' then find_close pat (Suc j) else j)"
  by pat_completeness auto
termination
  by (relation "measure (\<lambda>(pat, j). length pat - j)") auto

declare find_close.simps [simp del]

definition split_name_and_spec :: "string \<Rightarrow> string \<times> string" where
  "split_name_and_spec s =
     (if CHR '':'' \<in> set s
      then (takeWhile (\<lambda>c. c \<noteq> CHR '':'') s, drop 1 (dropWhile (\<lambda>c. c \<noteq> CHR '':'') s))
      else (s, ''''))"

lemma find_close_ge: "j \<le> find_close pat j"
proof (induction pat j rule: find_close.induct)
  case (1 pat j)
  then show ?case by (subst find_close.simps) auto
qed

text \<open>One iteration per call; \<open>i\<close> is the index into the pattern.\<close>

function parse_loop :: "nat \<Rightarrow> nat \<Rightarrow> string \<Rightarrow> nat \<Rightarrow> parsed_pattern \<Rightarrow> parsed_pattern option" where
  "parse_loop max_fields max_len pat i r =
     (if length pat \<le> i then Some r
      else if pat ! i = CHR ''{'' then
        (if i + 1 < length pat \<and> pat ! (i + 1) = CHR ''{'' then
           (case push_chars max_len ''{{'' r of
              None \<Rightarrow> None
            | Some r' \<Rightarrow> parse_loop max_fields max_len pat (i + 2) r')
         else
           let close = find_close pat (i + 1) in
           if close = length pat then Some (r\<lparr>pp_error := UnterminatedBrace\<rparr>)
           else
             let name_and_spec = take (close - i - 1) (drop (i + 1) pat) in
             if name_and_spec = [] then Some (r\<lparr>pp_error := EmptyFieldName\<rparr>)
             else
               let (field_name, spec_name) = split_name_and_spec name_and_spec in
               (case name_to_field_enum field_name of
                  None \<Rightarrow> Some (r\<lparr>pp_error := UnknownFieldName\<rparr>)
                | Some field \<Rightarrow>
                    (case name_to_format_spec_enum spec_name of
                       None \<Rightarrow> Some (r\<lparr>pp_error := UnknownFormatSpec\<rparr>)
                     | Some spec \<Rightarrow>
                         if \<not> validate_field_spec_combination field spec
                         then Some (r\<lparr>pp_error := InvalidSpecUsage\<rparr>)
                         else if max_fields \<le> length (pp_fields r)
                         then Some (r\<lparr>pp_error := TooManyFields\<rparr>)
                         else
                           (case expand_spec_into_result max_len spec
                               (r\<lparr>pp_fields := pp_fields r @ [field],
                                  pp_specs := pp_specs r @ [spec]\<rparr>) of
                              None \<Rightarrow> None
                            | Some r' \<Rightarrow>
                                parse_loop max_fields max_len pat (close + 1) r'))))
      else if pat ! i = CHR ''}'' then
        (if i + 1 < length pat \<and> pat ! (i + 1) = CHR ''}'' then
           (case push_chars max_len ''}}'' r of
              None \<Rightarrow> None
            | Some r' \<Rightarrow> parse_loop max_fields max_len pat (i + 2) r')
         else Some (r\<lparr>pp_error := UnmatchedClosingBrace\<rparr>))
      else
        (case push_char max_len (pat ! i) r of
           None \<Rightarrow> None
         | Some r' \<Rightarrow> parse_loop max_fields max_len pat (i + 1) r'))"
  by pat_completeness auto
termination
proof (relation "measure (\<lambda>(mf, ml, pat, i, r). length pat - i)", goal_cases)
  case 3
  then show ?case using find_close_ge by (simp add: Suc_le_eq diff_less_mono2 less_Suc_eq_le)
qed auto

declare parse_loop.simps [simp del]

definition parse_pattern :: "nat \<Rightarrow> nat \<Rightarrow> string \<Rightarrow> parsed_pattern option" where
  "parse_pattern max_fields max_len pat = parse_loop max_fields max_len pat 0 empty_pattern"

section \<open>The grammar of patterns\<close>

text \<open>
  The reference reading of a pattern, independent of indices and buffers: a pattern is a sequence
  of plain characters, escaped braces and fields \<open>{name:spec}\<close>. \<open>lex\<close> splits a pattern into
  tokens and says how it ends; \<open>resolve_field\<close> gives a field its meaning; \<open>interpret\<close> runs the
  tokens against the limits.
\<close>

datatype token = T_Char char | T_Open | T_Close | T_Field string

fun token_text :: "token \<Rightarrow> string" where
  "token_text (T_Char c) = [c]"
| "token_text T_Open = ''{{''"
| "token_text T_Close = ''}}''"
| "token_text (T_Field s) = CHR ''{'' # s @ ''}''"

fun token_ok :: "token \<Rightarrow> bool" where
  "token_ok (T_Char c) \<longleftrightarrow> c \<noteq> CHR ''{'' \<and> c \<noteq> CHR ''}''"
| "token_ok T_Open \<longleftrightarrow> True"
| "token_ok T_Close \<longleftrightarrow> True"
| "token_ok (T_Field s) \<longleftrightarrow> CHR ''}'' \<notin> set s \<and> take 1 s \<noteq> ''{''"

abbreviation not_close :: "char \<Rightarrow> bool" where
  "not_close c \<equiv> c \<noteq> CHR ''}''"

function lex :: "string \<Rightarrow> token list \<times> parsing_error" where
  "lex [] = ([], E_None)"
| "lex (c # cs) =
     (if c = CHR ''{'' then
        (if take 1 cs = ''{'' then (let (ts, e) = lex (drop 1 cs) in (T_Open # ts, e))
         else if CHR ''}'' \<notin> set cs then ([], UnterminatedBrace)
         else let (ts, e) = lex (drop 1 (dropWhile not_close cs))
              in (T_Field (takeWhile not_close cs) # ts, e))
      else if c = CHR ''}'' then
        (if take 1 cs = ''}'' then (let (ts, e) = lex (drop 1 cs) in (T_Close # ts, e))
         else ([], UnmatchedClosingBrace))
      else (let (ts, e) = lex cs in (T_Char c # ts, e)))"
  by pat_completeness auto
termination
proof (relation "measure length", goal_cases)
  case (3 c cs)
  then show ?case using length_dropWhile_le [of not_close cs] by simp
qed auto

definition resolve_field :: "string \<Rightarrow> parsing_error + pattern_field \<times> format_spec" where
  "resolve_field s =
     (if s = [] then Inl EmptyFieldName
      else let (field_name, spec_name) = split_name_and_spec s in
        case name_to_field_enum field_name of
          None \<Rightarrow> Inl UnknownFieldName
        | Some field \<Rightarrow>
            (case name_to_format_spec_enum spec_name of
               None \<Rightarrow> Inl UnknownFormatSpec
             | Some spec \<Rightarrow>
                 if validate_field_spec_combination field spec then Inr (field, spec)
                 else Inl InvalidSpecUsage))"

definition push_field :: "nat \<Rightarrow> nat \<Rightarrow> pattern_field \<Rightarrow> format_spec \<Rightarrow> parsed_pattern \<Rightarrow> parsed_pattern option" where
  "push_field max_fields max_len field spec r =
     expand_spec_into_result max_len spec
       (r\<lparr>pp_fields := pp_fields r @ [field], pp_specs := pp_specs r @ [spec]\<rparr>)"

fun interpret_tokens ::
  "nat \<Rightarrow> nat \<Rightarrow> token list \<Rightarrow> parsing_error \<Rightarrow> parsed_pattern \<Rightarrow> parsed_pattern option"
where
  "interpret_tokens mf ml [] e r = Some (if e = E_None then r else r\<lparr>pp_error := e\<rparr>)"
| "interpret_tokens mf ml (T_Char c # ts) e r =
     (case push_chars ml [c] r of None \<Rightarrow> None | Some r' \<Rightarrow> interpret_tokens mf ml ts e r')"
| "interpret_tokens mf ml (T_Open # ts) e r =
     (case push_chars ml ''{{'' r of None \<Rightarrow> None | Some r' \<Rightarrow> interpret_tokens mf ml ts e r')"
| "interpret_tokens mf ml (T_Close # ts) e r =
     (case push_chars ml ''}}'' r of None \<Rightarrow> None | Some r' \<Rightarrow> interpret_tokens mf ml ts e r')"
| "interpret_tokens mf ml (T_Field s # ts) e r =
     (case resolve_field s of
        Inl err \<Rightarrow> Some (r\<lparr>pp_error := err\<rparr>)
      | Inr (field, spec) \<Rightarrow>
          if mf \<le> length (pp_fields r) then Some (r\<lparr>pp_error := TooManyFields\<rparr>)
          else (case push_field mf ml field spec r of
                  None \<Rightarrow> None
                | Some r' \<Rightarrow> interpret_tokens mf ml ts e r'))"

declare lex.simps [simp del]

section \<open>The index loop reads the grammar\<close>

lemma drop_nth_Cons: "i < length xs \<Longrightarrow> drop i xs = xs ! i # drop (Suc i) xs"
  by (rule Cons_nth_drop_Suc [symmetric])

lemma find_close_drop:
  "j \<le> length pat \<Longrightarrow> find_close pat j = j + length (takeWhile not_close (drop j pat))"
proof (induction pat j rule: find_close.induct)
  case (1 pat j)
  show ?case
  proof (cases "j < length pat")
    case True
    then show ?thesis using 1 by (subst find_close.simps) (simp add: drop_nth_Cons)
  next
    case False
    then show ?thesis using 1 by (subst find_close.simps) simp
  qed
qed

lemma takeWhile_all_iff: "length (takeWhile P xs) = length xs \<longleftrightarrow> (\<forall>x \<in> set xs. P x)"
  by (metis takeWhile_eq_all_conv takeWhile_eq_take take_all_iff order_refl)

lemma take1_drop: "take 1 (drop j xs) = [c] \<longleftrightarrow> j < length xs \<and> xs ! j = c"
  by (cases "j < length xs") (auto simp: drop_nth_Cons)

lemma close_body:
  assumes "j \<le> length pat" and "CHR ''}'' \<in> set (drop j pat)"
  shows "find_close pat j < length pat"
    and "take (find_close pat j - j) (drop j pat) = takeWhile not_close (drop j pat)"
    and "drop (Suc (find_close pat j)) pat = drop 1 (dropWhile not_close (drop j pat))"
proof -
  let ?w = "takeWhile not_close (drop j pat)"
  note close = find_close_drop [OF assms(1)]
  have "length ?w \<noteq> length (drop j pat)"
    using assms(2) by (subst takeWhile_all_iff) auto
  moreover have "length ?w \<le> length (drop j pat)" by (rule length_takeWhile_le)
  ultimately show "find_close pat j < length pat" using close by simp
  show "take (find_close pat j - j) (drop j pat) = ?w"
    using close by (simp add: takeWhile_eq_take [symmetric])
  have "dropWhile not_close (drop j pat) = drop (length ?w) (drop j pat)"
    by (rule dropWhile_eq_drop)
  then show "drop (Suc (find_close pat j)) pat = drop 1 (dropWhile not_close (drop j pat))"
    using close by (simp add: add.commute)
qed

lemma no_close:
  assumes "j \<le> length pat"
  shows "find_close pat j = length pat \<longleftrightarrow> CHR ''}'' \<notin> set (drop j pat)"
proof (cases "CHR ''}'' \<in> set (drop j pat)")
  case True
  then show ?thesis using close_body(1) [OF assms] by simp
next
  case False
  then have "length (takeWhile not_close (drop j pat)) = length (drop j pat)"
    by (subst takeWhile_all_iff) auto
  then show ?thesis using find_close_drop [OF assms] assms False by simp
qed

lemma push_chars_error: "push_chars ml cs r = Some r' \<Longrightarrow> pp_error r' = pp_error r"
  by (induction cs arbitrary: r) (auto simp: push_char_def split: option.splits if_splits)

lemma push_field_error: "push_field mf ml f sp r = Some r' \<Longrightarrow> pp_error r' = pp_error r"
  by (auto simp: push_field_def expand_spec_into_result_def dest: push_chars_error)

lemma push_chars_single: "push_chars ml [c] r = push_char ml c r"
  by (simp split: option.split)

lemma take1_hd: "take 1 (c # cs) = [c']  \<longleftrightarrow> c = c'"
  by simp

lemma parse_loop_field:
  assumes i: "i < length pat" and open_brace: "pat ! i = CHR ''{''"
    and single: "take 1 (drop (i + 1) pat) \<noteq> ''{''"
    and err: "pp_error r = E_None"
    and IH: "\<And>i' r'. i < i' \<Longrightarrow> i' \<le> length pat \<Longrightarrow> pp_error r' = E_None \<Longrightarrow>
      parse_loop mf ml pat i' r' =
        (let (ts, e) = lex (drop i' pat) in interpret_tokens mf ml ts e r')"
  shows "parse_loop mf ml pat i r = (let (ts, e) = lex (drop i pat) in interpret_tokens mf ml ts e r)"
proof -
  let ?rest = "drop (i + 1) pat"
  have j: "i + 1 \<le> length pat" using i by simp
  have cons: "drop i pat = CHR ''{'' # ?rest" using i open_brace by (simp add: drop_nth_Cons)
  have not2: "\<not> (i + 1 < length pat \<and> pat ! (i + 1) = CHR ''{'')"
    using single take1_drop [of "i + 1" pat "CHR ''{''"] by blast
  have guards: "(length pat \<le> i) = False" "(pat ! i = CHR ''{'') = True"
    "(i + 1 < length pat \<and> pat ! (i + 1) = CHR ''{'') = False"
    using i open_brace not2 by simp_all
  note step = parse_loop.simps [of mf ml pat i r, unfolded guards if_True if_False]
  show ?thesis
  proof (cases "CHR ''}'' \<in> set ?rest")
    case False
    then have "find_close pat (i + 1) = length pat" using no_close [OF j] by simp
    then have "parse_loop mf ml pat i r = Some (r\<lparr>pp_error := UnterminatedBrace\<rparr>)"
      unfolding step by (simp only: Let_def if_True refl)
    moreover have "lex (drop i pat) = ([], UnterminatedBrace)"
      using single False by (simp add: cons lex.simps)
    ultimately show ?thesis using err by simp
  next
    case True
    note body = close_body [OF j True]
    let ?s = "takeWhile not_close ?rest" and ?close = "find_close pat (i + 1)"
    have lexed: "lex (drop i pat) = (case lex (drop (Suc ?close) pat) of (ts, e) \<Rightarrow> (T_Field ?s # ts, e))"
      using single True body(3) by (simp add: cons lex.simps Let_def)
    have next_i: "i < Suc ?close" "Suc ?close \<le> length pat"
      using find_close_ge [of "i + 1" pat] body(1) by simp_all
    have loop: "parse_loop mf ml pat i r =
        (case resolve_field ?s of
           Inl e \<Rightarrow> Some (r\<lparr>pp_error := e\<rparr>)
         | Inr (field, spec) \<Rightarrow>
             if mf \<le> length (pp_fields r) then Some (r\<lparr>pp_error := TooManyFields\<rparr>)
             else (case push_field mf ml field spec r of
                     None \<Rightarrow> None
                   | Some r' \<Rightarrow> parse_loop mf ml pat (Suc ?close) r'))"
      unfolding step resolve_field_def push_field_def Let_def
      using body(1,2) by (simp split: option.split prod.split)
    obtain ts e where le: "lex (drop (Suc ?close) pat) = (ts, e)" by fastforce
    have rest: "parse_loop mf ml pat (Suc ?close) r' = interpret_tokens mf ml ts e r'"
      if "push_field mf ml field spec r = Some r'" for field spec r'
      using IH [OF next_i, of r'] push_field_error [OF that] err le by simp
    show ?thesis
      unfolding loop lexed le using rest
      by (auto split: sum.splits prod.splits option.splits)
  qed
qed

lemma parse_loop_interprets:
  "i \<le> length pat \<Longrightarrow> pp_error r = E_None \<Longrightarrow> parse_loop mf ml pat i r =
     (let (ts, e) = lex (drop i pat) in interpret_tokens mf ml ts e r)"
proof (induction "length pat - i" arbitrary: i r rule: less_induct)
  case less
  have IH: "parse_loop mf ml pat i' r' =
      (let (ts, e) = lex (drop i' pat) in interpret_tokens mf ml ts e r')"
    if "i < i'" "i' \<le> length pat" "pp_error r' = E_None" for i' r'
    using that by (intro less.hyps) auto
  show ?case
  proof (cases "i < length pat")
    case False
    then show ?thesis using less.prems by (subst parse_loop.simps) (simp add: lex.simps)
  next
    case True
    have cons: "drop i pat = pat ! i # drop (i + 1) pat" using True by (simp add: drop_nth_Cons)
    have twice: "take 1 (drop (i + 1) pat) = [c] \<longleftrightarrow> i + 1 < length pat \<and> pat ! (i + 1) = c" for c
      by (rule take1_drop)
    consider (field) "pat ! i = CHR ''{''" "take 1 (drop (i + 1) pat) \<noteq> ''{''"
      | (open2) "pat ! i = CHR ''{''" "i + 1 < length pat" "pat ! (i + 1) = CHR ''{''"
      | (close2) "pat ! i = CHR ''}''" "i + 1 < length pat" "pat ! (i + 1) = CHR ''}''"
      | (close1) "pat ! i = CHR ''}''" "take 1 (drop (i + 1) pat) \<noteq> ''}''"
      | (plain) "pat ! i \<noteq> CHR ''{''" "pat ! i \<noteq> CHR ''}''"
      using twice by blast
    then show ?thesis
    proof cases
      case field
      show ?thesis by (rule parse_loop_field [OF True field less.prems(2) IH])
    next
      case open2
      then have "lex (drop i pat) = (case lex (drop (i + 2) pat) of (ts, e) \<Rightarrow> (T_Open # ts, e))"
        using twice [of "CHR ''{''"] by (simp add: cons lex.simps Let_def)
      then show ?thesis
        using True open2 less.prems IH [of "i + 2"]
        by (subst parse_loop.simps)
          (auto split: option.splits prod.splits dest: push_chars_error simp del: push_chars.simps)
    next
      case close2
      then have "lex (drop i pat) = (case lex (drop (i + 2) pat) of (ts, e) \<Rightarrow> (T_Close # ts, e))"
        using twice [of "CHR ''}''"] by (simp add: cons lex.simps Let_def)
      then show ?thesis
        using True close2 less.prems IH [of "i + 2"]
        by (subst parse_loop.simps)
          (auto split: option.splits prod.splits dest: push_chars_error simp del: push_chars.simps)
    next
      case close1
      then show ?thesis
        using True twice [of "CHR ''}''"] less.prems
        by (subst parse_loop.simps) (auto simp: cons lex.simps Let_def)
    next
      case plain
      then have "lex (drop i pat) = (case lex (drop (i + 1) pat) of (ts, e) \<Rightarrow> (T_Char (pat ! i) # ts, e))"
        by (simp add: cons lex.simps Let_def)
      then show ?thesis
        using True plain less.prems IH [of "i + 1"] push_chars_error [of ml "[pat ! i]" r]
        by (subst parse_loop.simps)
          (auto split: option.splits prod.splits simp: push_chars_single simp del: push_chars.simps)
    qed
  qed
qed

end
