(* ===== verification/Pattern_Grammar.thy ===== *)
theory Pattern_Grammar
  imports Pattern_Parse
begin

text \<open>
  What the pattern parser accepts, rejects and refuses to compile. A pattern is read as a list of
  tokens (\<open>Pattern_Parse.token\<close>): \<open>pattern_of\<close> is the parse result a token list stands for,
  \<open>accepted\<close> the token lists that resolve and keep within the limits, \<open>fault\<close> the error a
  remaining text raises, and \<open>overflows\<close> the token whose expansion would run over the format buffer.
  The parser meets exactly one of the three cases on every pattern.
\<close>

section \<open>The meaning of a token list\<close>

fun token_fields :: "token \<Rightarrow> (pattern_field \<times> format_spec) list" where
  "token_fields (T_Field s) = (case resolve_field s of Inl e \<Rightarrow> [] | Inr fs \<Rightarrow> [fs])"
| "token_fields (T_Char c) = []"
| "token_fields T_Open = []"
| "token_fields T_Close = []"

fun token_fmt :: "token \<Rightarrow> string" where
  "token_fmt (T_Field s) = (case resolve_field s of Inl e \<Rightarrow> [] | Inr (f, sp) \<Rightarrow> spec_expansion sp)"
| "token_fmt (T_Char c) = [c]"
| "token_fmt T_Open = ''{{''"
| "token_fmt T_Close = ''}}''"

fun token_resolves :: "token \<Rightarrow> bool" where
  "token_resolves (T_Field s) \<longleftrightarrow> (case resolve_field s of Inl e \<Rightarrow> False | Inr fs \<Rightarrow> True)"
| "token_resolves (T_Char c) \<longleftrightarrow> True"
| "token_resolves T_Open \<longleftrightarrow> True"
| "token_resolves T_Close \<longleftrightarrow> True"

definition text_of :: "token list \<Rightarrow> string" where
  "text_of ts = concat (map token_text ts)"

definition pattern_of :: "token list \<Rightarrow> parsed_pattern" where
  "pattern_of ts =
     \<lparr>pp_error = E_None, pp_fmt_str = concat (map token_fmt ts),
      pp_fields = map fst (concat (map token_fields ts)),
      pp_specs = map snd (concat (map token_fields ts))\<rparr>"

definition token_good :: "token \<Rightarrow> bool" where
  "token_good t \<longleftrightarrow> token_ok t \<and> token_resolves t"

definition accepted :: "nat \<Rightarrow> nat \<Rightarrow> token list \<Rightarrow> bool" where
  "accepted mf ml ts \<longleftrightarrow> list_all token_good ts \<and> length (pp_fields (pattern_of ts)) \<le> mf \<and>
     length (pp_fmt_str (pattern_of ts)) \<le> ml"

fun fault :: "nat \<Rightarrow> nat \<Rightarrow> string \<Rightarrow> parsing_error option" where
  "fault mf n [] = None"
| "fault mf n (c # cs) =
     (if c = CHR ''{'' then
        (if take 1 cs = ''{'' then None
         else if CHR ''}'' \<notin> set cs then Some UnterminatedBrace
         else case resolve_field (takeWhile not_close cs) of
                Inl e \<Rightarrow> Some e
              | Inr fs \<Rightarrow> if mf \<le> n then Some TooManyFields else None)
      else if c = CHR ''}'' then
        (if take 1 cs = ''}'' then None else Some UnmatchedClosingBrace)
      else None)"

definition overflows :: "nat \<Rightarrow> nat \<Rightarrow> token list \<Rightarrow> token \<Rightarrow> bool" where
  "overflows mf ml ts t \<longleftrightarrow> token_good t \<and> length (pp_fields (pattern_of (ts @ [t]))) \<le> mf \<and>
     ml < length (pp_fmt_str (pattern_of (ts @ [t])))"

lemma pattern_of_simps [simp]:
  "pp_error (pattern_of ts) = E_None" "pattern_of [] = empty_pattern"
  "pp_fmt_str (pattern_of ts) = concat (map token_fmt ts)"
  "pp_fields (pattern_of ts) = map fst (concat (map token_fields ts))"
  "pp_specs (pattern_of ts) = map snd (concat (map token_fields ts))"
  by (simp_all add: pattern_of_def empty_pattern_def)

lemma text_of_simps [simp]:
  "text_of [] = []" "text_of (t # ts) = token_text t @ text_of ts"
  "text_of (ts @ us) = text_of ts @ text_of us"
  by (simp_all add: text_of_def)

lemma resolve_field_error: "resolve_field s = Inl e \<Longrightarrow> e \<noteq> E_None"
  by (auto simp: resolve_field_def split: if_splits option.splits prod.splits)

section \<open>The lexer is unambiguous\<close>

lemma lex_field:
  assumes "CHR ''}'' \<notin> set s" and "take 1 s \<noteq> ''{''"
  shows "lex (CHR ''{'' # s @ CHR ''}'' # rest) = (case lex rest of (ts, e) \<Rightarrow> (T_Field s # ts, e))"
proof -
  have "take 1 (s @ CHR ''}'' # rest) \<noteq> ''{''" using assms(2) by (cases s) auto
  moreover have "takeWhile not_close (s @ CHR ''}'' # rest) = s"
    and "dropWhile not_close (s @ CHR ''}'' # rest) = CHR ''}'' # rest"
    using assms(1) by (auto simp: takeWhile_append dropWhile_append)
  ultimately show ?thesis by (simp add: lex.simps Let_def)
qed

lemma lex_token: "token_ok t \<Longrightarrow> lex (token_text t @ rest) = (case lex rest of (ts, e) \<Rightarrow> (t # ts, e))"
proof (cases t)
  case (T_Field s)
  moreover assume "token_ok t"
  ultimately show ?thesis using lex_field [of s rest] by simp
qed (simp_all add: lex.simps Let_def)

lemma lex_text:
  "list_all token_ok ts \<Longrightarrow> lex (text_of ts @ rest) = (case lex rest of (us, e) \<Rightarrow> (ts @ us, e))"
  by (induction ts) (auto simp: lex_token split: prod.splits)

fun tail_error :: "string \<Rightarrow> parsing_error \<Rightarrow> bool" where
  "tail_error [] e \<longleftrightarrow> e = E_None"
| "tail_error (c # cs) e \<longleftrightarrow>
     (c = CHR ''{'' \<and> take 1 cs \<noteq> ''{'' \<and> CHR ''}'' \<notin> set cs \<and> e = UnterminatedBrace) \<or>
     (c = CHR ''}'' \<and> take 1 cs \<noteq> ''}'' \<and> e = UnmatchedClosingBrace)"

lemma split_at_close:
  "CHR ''}'' \<in> set cs \<Longrightarrow>
     cs = takeWhile not_close cs @ CHR ''}'' # drop 1 (dropWhile not_close cs)"
  by (induction cs) auto

lemma lex_sound:
  "lex pat = (ts, e) \<Longrightarrow>
     list_all token_ok ts \<and> (\<exists>rest. pat = text_of ts @ rest \<and> tail_error rest e)"
proof (induction pat arbitrary: ts e rule: lex.induct)
  case 1
  then show ?case by (auto simp: lex.simps)
next
  case (2 c cs)
  consider (open2) "c = CHR ''{''" "take 1 cs = ''{''"
    | (unterminated) "c = CHR ''{''" "take 1 cs \<noteq> ''{''" "CHR ''}'' \<notin> set cs"
    | (field) "c = CHR ''{''" "take 1 cs \<noteq> ''{''" "CHR ''}'' \<in> set cs"
    | (close2) "c = CHR ''}''" "take 1 cs = ''}''"
    | (close1) "c = CHR ''}''" "take 1 cs \<noteq> ''}''"
    | (plain) "c \<noteq> CHR ''{''" "c \<noteq> CHR ''}''"
    by blast
  then show ?case
  proof cases
    case open2
    obtain us where us: "lex (drop 1 cs) = (us, e)" "ts = T_Open # us"
      using 2(5) open2 by (auto simp: lex.simps Let_def split: prod.splits)
    have "cs = CHR ''{'' # drop 1 cs" using open2(2) by (cases cs) auto
    then show ?thesis using 2(1) [OF open2 us(1)] us(2) open2(1) by auto
  next
    case unterminated
    then show ?thesis using 2(5) by (auto simp: lex.simps)
  next
    case field
    obtain us where us: "lex (drop 1 (dropWhile not_close cs)) = (us, e)"
        "ts = T_Field (takeWhile not_close cs) # us"
      using 2(5) field by (auto simp: lex.simps Let_def split: prod.splits)
    note cs = split_at_close [OF field(3)]
    have ok: "token_ok (T_Field (takeWhile not_close cs))"
      using field(2) by (cases cs) (auto dest: set_takeWhileD)
    obtain rest where "list_all token_ok us"
        "drop 1 (dropWhile not_close cs) = text_of us @ rest" "tail_error rest e"
      using 2(2) [OF field(1,2) _ us(1)] field(3) by blast
    then have "list_all token_ok ts" "c # cs = text_of ts @ rest"
      using ok us(2) field(1) arg_cong [OF cs, of "(#) c"] by simp_all
    with \<open>tail_error rest e\<close> show ?thesis by blast
  next
    case close2
    obtain us where us: "lex (drop 1 cs) = (us, e)" "ts = T_Close # us"
      using 2(5) close2 by (auto simp: lex.simps Let_def split: prod.splits)
    have "cs = CHR ''}'' # drop 1 cs" using close2(2) by (cases cs) auto
    then show ?thesis using 2(3) [OF _ close2 us(1)] us(2) close2(1) by auto
  next
    case close1
    then show ?thesis using 2(5) by (auto simp: lex.simps)
  next
    case plain
    obtain us where us: "lex cs = (us, e)" "ts = T_Char c # us"
      using 2(5) plain by (auto simp: lex.simps Let_def split: prod.splits)
    then show ?thesis using 2(4) [OF plain us(1)] plain by auto
  qed
qed

section \<open>Interpreting tokens\<close>

lemma push_chars_eq:
  "length (pp_fmt_str r) + length cs \<le> ml \<Longrightarrow>
     push_chars ml cs r = Some (r\<lparr>pp_fmt_str := pp_fmt_str r @ cs\<rparr>)"
proof (induction cs arbitrary: r)
  case (Cons c cs)
  then show ?case by (simp add: push_char_def)
qed simp

lemma push_chars_full:
  "length (pp_fmt_str r) \<le> ml \<Longrightarrow> ml < length (pp_fmt_str r) + length cs \<Longrightarrow> push_chars ml cs r = None"
proof (induction cs arbitrary: r)
  case (Cons c cs)
  show ?case
  proof (cases "length (pp_fmt_str r) < ml")
    case True
    then show ?thesis using Cons.prems Cons.IH by (simp add: push_char_def)
  next
    case False
    then show ?thesis by (simp add: push_char_def)
  qed
qed simp

lemma pattern_of_snoc:
  "pattern_of (ts @ [t]) = (pattern_of ts)
     \<lparr>pp_fmt_str := pp_fmt_str (pattern_of ts) @ token_fmt t,
      pp_fields := pp_fields (pattern_of ts) @ map fst (token_fields t),
      pp_specs := pp_specs (pattern_of ts) @ map snd (token_fields t)\<rparr>"
  by (simp add: pattern_of_def)

lemma token_good_field:
  assumes "token_good (T_Field s)"
  obtains f sp where "resolve_field s = Inr (f, sp)" "token_fields (T_Field s) = [(f, sp)]"
    "token_fmt (T_Field s) = spec_expansion sp"
  using assms that by (cases "resolve_field s") (auto simp: token_good_def)

lemma interpret_good_token:
  assumes good: "token_good t" and fields: "length (pp_fields (pattern_of (ts @ [t]))) \<le> mf"
    and fits: "length (pp_fmt_str (pattern_of (ts @ [t]))) \<le> ml"
  shows "interpret_tokens mf ml (t # us) e (pattern_of ts) = interpret_tokens mf ml us e (pattern_of (ts @ [t]))"
proof (cases t)
  case (T_Field s)
  obtain f sp where f: "resolve_field s = Inr (f, sp)" "token_fields (T_Field s) = [(f, sp)]"
      "token_fmt (T_Field s) = spec_expansion sp"
    using token_good_field good unfolding T_Field .
  have "\<not> mf \<le> length (pp_fields (pattern_of ts))"
    using fields f(2) by (simp add: T_Field del: token_fields.simps)
  moreover have "push_field mf ml f sp (pattern_of ts) = Some (pattern_of (ts @ [T_Field s]))"
    unfolding push_field_def expand_spec_into_result_def
    using fits f(3)
    by (subst push_chars_eq)
      (simp_all add: T_Field pattern_of_def f(2) del: token_fields.simps token_fmt.simps)
  ultimately show ?thesis unfolding T_Field by (simp only: interpret_tokens.simps f(1) sum.case prod.case if_False option.case)
qed (use fits in \<open>simp_all add: push_chars_eq pattern_of_def del: push_chars.simps\<close>)

lemma interpret_overflow:
  assumes over: "overflows mf ml ts t" and fits: "length (pp_fmt_str (pattern_of ts)) \<le> ml"
  shows "interpret_tokens mf ml (t # us) e (pattern_of ts) = None"
proof (cases t)
  case (T_Field s)
  obtain f sp where f: "resolve_field s = Inr (f, sp)" "token_fields (T_Field s) = [(f, sp)]"
      "token_fmt (T_Field s) = spec_expansion sp"
    using token_good_field over unfolding T_Field overflows_def by blast
  have "\<not> mf \<le> length (pp_fields (pattern_of ts))"
    using over f(2) by (simp add: overflows_def T_Field del: token_fields.simps)
  moreover have "push_field mf ml f sp (pattern_of ts) = None"
    unfolding push_field_def expand_spec_into_result_def
    using over fits f(3)
    by (intro push_chars_full) (simp_all add: overflows_def T_Field del: token_fields.simps token_fmt.simps)
  ultimately show ?thesis unfolding T_Field by (simp only: interpret_tokens.simps f(1) sum.case prod.case if_False option.case)
qed (use over fits in \<open>simp_all add: overflows_def push_chars_full del: push_chars.simps\<close>)

lemma accepted_snoc:
  "accepted mf ml (ts @ [t]) \<longleftrightarrow> accepted mf ml ts \<and> token_good t \<and>
     length (pp_fields (pattern_of (ts @ [t]))) \<le> mf \<and> length (pp_fmt_str (pattern_of (ts @ [t]))) \<le> ml"
  by (auto simp: accepted_def)

lemma accepted_Nil [simp]: "accepted mf ml []"
  by (simp add: accepted_def empty_pattern_def)

lemma interpret_accepted:
  "accepted mf ml ts \<Longrightarrow> interpret_tokens mf ml (ts @ us) e empty_pattern = interpret_tokens mf ml us e (pattern_of ts)"
proof (induction ts arbitrary: us rule: rev_induct)
  case (snoc t ts)
  then show ?case
    using interpret_good_token [of t ts mf ml us e] by (simp add: accepted_snoc del: pattern_of_simps(3,4))
qed simp

lemma accepted_ok: "accepted mf ml ts \<Longrightarrow> list_all token_ok ts"
  by (auto simp: accepted_def token_good_def list_all_iff)

lemma parse_pattern_lex:
  "parse_pattern mf ml pat = (case lex pat of (ts, e) \<Rightarrow> interpret_tokens mf ml ts e empty_pattern)"
  using parse_loop_interprets [of 0 pat empty_pattern mf ml]
  by (simp add: parse_pattern_def empty_pattern_def)

lemma parse_prefix:
  assumes "accepted mf ml ts"
  shows "parse_pattern mf ml (text_of ts @ rest) =
    (case lex rest of (us, e) \<Rightarrow> interpret_tokens mf ml us e (pattern_of ts))"
  unfolding parse_pattern_lex lex_text [OF accepted_ok [OF assms]]
  using interpret_accepted [OF assms] by (simp split: prod.split)

lemma fault_interpret:
  assumes "fault mf (length (pp_fields r)) rest = Some e" and "pp_error r = E_None"
  shows "(case lex rest of (us, e') \<Rightarrow> interpret_tokens mf ml us e' r) = Some (r\<lparr>pp_error := e\<rparr>)"
  using assms
  by (cases rest)
    (auto simp: lex.simps Let_def split: if_splits sum.splits prod.splits)

section \<open>The three outcomes\<close>

lemma parse_accepted: "accepted mf ml ts \<Longrightarrow> parse_pattern mf ml (text_of ts) = Some (pattern_of ts)"
  using parse_prefix [of mf ml ts "[]"] by (simp add: lex.simps)

lemma parse_fault:
  assumes "accepted mf ml ts" and "fault mf (length (pp_fields (pattern_of ts))) rest = Some e"
  shows "parse_pattern mf ml (text_of ts @ rest) = Some ((pattern_of ts)\<lparr>pp_error := e\<rparr>)"
  unfolding parse_prefix [OF assms(1)] by (rule fault_interpret) (use assms(2) in simp_all)

lemma parse_overflow:
  assumes "accepted mf ml ts" and "overflows mf ml ts t"
  shows "parse_pattern mf ml (text_of ts @ token_text t @ rest) = None"
proof -
  have "token_ok t" using assms(2) by (simp add: overflows_def token_good_def)
  moreover have "length (pp_fmt_str (pattern_of ts)) \<le> ml" using assms(1) by (simp add: accepted_def)
  ultimately show ?thesis
    unfolding parse_prefix [OF assms(1)] using interpret_overflow [OF assms(2)]
    by (simp add: lex_token split: prod.split)
qed

lemma fault_token:
  assumes ok: "token_ok t" and bad: "\<not> (token_resolves t \<and> n + length (token_fields t) \<le> mf)"
    and n: "n \<le> mf"
  shows "\<exists>e. fault mf n (token_text t @ rest) = Some e"
proof (cases t)
  case (T_Field s)
  have s: "CHR ''}'' \<notin> set s" "take 1 s \<noteq> ''{''" using ok T_Field by auto
  have body: "take 1 (s @ CHR ''}'' # rest) \<noteq> ''{''" using s(2) by (cases s) auto
  have name: "takeWhile not_close (s @ CHR ''}'' # rest) = s" using s(1) by (auto simp: takeWhile_append)
  show ?thesis using bad body name unfolding T_Field by (auto split: sum.splits)
qed (use bad n in simp_all)

lemma tail_fault: "tail_error rest e \<Longrightarrow> rest \<noteq> [] \<Longrightarrow> fault mf n rest = Some e"
  by (cases rest) auto

lemma accepted_prefix:
  "accepted mf ml ts \<or> (\<exists>as t bs. ts = as @ t # bs \<and> accepted mf ml as \<and> \<not> accepted mf ml (as @ [t]))"
proof (induction ts rule: rev_induct)
  case (snoc t ts)
  then show ?case
  proof (elim disjE exE conjE)
    fix as u bs assume "ts = as @ u # bs" "accepted mf ml as" "\<not> accepted mf ml (as @ [u])"
    then have "ts @ [t] = as @ u # (bs @ [t]) \<and> accepted mf ml as \<and> \<not> accepted mf ml (as @ [u])" by simp
    then show ?thesis by blast
  qed blast
qed simp

lemma parse_cases:
  obtains (accept) ts where "accepted mf ml ts" "pat = text_of ts"
  | (reject) ts rest e where "accepted mf ml ts" "pat = text_of ts @ rest"
      "fault mf (length (pp_fields (pattern_of ts))) rest = Some e"
  | (refuse) ts t rest where "accepted mf ml ts" "pat = text_of ts @ token_text t @ rest"
      "overflows mf ml ts t"
proof -
  obtain ts e where lexed: "lex pat = (ts, e)" by fastforce
  obtain rest where ok: "list_all token_ok ts" and pat: "pat = text_of ts @ rest" and tail: "tail_error rest e"
    using lex_sound [OF lexed] by blast
  show ?thesis
  proof (cases "accepted mf ml ts")
    case True
    then show ?thesis
      using accept [OF True] reject [OF True pat tail_fault [OF tail]] pat by (cases "rest = []") auto
  next
    case False
    then obtain as t bs where ts: "ts = as @ t # bs" and good: "accepted mf ml as"
      and bad: "\<not> accepted mf ml (as @ [t])"
      using accepted_prefix [of mf ml ts] by blast
    have t: "token_ok t" using ok ts by simp
    have pat': "pat = text_of as @ token_text t @ (text_of bs @ rest)" using pat ts by simp
    let ?n = "length (pp_fields (pattern_of as))"
    have n: "?n \<le> mf" using good unfolding accepted_def by blast
    show ?thesis
    proof (cases "token_resolves t \<and> ?n + length (token_fields t) \<le> mf")
      case True
      then have "overflows mf ml as t"
        using bad good t unfolding overflows_def accepted_snoc token_good_def by simp
      then show ?thesis by (rule refuse [OF good pat'])
    next
      case False
      obtain err where "fault mf ?n (token_text t @ text_of bs @ rest) = Some err"
        using fault_token [OF t False n] by blast
      then show ?thesis by (rule reject [OF good pat'])
    qed
  qed
qed

lemma fault_is_error: "fault mf n rest = Some e \<Longrightarrow> e \<noteq> E_None"
  by (cases rest) (auto split: if_splits sum.splits dest: resolve_field_error)

section \<open>Properties\<close>


text \<open>C26. Every rejected pattern is reported with the error of its first fault: the parser returns an
  error exactly when the pattern is an accepted prefix followed by text that starts with that fault,
  and the result then keeps the format string and the fields of the prefix.\<close>
theorem parse_pattern_rejects:
  "(parse_pattern mf ml pat = Some r \<and> pp_error r \<noteq> E_None) \<longleftrightarrow>
     (\<exists>ts rest e. accepted mf ml ts \<and> pat = text_of ts @ rest \<and>
        fault mf (length (pp_fields (pattern_of ts))) rest = Some e \<and>
        r = (pattern_of ts)\<lparr>pp_error := e\<rparr>)"
proof
  assume parsed: "parse_pattern mf ml pat = Some r \<and> pp_error r \<noteq> E_None"
  show "\<exists>ts rest e. accepted mf ml ts \<and> pat = text_of ts @ rest \<and>
      fault mf (length (pp_fields (pattern_of ts))) rest = Some e \<and> r = (pattern_of ts)\<lparr>pp_error := e\<rparr>"
  proof (cases mf ml pat rule: parse_cases)
    case (accept ts)
    then show ?thesis using parsed parse_accepted by auto
  next
    case (reject ts rest e)
    then show ?thesis using parsed parse_fault [OF reject(1,3)] by auto
  next
    case (refuse ts t rest)
    then show ?thesis using parsed parse_overflow by auto
  qed
qed (auto simp: parse_fault dest: fault_is_error)

text \<open>C33. A pattern fails to compile for want of buffer space exactly when some accepted prefix is
  followed by a token whose expansion does not fit into the format buffer any more: no character is
  ever stored outside \<open>fmt_str\<close>.\<close>
theorem parse_pattern_overflow:
  "parse_pattern mf ml pat = None \<longleftrightarrow>
     (\<exists>ts t rest. accepted mf ml ts \<and> overflows mf ml ts t \<and> pat = text_of ts @ token_text t @ rest)"
proof
  assume parsed: "parse_pattern mf ml pat = None"
  show "\<exists>ts t rest. accepted mf ml ts \<and> overflows mf ml ts t \<and> pat = text_of ts @ token_text t @ rest"
  proof (cases mf ml pat rule: parse_cases)
    case (accept ts)
    then show ?thesis using parsed parse_accepted by auto
  next
    case (reject ts rest e)
    then show ?thesis using parsed parse_fault [OF reject(1,3)] by auto
  next
    case (refuse ts t rest)
    then show ?thesis by blast
  qed
qed (auto simp: parse_overflow)

section \<open>Concrete patterns\<close>

definition default_tokens :: "token list" where
  "default_tokens =
     [T_Char CHR ''['', T_Field ''time:HMSf'', T_Char CHR '']'', T_Char CHR '' '', T_Char CHR ''('',
      T_Field ''level'', T_Char CHR '')'', T_Char CHR '' '', T_Char CHR ''('',
      T_Field ''file:nameonly'', T_Char CHR '':'', T_Field ''line'', T_Char CHR '')'', T_Char CHR '' '',
      T_Field ''message'']"

lemma default_pattern_text:
  "text_of default_tokens = ''[{time:HMSf}] ({level}) ({file:nameonly}:{line}) {message}''"
  by (simp add: default_tokens_def)

lemma default_pattern_of:
  "pattern_of default_tokens =
     \<lparr>pp_error = E_None, pp_fmt_str = ''[{}.{:06}] ({}) ({}:{}) {}'',
      pp_fields = [F_Time, F_Level, F_File, F_Line, F_Message],
      pp_specs = [S_TimeHMSf, S_None, S_FileNameOnly, S_None, S_None]\<rparr>"
  by code_simp

lemma default_pattern_accepted: "accepted 16 1000 default_tokens"
  by code_simp

lemma default_pattern_parses:
  "parse_pattern 16 1000 ''[{time:HMSf}] ({level}) ({file:nameonly}:{line}) {message}'' =
     Some (pattern_of default_tokens)"
  using parse_accepted [OF default_pattern_accepted] by (simp only: default_pattern_text)

lemma parse_errors:
  "fault 16 0 ''{time'' = Some UnterminatedBrace" "fault 16 0 ''{}x'' = Some EmptyFieldName"
  "fault 16 0 ''{tme}'' = Some UnknownFieldName" "fault 16 0 ''{time:HM}'' = Some UnknownFormatSpec"
  "fault 16 0 ''{file:HMS}'' = Some InvalidSpecUsage" "fault 1 1 ''{m}'' = Some TooManyFields"
  "fault 16 0 ''} '' = Some UnmatchedClosingBrace"
  by code_simp+

end
