(* ===== verification/Pattern_Format.thy ===== *)
theory Pattern_Format
  imports Pattern_Grammar Level "HOL-Library.Signed_Division"
begin

text \<open>
  The run-time half of \<open>include/papper/detail/pattern.h\<close>: picking the fields of an event, turning
  them into arguments for \<open>fmt\<close> (with the cached clock text of \<open>process_time_arg\<close>) and formatting.

  \<open>fmt\<close> is third-party code and a parameter: \<open>hms\<close> is what \<open>{:%H:%M:%S}\<close> prints for a whole number
  of seconds, \<open>vformat\<close> is \<open>fmt::vformat\<close>. Times are nanoseconds since the epoch; the subsecond
  parts are converted to 64 bit unsigned words as the code does.
\<close>

record pattern_data =
  pd_level :: u8
  pd_thread_name :: string
  pd_timestamp :: int
  pd_filename :: string
  pd_functionname :: string
  pd_linenumber :: u32
  pd_message :: string

datatype fmt_arg = A_Str string | A_U64 u64 | A_U32 u32 | A_Time int

fun get_field :: "pattern_field \<Rightarrow> pattern_data \<Rightarrow> fmt_arg" where
  "get_field F_Level d = A_Str (level_to_name (pd_level d))"
| "get_field F_Time d = A_Time (pd_timestamp d)"
| "get_field F_File d = A_Str (pd_filename d)"
| "get_field F_Function d = A_Str (pd_functionname d)"
| "get_field F_Line d = A_U32 (pd_linenumber d)"
| "get_field F_Message d = A_Str (pd_message d)"
| "get_field F_ThreadName d = A_Str (pd_thread_name d)"

section \<open>The clock text and its cache\<close>

text \<open>The two function-level statics of one instance of \<open>process_time_arg<Spec>\<close>; there is one pair
  per spec, shared by all formatters.\<close>

record hms_cache =
  HMS_part :: string
  last_update :: int

type_synonym hms_caches = "format_spec \<Rightarrow> hms_cache"

definition initial_caches :: hms_caches where
  "initial_caches = (\<lambda>spec. \<lparr>HMS_part = '''', last_update = -1\<rparr>)"

definition ns_per_s :: int where "ns_per_s = 1000000000"

definition floor_to_seconds :: "int \<Rightarrow> int" where
  "floor_to_seconds arg = arg div ns_per_s"

definition update_hms :: "(int \<Rightarrow> string) \<Rightarrow> int \<Rightarrow> hms_cache \<Rightarrow> hms_cache" where
  "update_hms hms arg_s c =
     (if arg_s \<noteq> last_update c then \<lparr>HMS_part = hms arg_s, last_update = arg_s\<rparr> else c)"

definition us_part :: "int \<Rightarrow> u64" where
  "us_part arg = word_of_int ((arg smod ns_per_s) div 1000)"

definition ns_part :: "int \<Rightarrow> u64" where
  "ns_part arg = word_of_int (arg smod ns_per_s)"

fun process_time_arg ::
  "(int \<Rightarrow> string) \<Rightarrow> format_spec \<Rightarrow> int \<Rightarrow> hms_caches \<Rightarrow> fmt_arg list \<times> hms_caches"
where
  "process_time_arg hms spec arg cs =
     (let c = update_hms hms (floor_to_seconds arg) (cs spec);
          args = (case spec of
                    S_TimeHMS \<Rightarrow> [A_Str (HMS_part c)]
                  | S_TimeHMSf \<Rightarrow> [A_Str (HMS_part c), A_U64 (us_part arg)]
                  | S_TimeHMSF \<Rightarrow> [A_Str (HMS_part c), A_U64 (ns_part arg)]
                  | _ \<Rightarrow> [])
      in (args, cs(spec := c)))"

fun find_last_of :: "char list \<Rightarrow> string \<Rightarrow> nat option" where
  "find_last_of seps [] = None"
| "find_last_of seps (c # s) =
     (case find_last_of seps s of
        Some i \<Rightarrow> Some (Suc i)
      | None \<Rightarrow> if c \<in> set seps then Some 0 else None)"

abbreviation separators :: "char list" where
  "separators \<equiv> [CHR ''/'', CHR 0x5C]"

text \<open>\<open>npos + 1\<close> is 0: a path without a separator is kept whole.\<close>

definition file_name_only :: "string \<Rightarrow> string" where
  "file_name_only path =
     drop (case find_last_of separators path of None \<Rightarrow> 0 | Some i \<Rightarrow> i + 1) path"

text \<open>Which spec may meet which argument is settled at compile time by
  \<open>validate_field_spec_combination\<close>; the other combinations do not compile.\<close>

fun expand_and_process_format_arg ::
  "(int \<Rightarrow> string) \<Rightarrow> format_spec \<Rightarrow> fmt_arg \<Rightarrow> hms_caches \<Rightarrow> fmt_arg list \<times> hms_caches"
where
  "expand_and_process_format_arg hms S_None arg cs = ([arg], cs)"
| "expand_and_process_format_arg hms S_TimeHMS (A_Time t) cs = process_time_arg hms S_TimeHMS t cs"
| "expand_and_process_format_arg hms S_TimeHMSf (A_Time t) cs = process_time_arg hms S_TimeHMSf t cs"
| "expand_and_process_format_arg hms S_TimeHMSF (A_Time t) cs = process_time_arg hms S_TimeHMSF t cs"
| "expand_and_process_format_arg hms S_FileNameOnly (A_Str path) cs = ([A_Str (file_name_only path)], cs)"
| "expand_and_process_format_arg hms spec arg cs = ([], cs)"

fun format_args ::
  "(int \<Rightarrow> string) \<Rightarrow> (pattern_field \<times> format_spec) list \<Rightarrow> pattern_data \<Rightarrow> hms_caches \<Rightarrow>
   fmt_arg list \<times> hms_caches"
where
  "format_args hms [] d cs = ([], cs)"
| "format_args hms ((f, sp) # fs) d cs =
     (let (args, cs1) = expand_and_process_format_arg hms sp (get_field f d) cs;
          (rest, cs2) = format_args hms fs d cs1
      in (args @ rest, cs2))"

definition format_impl ::
  "(int \<Rightarrow> string) \<Rightarrow> (string \<Rightarrow> fmt_arg list \<Rightarrow> string option) \<Rightarrow> parsed_pattern \<Rightarrow> pattern_data \<Rightarrow>
   hms_caches \<Rightarrow> string option \<times> hms_caches"
where
  "format_impl hms vformat p d cs =
     (let (args, cs') = format_args hms (zip (pp_fields p) (pp_specs p)) d cs
      in (vformat (pp_fmt_str p) args, cs'))"

section \<open>The cache is invisible\<close>

text \<open>The arguments as they would be without a cache.\<close>

fun pure_args :: "(int \<Rightarrow> string) \<Rightarrow> pattern_field \<times> format_spec \<Rightarrow> pattern_data \<Rightarrow> fmt_arg list" where
  "pure_args hms (F_Time, S_TimeHMS) d = [A_Str (hms (pd_timestamp d div ns_per_s))]"
| "pure_args hms (F_Time, S_TimeHMSf) d =
     [A_Str (hms (pd_timestamp d div ns_per_s)), A_U64 (us_part (pd_timestamp d))]"
| "pure_args hms (F_Time, S_TimeHMSF) d =
     [A_Str (hms (pd_timestamp d div ns_per_s)), A_U64 (ns_part (pd_timestamp d))]"
| "pure_args hms (F_File, S_FileNameOnly) d = [A_Str (file_name_only (pd_filename d))]"
| "pure_args hms (f, sp) d = [get_field f d]"

definition cache_ok :: "(int \<Rightarrow> string) \<Rightarrow> hms_cache \<Rightarrow> bool" where
  "cache_ok hms c \<longleftrightarrow> last_update c = -1 \<or> HMS_part c = hms (last_update c)"

definition caches_ok :: "(int \<Rightarrow> string) \<Rightarrow> hms_caches \<Rightarrow> bool" where
  "caches_ok hms cs \<longleftrightarrow>
     cache_ok hms (cs S_TimeHMS) \<and> cache_ok hms (cs S_TimeHMSf) \<and> cache_ok hms (cs S_TimeHMSF)"

lemma initial_caches_ok [simp]: "caches_ok hms initial_caches"
  by (simp add: caches_ok_def cache_ok_def initial_caches_def)

lemma update_hms_ok:
  assumes "cache_ok hms c" and "s \<noteq> -1"
  shows "HMS_part (update_hms hms s c) = hms s" and "cache_ok hms (update_hms hms s c)"
  using assms by (auto simp: update_hms_def cache_ok_def)

lemma expand_pure:
  assumes "validate_field_spec_combination f sp" and "caches_ok hms cs"
    and "pd_timestamp d div ns_per_s \<noteq> -1"
  shows "fst (expand_and_process_format_arg hms sp (get_field f d) cs) = pure_args hms (f, sp) d"
    and "caches_ok hms (snd (expand_and_process_format_arg hms sp (get_field f d) cs))"
  using assms update_hms_ok
  by (cases f; cases sp; simp add: validate_field_spec_combination_def caches_ok_def floor_to_seconds_def Let_def)+

definition fields_valid :: "(pattern_field \<times> format_spec) list \<Rightarrow> bool" where
  "fields_valid fs = list_all (\<lambda>(f, sp). validate_field_spec_combination f sp) fs"

lemma format_args_pure:
  assumes "fields_valid fs" and "caches_ok hms cs" and "pd_timestamp d div ns_per_s \<noteq> -1"
  shows "fst (format_args hms fs d cs) = concat (map (\<lambda>x. pure_args hms x d) fs) \<and>
    caches_ok hms (snd (format_args hms fs d cs))"
  using assms(1,2)
proof (induction fs arbitrary: cs)
  case (Cons x fs)
  obtain f sp where x: "x = (f, sp)" by fastforce
  have v: "validate_field_spec_combination f sp" "fields_valid fs"
    using Cons.prems(1) by (simp_all add: fields_valid_def x)
  note pure = expand_pure [OF v(1) Cons.prems(2) assms(3)]
  show ?case
    using Cons.IH [OF v(2) pure(2)] pure(1) by (auto simp: x Let_def split: prod.split)
qed simp

lemma resolve_field_valid: "resolve_field s = Inr (f, sp) \<Longrightarrow> validate_field_spec_combination f sp"
  by (auto simp: resolve_field_def split: if_splits option.splits prod.splits)

lemma pattern_fields_valid: "fields_valid (concat (map token_fields ts))"
proof (induction ts)
  case (Cons t ts)
  have "fields_valid (token_fields t)"
    by (cases t) (auto simp: fields_valid_def resolve_field_valid split: sum.split)
  then show ?case using Cons by (simp add: fields_valid_def)
qed (simp add: fields_valid_def)

lemma zip_pattern_fields: "zip (pp_fields (pattern_of ts)) (pp_specs (pattern_of ts)) = concat (map token_fields ts)"
  by (simp add: zip_map_fst_snd)

section \<open>File names\<close>

lemma find_last_of_None: "find_last_of seps s = None \<longleftrightarrow> (\<forall>c \<in> set s. c \<notin> set seps)"
  by (induction s) (auto split: option.split)

lemma find_last_of_split:
  "find_last_of seps (dir @ sep # name) = Some (length dir)"
  if "sep \<in> set seps" and "\<forall>c \<in> set name. c \<notin> set seps"
proof (induction dir)
  case Nil
  then show ?case using that find_last_of_None [of seps name] by simp
qed simp

lemma file_name_only_bare: "\<forall>c \<in> set name. c \<notin> set separators \<Longrightarrow> file_name_only name = name"
  using find_last_of_None [of separators name] by (simp add: file_name_only_def)

section \<open>What fmt promises\<close>

datatype piece = P_Lit char | P_Open | P_Close | P_Arg | P_Pad nat

fun piece_text :: "piece \<Rightarrow> string" where
  "piece_text (P_Lit c) = [c]"
| "piece_text P_Open = ''{{''"
| "piece_text P_Close = ''}}''"
| "piece_text P_Arg = ''{}''"
| "piece_text (P_Pad w) = ''{:0'' @ [digit_char w] @ ''}''"

text \<open>The pieces of a format string match an argument list: literals are no braces, every
  replacement field has an argument, and a padded field an unsigned one.\<close>

fun pieces_match :: "piece list \<Rightarrow> fmt_arg list \<Rightarrow> bool" where
  "pieces_match [] args \<longleftrightarrow> args = []"
| "pieces_match (P_Lit c # ps) args \<longleftrightarrow> c \<noteq> CHR ''{'' \<and> c \<noteq> CHR ''}'' \<and> pieces_match ps args"
| "pieces_match (P_Open # ps) args \<longleftrightarrow> pieces_match ps args"
| "pieces_match (P_Close # ps) args \<longleftrightarrow> pieces_match ps args"
| "pieces_match (P_Arg # ps) [] \<longleftrightarrow> False"
| "pieces_match (P_Arg # ps) (a # args) \<longleftrightarrow> pieces_match ps args"
| "pieces_match (P_Pad w # ps) (A_U64 n # args) \<longleftrightarrow> 0 < w \<and> w < 10 \<and> pieces_match ps args"
| "pieces_match (P_Pad w # ps) args \<longleftrightarrow> False"

definition zero_pad :: "nat \<Rightarrow> string \<Rightarrow> string" where
  "zero_pad w s = replicate (w - length s) (CHR ''0'') @ s"

fun render :: "(fmt_arg \<Rightarrow> string) \<Rightarrow> piece list \<Rightarrow> fmt_arg list \<Rightarrow> string" where
  "render sh [] args = []"
| "render sh (P_Lit c # ps) args = c # render sh ps args"
| "render sh (P_Open # ps) args = CHR ''{'' # render sh ps args"
| "render sh (P_Close # ps) args = CHR ''}'' # render sh ps args"
| "render sh (P_Arg # ps) (a # args) = sh a @ render sh ps args"
| "render sh (P_Pad w # ps) (a # args) = zero_pad w (sh a) @ render sh ps args"
| "render sh (p # ps) [] = []"

text \<open>The documented behaviour of \<open>fmt::vformat\<close> on the format strings the parser builds: replacement
  fields take the arguments in order, \<open>{:0w}\<close> pads a number with zeros to width \<open>w\<close>, doubled braces
  stand for one. \<open>sh\<close> is the default formatting of one argument.\<close>

definition fmt_renders :: "(fmt_arg \<Rightarrow> string) \<Rightarrow> (string \<Rightarrow> fmt_arg list \<Rightarrow> string option) \<Rightarrow> bool" where
  "fmt_renders sh vformat \<longleftrightarrow>
     (\<forall>ps args. pieces_match ps args \<longrightarrow>
        vformat (concat (map piece_text ps)) args = Some (render sh ps args))"

section \<open>What a pattern prints\<close>

text \<open>The text of one field, as the documentation of the patterns has it.\<close>

fun field_out :: "(int \<Rightarrow> string) \<Rightarrow> (fmt_arg \<Rightarrow> string) \<Rightarrow> pattern_data \<Rightarrow> pattern_field \<times> format_spec \<Rightarrow> string"
where
  "field_out hms sh d (F_Time, S_TimeHMS) = sh (A_Str (hms (pd_timestamp d div ns_per_s)))"
| "field_out hms sh d (F_Time, S_TimeHMSf) =
     sh (A_Str (hms (pd_timestamp d div ns_per_s))) @ ''.'' @
     zero_pad 6 (sh (A_U64 (us_part (pd_timestamp d))))"
| "field_out hms sh d (F_Time, S_TimeHMSF) =
     sh (A_Str (hms (pd_timestamp d div ns_per_s))) @ ''.'' @
     zero_pad 9 (sh (A_U64 (ns_part (pd_timestamp d))))"
| "field_out hms sh d (F_File, S_FileNameOnly) = sh (A_Str (file_name_only (pd_filename d)))"
| "field_out hms sh d (f, sp) = sh (get_field f d)"

fun token_out :: "(int \<Rightarrow> string) \<Rightarrow> (fmt_arg \<Rightarrow> string) \<Rightarrow> pattern_data \<Rightarrow> token \<Rightarrow> string" where
  "token_out hms sh d (T_Char c) = [c]"
| "token_out hms sh d T_Open = ''{''"
| "token_out hms sh d T_Close = ''}''"
| "token_out hms sh d (T_Field s) =
     (case resolve_field s of Inl e \<Rightarrow> [] | Inr fs \<Rightarrow> field_out hms sh d fs)"

fun spec_pieces :: "format_spec \<Rightarrow> piece list" where
  "spec_pieces S_None = [P_Arg]"
| "spec_pieces S_TimeHMS = [P_Arg]"
| "spec_pieces S_TimeHMSf = [P_Arg, P_Lit (CHR ''.''), P_Pad 6]"
| "spec_pieces S_TimeHMSF = [P_Arg, P_Lit (CHR ''.''), P_Pad 9]"
| "spec_pieces S_FileNameOnly = [P_Arg]"

fun token_pieces :: "token \<Rightarrow> piece list" where
  "token_pieces (T_Char c) = [P_Lit c]"
| "token_pieces T_Open = [P_Open]"
| "token_pieces T_Close = [P_Close]"
| "token_pieces (T_Field s) =
     (case resolve_field s of Inl e \<Rightarrow> [] | Inr (f, sp) \<Rightarrow> spec_pieces sp)"

lemma digit_chars [simp]: "digit_char 6 = CHR ''6''" "digit_char 9 = CHR ''9''"
  by code_simp+

lemma spec_pieces_text: "concat (map piece_text (spec_pieces sp)) = spec_expansion sp"
  by (cases sp) simp_all

lemma token_pieces_text: "concat (map piece_text (token_pieces t)) = token_fmt t"
  by (cases t) (auto simp: spec_pieces_text split: sum.split)

lemma pieces_text: "concat (map piece_text (concat (map token_pieces ts))) = concat (map token_fmt ts)"
  by (induction ts) (simp_all add: token_pieces_text)

definition token_args :: "(int \<Rightarrow> string) \<Rightarrow> pattern_data \<Rightarrow> token \<Rightarrow> fmt_arg list" where
  "token_args hms d t = concat (map (\<lambda>x. pure_args hms x d) (token_fields t))"

lemma field_pieces:
  assumes "validate_field_spec_combination f sp"
  shows "pieces_match (spec_pieces sp @ ps) (pure_args hms (f, sp) d @ args) = pieces_match ps args"
    and "render sh (spec_pieces sp @ ps) (pure_args hms (f, sp) d @ args) =
      field_out hms sh d (f, sp) @ render sh ps args"
  using assms by (cases f; cases sp; simp add: validate_field_spec_combination_def)+

lemma token_pieces_render:
  assumes "token_good t"
  shows "pieces_match (token_pieces t @ ps) (token_args hms d t @ args) = pieces_match ps args"
    and "render sh (token_pieces t @ ps) (token_args hms d t @ args) = token_out hms sh d t @ render sh ps args"
proof -
  have "pieces_match (token_pieces t @ ps) (token_args hms d t @ args) = pieces_match ps args \<and>
    render sh (token_pieces t @ ps) (token_args hms d t @ args) = token_out hms sh d t @ render sh ps args"
  proof (cases t)
    case (T_Field s)
    obtain f sp where r: "resolve_field s = Inr (f, sp)"
      using token_good_field assms unfolding T_Field .
    show ?thesis
      using field_pieces [OF resolve_field_valid [OF r]] by (simp add: T_Field r token_args_def)
  qed (use assms in \<open>auto simp: token_args_def token_good_def\<close>)
  then show "pieces_match (token_pieces t @ ps) (token_args hms d t @ args) = pieces_match ps args"
    and "render sh (token_pieces t @ ps) (token_args hms d t @ args) = token_out hms sh d t @ render sh ps args"
    by blast+
qed

lemma tokens_render:
  assumes "list_all token_good ts"
  shows "pieces_match (concat (map token_pieces ts)) (concat (map (token_args hms d) ts)) \<and>
    render sh (concat (map token_pieces ts)) (concat (map (token_args hms d) ts)) =
      concat (map (token_out hms sh d) ts)"
  using assms by (induction ts) (simp_all add: token_pieces_render)

lemma token_args_fields:
  "concat (map (\<lambda>x. pure_args hms x d) (concat (map token_fields ts))) = concat (map (token_args hms d) ts)"
  by (induction ts) (simp_all add: token_args_def)

lemma format_accepted:
  assumes "fmt_renders sh vformat" and "accepted mf ml ts" and "caches_ok hms cs"
    and "pd_timestamp d div ns_per_s \<noteq> -1"
  shows "\<exists>cs'. format_impl hms vformat (pattern_of ts) d cs =
      (Some (concat (map (token_out hms sh d) ts)), cs') \<and> caches_ok hms cs'"
proof -
  have good: "list_all token_good ts" using assms(2) by (simp add: accepted_def)
  have args: "fst (format_args hms (concat (map token_fields ts)) d cs) = concat (map (token_args hms d) ts)"
      "caches_ok hms (snd (format_args hms (concat (map token_fields ts)) d cs))"
    using format_args_pure [OF pattern_fields_valid assms(3,4)] by (simp_all only: token_args_fields)
  have "vformat (concat (map token_fmt ts)) (concat (map (token_args hms d) ts)) =
      Some (concat (map (token_out hms sh d) ts))"
    using assms(1) tokens_render [OF good, of hms d sh]
    unfolding fmt_renders_def by (simp only: pieces_text [symmetric])
  then show ?thesis
    unfolding format_impl_def zip_pattern_fields using args by (simp add: case_prod_unfold)
qed

section \<open>An instance of the library's promise\<close>

text \<open>An executable formatter with the documented behaviour, to show that \<open>fmt_renders\<close> can hold and
  to run the model.\<close>

fun show_ref :: "fmt_arg \<Rightarrow> string" where
  "show_ref (A_Str s) = s"
| "show_ref (A_U64 n) = dec_string (unat n)"
| "show_ref (A_U32 n) = dec_string (unat n)"
| "show_ref (A_Time t) = (if t < 0 then ''-'' else '''') @ dec_string (nat \<bar>t\<bar>)"

definition two_digits :: "int \<Rightarrow> string" where
  "two_digits n = zero_pad 2 (dec_string (nat n))"

definition hms_ref :: "int \<Rightarrow> string" where
  "hms_ref s = (let t = s mod 86400
     in two_digits (t div 3600) @ '':'' @ two_digits (t div 60 mod 60) @ '':'' @ two_digits (t mod 60))"

function vformat_ref :: "string \<Rightarrow> fmt_arg list \<Rightarrow> string option" where
  "vformat_ref [] args = Some []"
| "vformat_ref (c # cs) args =
     (if c = CHR ''{'' then
        (if take 1 cs = ''{'' then map_option ((#) c) (vformat_ref (drop 1 cs) args)
         else if take 1 cs = ''}'' then
           (case args of [] \<Rightarrow> None
            | a # as \<Rightarrow> map_option ((@) (show_ref a)) (vformat_ref (drop 1 cs) as))
         else if take 2 cs = '':0'' \<and> take 1 (drop 3 cs) = ''}'' then
           (case args of [] \<Rightarrow> None
            | a # as \<Rightarrow> map_option ((@) (zero_pad (of_char (cs ! 2) - 48) (show_ref a)))
                (vformat_ref (drop 4 cs) as))
         else None)
      else if c = CHR ''}'' then
        (if take 1 cs = ''}'' then map_option ((#) c) (vformat_ref (drop 1 cs) args) else None)
      else map_option ((#) c) (vformat_ref cs args))"
  by pat_completeness auto
termination
  by (relation "measure (\<lambda>(s, args). length s)") auto

declare vformat_ref.simps [simp del]

lemma vformat_ref_lit:
  "c \<noteq> CHR ''{'' \<Longrightarrow> c \<noteq> CHR ''}'' \<Longrightarrow>
     vformat_ref (piece_text (P_Lit c) @ s) args = map_option ((#) c) (vformat_ref s args)"
  by (simp add: vformat_ref.simps)

lemma vformat_ref_piece:
  "vformat_ref (piece_text P_Open @ s) args = map_option ((#) (CHR ''{'')) (vformat_ref s args)"
  "vformat_ref (piece_text P_Close @ s) args = map_option ((#) (CHR ''}'')) (vformat_ref s args)"
  "vformat_ref (piece_text P_Arg @ s) (a # args) = map_option ((@) (show_ref a)) (vformat_ref s args)"
  "w < 10 \<Longrightarrow> vformat_ref (piece_text (P_Pad w) @ s) (a # args) =
     map_option ((@) (zero_pad w (show_ref a))) (vformat_ref s args)"
  by (simp_all add: vformat_ref.simps digit_char_def numeral_2_eq_2 numeral_3_eq_3)

lemma fmt_renders_ref: "fmt_renders show_ref vformat_ref"
proof -
  have "vformat_ref (concat (map piece_text ps)) args = Some (render show_ref ps args)"
    if "pieces_match ps args" for ps args
    using that
    by (induction ps args rule: pieces_match.induct)
      (simp_all add: vformat_ref_lit vformat_ref_piece vformat_ref.simps(1) del: piece_text.simps)
  then show ?thesis by (simp add: fmt_renders_def)
qed

section \<open>Properties\<close>


definition demo_data :: pattern_data where
  "demo_data =
     \<lparr>pd_level = level_code Warn, pd_thread_name = ''main'', pd_timestamp = 58089000071000,
      pd_filename = ''/src/app/x.cpp'', pd_functionname = ''f'', pd_linenumber = 42,
      pd_message = ''hi''\<rparr>"

lemma demo_tokens_out:
  "concat (map (token_out hms_ref show_ref demo_data) default_tokens) =
     ''[16:08:09.000071] (WARN) (x.cpp:42) hi''"
  by code_simp


text \<open>Formatting a sequence of events, each with the formatter in force for it.\<close>

fun format_events ::
  "(int \<Rightarrow> string) \<Rightarrow> (string \<Rightarrow> fmt_arg list \<Rightarrow> string option) \<Rightarrow> (parsed_pattern \<times> pattern_data) list \<Rightarrow>
   hms_caches \<Rightarrow> string option list"
where
  "format_events hms vformat [] cs = []"
| "format_events hms vformat ((p, d) # es) cs =
     (let (out, cs') = format_impl hms vformat p d cs in out # format_events hms vformat es cs')"

definition format_uncached ::
  "(int \<Rightarrow> string) \<Rightarrow> (string \<Rightarrow> fmt_arg list \<Rightarrow> string option) \<Rightarrow> parsed_pattern \<times> pattern_data \<Rightarrow> string option"
where
  "format_uncached hms vformat e =
     vformat (pp_fmt_str (fst e))
       (concat (map (\<lambda>x. pure_args hms x (snd e)) (zip (pp_fields (fst e)) (pp_specs (fst e)))))"

definition event_formattable :: "parsed_pattern \<times> pattern_data \<Rightarrow> bool" where
  "event_formattable e \<longleftrightarrow> fields_valid (zip (pp_fields (fst e)) (pp_specs (fst e))) \<and>
     pd_timestamp (snd e) div ns_per_s \<noteq> -1"

lemma format_impl_uncached:
  assumes "event_formattable (p, d)" and "caches_ok hms cs"
  shows "\<exists>cs'. format_impl hms vformat p d cs = (format_uncached hms vformat (p, d), cs') \<and> caches_ok hms cs'"
  using format_args_pure [of "zip (pp_fields p) (pp_specs p)" hms cs d] assms
  by (cases "format_args hms (zip (pp_fields p) (pp_specs p)) d cs")
    (simp add: event_formattable_def format_impl_def format_uncached_def)

lemma format_events_uncached:
  "list_all event_formattable es \<Longrightarrow> caches_ok hms cs \<Longrightarrow>
     format_events hms vformat es cs = map (format_uncached hms vformat) es"
proof (induction es arbitrary: cs)
  case (Cons e es)
  obtain p d where e: "e = (p, d)" by fastforce
  obtain cs' where "format_impl hms vformat p d cs = (format_uncached hms vformat (p, d), cs')" "caches_ok hms cs'"
    using format_impl_uncached Cons.prems e by (metis list.pred_inject(2))
  then show ?case using Cons by (simp add: e)
qed simp

text \<open>C34. The per-second cache of the clock text is invisible: whatever events are formatted, in
  whatever order of timestamps and with whatever switches of the pattern, every one is printed as if
  the clock text had been computed for it alone; the one exception is the second before the epoch.\<close>
theorem hms_cache_invisible:
  "list_all event_formattable es \<Longrightarrow>
     format_events hms vformat es initial_caches = map (format_uncached hms vformat) es"
  by (rule format_events_uncached) simp_all

lemma hms_cache_invisible_witness:
  "format_events hms_ref vformat_ref
     [(pattern_of default_tokens, demo_data), (pattern_of [T_Field ''time:HMS''], demo_data)] initial_caches =
   [Some ''[16:08:09.000071] (WARN) (x.cpp:42) hi'', Some ''16:08:09'']"
proof -
  have ok: "list_all event_formattable
      [(pattern_of default_tokens, demo_data), (pattern_of [T_Field ''time:HMS''], demo_data)]"
    by code_simp
  have "map (format_uncached hms_ref vformat_ref)
      [(pattern_of default_tokens, demo_data), (pattern_of [T_Field ''time:HMS''], demo_data)] =
    [Some ''[16:08:09.000071] (WARN) (x.cpp:42) hi'', Some ''16:08:09'']"
    by code_simp
  with hms_cache_invisible [OF ok] show ?thesis by simp
qed

text \<open>The exception is real: the initial value of the cache is taken for the clock text of the second
  before the epoch, so an event of that second that comes first is printed without its time.\<close>
theorem first_event_before_epoch_blank:
  assumes "pd_timestamp d div ns_per_s = -1" and "sp \<in> {S_TimeHMS, S_TimeHMSf, S_TimeHMSF}"
  shows "hd (fst (expand_and_process_format_arg hms sp (get_field F_Time d) initial_caches)) = A_Str ''''"
  using assms by (auto simp: floor_to_seconds_def update_hms_def initial_caches_def Let_def)

lemma first_event_before_epoch_blank_witness:
  "hd (fst (expand_and_process_format_arg hms_ref S_TimeHMS
     (get_field F_Time (demo_data\<lparr>pd_timestamp := -5\<rparr>)) initial_caches)) = A_Str ''''"
  by (rule first_event_before_epoch_blank) (simp_all add: ns_per_s_def)

lemma subsecond_ints:
  "int (unat (ns_part t)) = t smod ns_per_s mod 2 ^ 64"
  "int (unat (us_part t)) = (t smod ns_per_s) div 1000 mod 2 ^ 64"
  by (simp_all add: ns_part_def us_part_def unsigned_of_int take_bit_eq_mod of_nat_nat)

lemma smod_ns_pos: "0 \<le> t \<Longrightarrow> t smod ns_per_s = t mod ns_per_s"
  by (simp add: signed_modulo_int_def signed_divide_int_def ns_per_s_def sgn_if minus_div_mult_eq_mod)

lemma smod_ns_neg: "t < 0 \<Longrightarrow> t smod ns_per_s = - ((- t) mod ns_per_s)"
  by (simp add: signed_modulo_int_def signed_divide_int_def ns_per_s_def sgn_if minus_div_mult_eq_mod [symmetric])

lemma subsecond_nonneg:
  assumes "0 \<le> t"
  shows "int (unat (ns_part t)) = t mod ns_per_s" and "int (unat (us_part t)) = t mod ns_per_s div 1000"
proof -
  have b: "0 \<le> t mod ns_per_s" "t mod ns_per_s < 1000000000" by (simp_all add: ns_per_s_def)
  then show "int (unat (ns_part t)) = t mod ns_per_s"
    unfolding subsecond_ints smod_ns_pos [OF assms] by simp
  have "0 \<le> t mod ns_per_s div 1000" "t mod ns_per_s div 1000 < 2 ^ 64" using b by simp_all
  then show "int (unat (us_part t)) = t mod ns_per_s div 1000"
    unfolding subsecond_ints smod_ns_pos [OF assms] by simp
qed

lemma mod_64_neg: "r < 0 \<Longrightarrow> - 1000000000 < r \<Longrightarrow> (10::int) ^ 19 \<le> r mod 2 ^ 64"
proof -
  assume r: "r < 0" "- 1000000000 < r"
  have "r mod 2 ^ 64 = (r + 2 ^ 64) mod 2 ^ 64" by simp
  also have "\<dots> = r + 2 ^ 64" by (rule mod_pos_pos_trivial) (use r in simp_all)
  finally show ?thesis using r by simp
qed

text \<open>From the epoch on, the subsecond numbers are what the pattern asks for: microseconds below one
  million and nanoseconds below one thousand million, which with the whole seconds give the
  timestamp back.\<close>
theorem subsecond_parts:
  assumes "0 \<le> t"
  shows "unat (us_part t) < 10 ^ 6 \<and> unat (ns_part t) < 10 ^ 9 \<and>
    t = floor_to_seconds t * ns_per_s + int (unat (ns_part t)) \<and> unat (us_part t) = unat (ns_part t) div 1000"
proof -
  note eq = subsecond_nonneg [OF assms]
  have b: "t mod ns_per_s < 1000000000" by (simp add: ns_per_s_def)
  have us: "unat (us_part t) = unat (ns_part t) div 1000"
  proof -
    have "int (unat (us_part t)) = int (unat (ns_part t)) div int 1000" unfolding eq by simp
    then show ?thesis unfolding zdiv_int [symmetric] of_nat_eq_iff .
  qed
  have ns: "unat (ns_part t) < 1000000000" using eq(1) b by linarith
  moreover have "t = floor_to_seconds t * ns_per_s + int (unat (ns_part t))"
    unfolding eq(1) floor_to_seconds_def by simp
  ultimately show ?thesis using us by simp
qed

lemma subsecond_parts_witness:
  "unat (us_part 1500000071000) = 71 \<and> unat (us_part 1500000071000) < 10 ^ 6 \<and> floor_to_seconds 1500000071000 = 1500"
proof -
  have "unat (us_part 1500000071000) = 71" by code_simp
  moreover have "floor_to_seconds 1500000071000 = 1500" by code_simp
  ultimately show ?thesis using subsecond_parts [of 1500000071000] by simp
qed

text \<open>Before the epoch they are not: unless the timestamp falls on a whole second the remainder is
  negative, and its conversion to 64 bits prints as a number of twenty digits.\<close>
theorem subsecond_parts_before_epoch:
  assumes "t < 0" and "t mod ns_per_s \<noteq> 0"
  shows "10 ^ 19 \<le> unat (ns_part t) \<and> 10 ^ 19 \<le> unat (us_part t)"
proof -
  let ?r = "t smod ns_per_s"
  have "(- t) mod ns_per_s \<noteq> 0" using assms(2) by (simp add: zmod_zminus1_not_zero)
  moreover have "0 \<le> (- t) mod ns_per_s" "(- t) mod ns_per_s < 1000000000" by (simp_all add: ns_per_s_def)
  ultimately have r: "?r < 0" "- 1000000000 < ?r" unfolding smod_ns_neg [OF assms(1)] by linarith+
  then have "?r div 1000 < 0" "- 1000000000 < ?r div 1000" by linarith+
  then have "(10::int) ^ 19 \<le> int (unat (ns_part t))" "(10::int) ^ 19 \<le> int (unat (us_part t))"
    unfolding subsecond_ints using mod_64_neg r by blast+
  then show ?thesis
    unfolding of_nat_le_iff [where 'a = int, symmetric] of_nat_power of_nat_numeral by blast
qed

lemma subsecond_parts_before_epoch_witness: "10 ^ 19 \<le> unat (ns_part (-1))"
  by (rule subsecond_parts_before_epoch [THEN conjunct1]) (simp_all add: ns_per_s_def)

text \<open>\<open>nameonly\<close> strips directories, whichever of the two separators they are written with: what
  remains is the part after the last separator, and all of a path that has none.\<close>
theorem file_name_only_strips:
  assumes "\<forall>c \<in> set name. c \<notin> set separators" and "sep \<in> set separators"
  shows "file_name_only (dir @ sep # name) = name \<and> file_name_only name = name"
  using file_name_only_bare [OF assms(1)] find_last_of_split [OF assms(2,1), of dir]
  by (simp add: file_name_only_def)

lemma file_name_only_strips_witness:
  "file_name_only ''C:/src/x.cpp'' = ''x.cpp'' \<and> file_name_only ''x.cpp'' = ''x.cpp''"
  using file_name_only_strips [of "''x.cpp''" "CHR ''/''" "''C:/src''"] by simp

end
