(* ===== verification/Formatter_Handler.thy ===== *)
theory Formatter_Handler
  imports Pattern_Format Pending_Slot
begin

text \<open>
  \<open>PatternFormatterHandler\<close> of \<open>include/papper/detail/pattern.h\<close>: the formatter in force and its
  replacement at run time. A \<open>formatter\<close> is the address of a \<open>PatternFormatter\<close> object with the
  pattern compiled into it (the object is immutable). \<open>fh_heap\<close> is the sequence of virtual calls and
  deletes made on such objects. As for the sink, the pending pointer is only touched by atomic
  exchanges, so an execution is a sequence of whole operations.
\<close>

record formatter =
  fo_address :: nat
  fo_pattern :: parsed_pattern

datatype heap_call = H_Call formatter | H_Delete formatter

record formatter_handler =
  fh_formatter :: formatter
  fh_pending :: "formatter option"
  fh_heap :: "heap_call list"

definition default_pattern :: string where
  "default_pattern = ''[{time:HMSf}] ({level}) ({file:nameonly}:{line}) {message}''"

text \<open>The constructor allocates the default formatter at a fresh address.\<close>

definition new_formatter_handler :: "nat \<Rightarrow> formatter_handler" where
  "new_formatter_handler addr =
     \<lparr>fh_formatter = \<lparr>fo_address = addr, fo_pattern = the (parse_pattern 16 1000 default_pattern)\<rparr>,
      fh_pending = None, fh_heap = []\<rparr>"

definition heap_do :: "heap_call list \<Rightarrow> formatter_handler \<Rightarrow> formatter_handler" where
  "heap_do calls h = h\<lparr>fh_heap := fh_heap h @ calls\<rparr>"

definition formatter_handler_dtor :: "formatter_handler \<Rightarrow> formatter_handler" where
  "formatter_handler_dtor h =
     (let h1 = h\<lparr>fh_pending := None\<rparr>;
          h2 = (case fh_pending h of None \<Rightarrow> h1 | Some p \<Rightarrow> heap_do [H_Delete p] h1)
      in heap_do [H_Delete (fh_formatter h2)] h2)"

definition handler_format ::
  "(int \<Rightarrow> string) \<Rightarrow> (string \<Rightarrow> fmt_arg list \<Rightarrow> string option) \<Rightarrow> pattern_data \<Rightarrow>
   formatter_handler \<times> hms_caches \<Rightarrow> string option \<times> formatter_handler \<times> hms_caches"
where
  "handler_format hms vformat d s =
     (let (h, cs) = s;
          (out, cs') = format_impl hms vformat (fo_pattern (fh_formatter h)) d cs
      in (out, heap_do [H_Call (fh_formatter h)] h, cs'))"

definition queue_new_formatter :: "formatter option \<Rightarrow> formatter_handler \<Rightarrow> formatter_handler" where
  "queue_new_formatter fo h =
     (case fo of
        None \<Rightarrow> h
      | Some f \<Rightarrow>
          let h1 = h\<lparr>fh_pending := Some f\<rparr>
          in (case fh_pending h of None \<Rightarrow> h1 | Some prev \<Rightarrow> heap_do [H_Delete prev] h1))"

definition poll_for_pending_formatter_switch :: "formatter_handler \<Rightarrow> formatter_handler" where
  "poll_for_pending_formatter_switch h =
     (let h1 = h\<lparr>fh_pending := None\<rparr>
      in case fh_pending h of
           None \<Rightarrow> h1
         | Some new_formatter \<Rightarrow> (heap_do [H_Delete (fh_formatter h1)] h1)\<lparr>fh_formatter := new_formatter\<rparr>)"

lemmas handler_defs = heap_do_def formatter_handler_dtor_def queue_new_formatter_def
  poll_for_pending_formatter_switch_def

section \<open>The handler keeps the hand-over protocol\<close>

fun deleted_by :: "heap_call \<Rightarrow> formatter list" where
  "deleted_by (H_Call f) = []"
| "deleted_by (H_Delete f) = [f]"

definition deletes :: "heap_call list \<Rightarrow> formatter list" where
  "deletes calls = concat (map deleted_by calls)"

lemma deletes_simps [simp]:
  "deletes [] = []" "deletes (c # cs) = deleted_by c @ deletes cs" "deletes (a @ b) = deletes a @ deletes b"
  by (simp_all add: deletes_def)

definition queue_formatter :: "formatter \<Rightarrow> formatter_handler \<Rightarrow> formatter_handler" where
  "queue_formatter f h = queue_new_formatter (Some f) h"

text \<open>As far as the handler goes, formatting is a virtual call on the current object.\<close>

definition format_use :: "unit \<Rightarrow> formatter_handler \<Rightarrow> formatter_handler" where
  "format_use u h = heap_do [H_Call (fh_formatter h)] h"

lemma handler_format_use: "fst (snd (handler_format hms vformat d (h, cs))) = format_use () h"
  by (simp add: handler_format_def format_use_def Let_def split: prod.split)

interpretation fh: pending_slot queue_formatter poll_for_pending_formatter_switch format_use
  formatter_handler_dtor "\<lambda>f. f" "\<lambda>f. True" fh_formatter fh_pending "\<lambda>h. deletes (fh_heap h)"
  by unfold_locales
    (auto simp: queue_formatter_def format_use_def handler_defs Let_def split: option.split)

fun handler_step :: "(formatter, unit) slot_op \<Rightarrow> formatter_handler \<Rightarrow> formatter_handler" where
  "handler_step (Queue_New f) h = queue_formatter f h"
| "handler_step Poll_Switch h = poll_for_pending_formatter_switch h"
| "handler_step (Use u) h = format_use u h"

definition handler_run :: "(formatter, unit) slot_op list \<Rightarrow> formatter_handler \<Rightarrow> formatter_handler" where
  "handler_run ops h = fold handler_step ops h"

lemma handler_run_simps [simp]:
  "handler_run [] h = h" "handler_run (x # ops) h = handler_run ops (handler_step x h)"
  "handler_run (ops @ ops') h = handler_run ops' (handler_run ops h)"
  by (simp_all add: handler_run_def)

lemma handler_step_eq: "handler_step x h = fh.step x h"
  by (cases x) simp_all

lemma handler_run_eq: "handler_run ops h = fh.run ops h"
  by (induction ops arbitrary: h) (simp_all add: handler_step_eq)

section \<open>No call on a deleted formatter\<close>

fun heap_target :: "heap_call \<Rightarrow> formatter" where
  "heap_target (H_Call f) = f"
| "heap_target (H_Delete f) = f"

fun heap_ok_from :: "nat set \<Rightarrow> heap_call list \<Rightarrow> bool" where
  "heap_ok_from D [] \<longleftrightarrow> True"
| "heap_ok_from D (c # cs) \<longleftrightarrow>
     fo_address (heap_target c) \<notin> D \<and> heap_ok_from (D \<union> fo_address ` set (deleted_by c)) cs"

lemma heap_ok_from_append:
  "heap_ok_from D (a @ b) \<longleftrightarrow> heap_ok_from D a \<and> heap_ok_from (D \<union> fo_address ` set (deletes a)) b"
  by (induction a arbitrary: D) (auto simp: image_Un Un_assoc)

definition handler_inv :: "formatter_handler \<Rightarrow> bool" where
  "handler_inv h \<longleftrightarrow> heap_ok_from {} (fh_heap h) \<and>
     distinct (map fo_address (deletes (fh_heap h) @ fh.held h))"

lemma fh_held: "fh.held h = fh_formatter h # (case fh_pending h of None \<Rightarrow> [] | Some p \<Rightarrow> [p])"
  by (simp add: fh.held_def)

lemma fh_handed: "fh.handed ops = queued ops"
  by (simp add: fh.handed_def)

text \<open>Every operation appends heap calls on objects the handler holds.\<close>

lemma handler_step_calls:
  "\<exists>calls. fh_heap (handler_step x h) = fh_heap h @ calls \<and>
     (calls = [] \<or> (\<exists>c. calls = [c] \<and> heap_target c \<in> set (fh.held h)))"
  by (cases x) (auto simp: fh_held queue_formatter_def format_use_def handler_defs Let_def split: option.split)

lemma handler_step_inv:
  assumes inv: "handler_inv h" and fresh: "distinct (map fo_address (deletes (fh_heap h) @ fh.held h @ queued [x]))"
  shows "handler_inv (handler_step x h)"
proof -
  obtain calls where calls: "fh_heap (handler_step x h) = fh_heap h @ calls"
      "calls = [] \<or> (\<exists>c. calls = [c] \<and> heap_target c \<in> set (fh.held h))"
    using handler_step_calls by blast
  have "heap_ok_from {} (fh_heap (handler_step x h))"
    using inv calls by (force simp: handler_inv_def heap_ok_from_append)
  moreover have "mset (map fo_address (deletes (fh_heap (handler_step x h)) @ fh.held (handler_step x h))) =
      mset (map fo_address (deletes (fh_heap h) @ fh.held h @ queued [x]))"
    using arg_cong [OF fh.step_conserves [of x h], of "image_mset fo_address"]
    by (simp add: handler_step_eq fh_handed)
  then have "distinct (map fo_address (deletes (fh_heap (handler_step x h)) @ fh.held (handler_step x h)))"
    using fresh by (metis mset_eq_imp_distinct_iff)
  ultimately show ?thesis by (simp add: handler_inv_def)
qed

lemma handler_run_inv:
  "handler_inv h \<Longrightarrow> distinct (map fo_address (deletes (fh_heap h) @ fh.held h @ queued ops)) \<Longrightarrow>
     handler_inv (handler_run ops h)"
proof (induction ops arbitrary: h)
  case (Cons x ops)
  have "mset (map fo_address (deletes (fh_heap (handler_step x h)) @ fh.held (handler_step x h) @ queued ops)) =
      mset (map fo_address (deletes (fh_heap h) @ fh.held h @ queued (x # ops)))"
    using arg_cong [OF fh.step_conserves [of x h], of "image_mset fo_address"] queued_Cons [of x ops]
    by (simp add: handler_step_eq fh_handed)
  then have rest: "distinct (map fo_address (deletes (fh_heap (handler_step x h)) @ fh.held (handler_step x h) @ queued ops))"
    using Cons.prems(2) by (metis mset_eq_imp_distinct_iff)
  have "handler_inv (handler_step x h)"
    using Cons.prems queued_Cons [of x ops] by (intro handler_step_inv) auto
  then show ?case using Cons.IH rest by simp
qed simp

lemma handler_dtor_heap:
  "fh_heap (formatter_handler_dtor h) =
     fh_heap h @ (case fh_pending h of None \<Rightarrow> [] | Some p \<Rightarrow> [H_Delete p]) @ [H_Delete (fh_formatter h)]"
  by (simp add: handler_defs Let_def split: option.split)

lemma handler_dtor_ok:
  assumes "handler_inv h"
  shows "heap_ok_from {} (fh_heap (formatter_handler_dtor h))"
  using assms
  by (cases "fh_pending h")
    (force simp: handler_dtor_heap handler_inv_def heap_ok_from_append fh_held)+

section \<open>Properties\<close>

text \<open>C35. Formatters are neither leaked nor used after they are deleted: if the objects handed over are
  different ones, no call and no delete ever reaches a deleted formatter, and when the handler is
  gone the default formatter and all that were handed over have been deleted exactly once.\<close>
theorem formatter_handler_memory_safe:
  assumes "distinct (addr # map fo_address (queued ops))"
  shows "heap_ok_from {} (fh_heap (formatter_handler_dtor (handler_run ops (new_formatter_handler addr)))) \<and>
    mset (deletes (fh_heap (formatter_handler_dtor (handler_run ops (new_formatter_handler addr))))) =
      mset (fh_formatter (new_formatter_handler addr) # queued ops)"
proof
  have new: "fh.held (new_formatter_handler addr) = [fh_formatter (new_formatter_handler addr)]"
      "fh_heap (new_formatter_handler addr) = []" "fo_address (fh_formatter (new_formatter_handler addr)) = addr"
    by (simp_all add: fh_held new_formatter_handler_def)
  have "handler_inv (handler_run ops (new_formatter_handler addr))"
    using assms by (intro handler_run_inv) (simp_all add: handler_inv_def new)
  then show "heap_ok_from {} (fh_heap (formatter_handler_dtor (handler_run ops (new_formatter_handler addr))))"
    by (rule handler_dtor_ok)
  show "mset (deletes (fh_heap (formatter_handler_dtor (handler_run ops (new_formatter_handler addr))))) =
      mset (fh_formatter (new_formatter_handler addr) # queued ops)"
    using fh.destroy_releases_all [of ops "new_formatter_handler addr"]
    by (simp add: handler_run_eq new fh_handed)
qed

definition demo_formatter :: "nat \<Rightarrow> formatter" where
  "demo_formatter n = \<lparr>fo_address = n, fo_pattern = pattern_of [T_Field ''m'']\<rparr>"

lemma formatter_handler_memory_safe_witness:
  "size (mset (deletes (fh_heap (formatter_handler_dtor (handler_run
     [Queue_New (demo_formatter 1), Use (), Poll_Switch, Queue_New (demo_formatter 2), Use (),
      Queue_New (demo_formatter 3), Use ()] (new_formatter_handler 0)))))) = 4"
proof -
  have "distinct (0 # map fo_address (queued
      [Queue_New (demo_formatter 1), Use (), Poll_Switch, Queue_New (demo_formatter 2), Use (),
       Queue_New (demo_formatter 3), Use ()]))"
    by (simp add: demo_formatter_def)
  from formatter_handler_memory_safe [OF this] show ?thesis by (simp del: handler_run_simps)
qed

text \<open>A pattern that was set is in force from the next poll on: whatever events were formatted
  in between, the first event after the poll is printed with the pattern set last.\<close>
theorem formatter_switch_takes_effect:
  assumes "Poll_Switch \<notin> set ops" and "queued ops = []"
  shows "fst (handler_format hms vformat d (handler_run (Queue_New f # ops @ [Poll_Switch]) h, cs)) =
    fst (format_impl hms vformat (fo_pattern f) d cs)"
  using fh.poll_installs_last [OF assms, of f h]
  unfolding handler_run_eq handler_format_def by (simp add: Let_def split: prod.split del: fh.run_simps)

lemma formatter_switch_takes_effect_witness:
  "fst (handler_format hms_ref vformat_ref demo_data
     (handler_run (Queue_New (demo_formatter 1) # [Use ()] @ [Poll_Switch]) (new_formatter_handler 0),
      initial_caches)) = Some ''hi''"
proof -
  have "fst (format_impl hms_ref vformat_ref (fo_pattern (demo_formatter 1)) demo_data initial_caches) = Some ''hi''"
    by code_simp
  with formatter_switch_takes_effect [of "[Use ()]" hms_ref vformat_ref demo_data "demo_formatter 1"
      "new_formatter_handler 0" initial_caches]
  show ?thesis by (simp del: handler_run_simps)
qed

end
