(* ===== verification/Event.thy ===== *)
theory Event
  imports Codec Ring_Queue Sink Formatter_Handler
begin

text \<open>
  The life of one log event, from \<open>include/papper/detail/core.h\<close>: \<open>push_log_event\<close> encodes the header
  and the arguments into the thread's queue, \<open>decode_and_format\<close> and \<open>read_and_process_single_event\<close>
  decode it on the backend thread, filter it by level, format it and write it to the sink.

  Pointers stored in an event are 64 bit addresses. What they point to (the static data of the call
  site, the thread's name) never changes while the event exists and is looked up in the
  environment, together with the parts that are not code of this library: \<open>fmt\<close> on the user's format
  string (\<open>en_uformat\<close>), \<open>fmt\<close> on the pattern (\<open>en_vformat\<close>, \<open>en_hms\<close>); \<open>en_to_local\<close> is the clock's
  \<open>timestamp_to_local_system_time\<close> (theory \<open>Clock\<close>), \<open>None\<close> where a conversion in it is undefined.
  \<open>None\<close> as a result is a wild access or an exception that leaves the
  backend thread, either of which ends the program.
\<close>

section \<open>Data\<close>

text \<open>\<open>decoding_fn\<close> is \<open>decode_and_format<Args...>\<close> and is given by the types \<open>Args\<close>.\<close>

record call_site =
  cs_level :: u8
  cs_fmt_str :: string
  cs_arg_types :: "ctype list"
  cs_file_name :: string
  cs_function_name :: string
  cs_line :: u32

record log_event_header =
  h_static_data :: u64
  h_thread_name :: u64
  h_timestamp :: u64
  h_payload_size :: u64

record environment =
  en_sites :: "u64 \<Rightarrow> call_site option"
  en_names :: "u64 \<Rightarrow> string option"
  en_uformat :: "string \<Rightarrow> (ctype \<times> cval) list \<Rightarrow> string option"
  en_hms :: "int \<Rightarrow> string"
  en_vformat :: "string \<Rightarrow> fmt_arg list \<Rightarrow> string option"
  en_to_local :: "u64 \<Rightarrow> int option"

text \<open>The parts of the backend's state an event passes through.\<close>

record outputs =
  o_sink :: sink
  o_formatter :: formatter_handler
  o_caches :: hms_caches
  o_min_level :: u8

section \<open>The logging side\<close>

definition header_size :: u64 where "header_size = 32"

definition header_args :: "u64 \<Rightarrow> u64 \<Rightarrow> u64 \<Rightarrow> u64 \<Rightarrow> (ctype \<times> cval) list" where
  "header_args static_data thread_name timestamp total_args_size =
     [(C_Triv ''const CallSiteStaticData*'' 8, V_Triv (u64_bytes static_data)),
      (C_Triv ''const char*'' 8, V_Triv (u64_bytes thread_name)),
      (C_Triv ''uint64_t'' 8, V_Triv (u64_bytes timestamp)),
      (C_Triv ''size_t'' 8, V_Triv (u64_bytes total_args_size))]"

text \<open>\<open>push_log_event\<close> on a thread whose queue and name are set up; \<open>timestamp\<close> is what \<open>read_tsc\<close>
  returned. The result says whether the event was stored or dropped.\<close>

definition push_log_event ::
  "u64 \<Rightarrow> (ctype \<times> cval) list \<Rightarrow> u64 \<Rightarrow> u64 \<Rightarrow> queue \<Rightarrow> (bool \<times> queue) option"
where
  "push_log_event static_data args thread_name timestamp q =
     (let total_args_size = size_all encoded_size args;
          header_plus_args_size = total_args_size + header_size;
          (write, q1) = reserve_write header_plus_args_size q
      in case wr_buffer write of
           None \<Rightarrow> Some (False, q1)
         | Some off \<Rightarrow>
             (case encode_all encode (header_args static_data thread_name timestamp total_args_size)
                (q_buffer q1, unat off) of
                None \<Rightarrow> None
              | Some cur \<Rightarrow>
                  (case encode_all encode args cur of
                     None \<Rightarrow> None
                   | Some (buf, p) \<Rightarrow>
                       Some (True, commit_write (wr_new_write_pos write) (q1\<lparr>q_buffer := buf\<rparr>)))))"

section \<open>The backend side\<close>

text \<open>\<open>Codec<LogEventHeader>::decode\<close> copies the 32 bytes of the struct; its members lie at the offsets
  0, 8, 16 and 24.\<close>

definition header_of_bytes :: "byte list \<Rightarrow> log_event_header" where
  "header_of_bytes bs =
     \<lparr>h_static_data = u64_of_bytes (take 8 bs), h_thread_name = u64_of_bytes (take 8 (drop 8 bs)),
      h_timestamp = u64_of_bytes (take 8 (drop 16 bs)), h_payload_size = u64_of_bytes (take 8 (drop 24 bs))\<rparr>"

definition decode_header :: "memory \<Rightarrow> nat \<Rightarrow> (log_event_header \<times> nat) option" where
  "decode_header m p =
     (case decode (C_Triv ''LogEventHeader'' (unat header_size)) m p of
        Some (V_Triv bs, p') \<Rightarrow> Some (header_of_bytes bs, p')
      | _ \<Rightarrow> None)"

definition decode_and_format ::
  "(string \<Rightarrow> (ctype \<times> cval) list \<Rightarrow> string option) \<Rightarrow> ctype list \<Rightarrow> string \<Rightarrow> memory \<Rightarrow> nat \<Rightarrow>
   (string \<times> nat) option"
where
  "decode_and_format uformat types fmt_str m p =
     (case decode_all decode types m p of
        None \<Rightarrow> None
      | Some (vs, p') \<Rightarrow> map_option (\<lambda>msg. (msg, p')) (uformat fmt_str (zip types vs)))"

text \<open>What happens to a decoded event: the level filter, the pattern, the sink.\<close>

definition emit_event ::
  "environment \<Rightarrow> call_site \<Rightarrow> string \<Rightarrow> u64 \<Rightarrow> string \<Rightarrow> outputs \<Rightarrow> outputs option"
where
  "emit_event en site thread_name timestamp message o1 =
     (if cs_level site < o_min_level o1 then Some o1
      else
        (case en_to_local en timestamp of
           None \<Rightarrow> None
         | Some local_time \<Rightarrow>
             let data = \<lparr>pd_level = cs_level site, pd_thread_name = thread_name,
                         pd_timestamp = local_time, pd_filename = cs_file_name site,
                         pd_functionname = cs_function_name site, pd_linenumber = cs_line site,
                         pd_message = message\<rparr>;
                 (formatted, fh, cs) = handler_format (en_hms en) (en_vformat en) data (o_formatter o1, o_caches o1)
             in map_option (\<lambda>str. o1\<lparr>o_sink := write_str_and_endl str (o_sink o1),
                                    o_formatter := fh, o_caches := cs\<rparr>) formatted))"

definition read_and_process_single_event ::
  "environment \<Rightarrow> memory \<Rightarrow> nat \<Rightarrow> outputs \<Rightarrow> (u64 \<times> outputs) option"
where
  "read_and_process_single_event en m p o1 =
     (case decode_header m p of
        None \<Rightarrow> None
      | Some (header, p1) \<Rightarrow>
          let total_event_size = header_size + h_payload_size header
          in case en_sites en (h_static_data header) of
               None \<Rightarrow> None
             | Some site \<Rightarrow>
                 (case decode_and_format (en_uformat en) (cs_arg_types site) (cs_fmt_str site) m p1 of
                    None \<Rightarrow> None
                  | Some (message, p2) \<Rightarrow>
                      (case en_names en (h_thread_name header) of
                         None \<Rightarrow> None
                       | Some name \<Rightarrow>
                           map_option (\<lambda>o2. (total_event_size, o2))
                             (emit_event en site name (h_timestamp header) message o1))))"

text \<open>The part of \<open>poll_threads\<close> that serves one queue: \<open>False\<close> if there was nothing to read.\<close>

definition poll_queue :: "environment \<Rightarrow> queue \<Rightarrow> outputs \<Rightarrow> (bool \<times> queue \<times> outputs) option" where
  "poll_queue en q o1 =
     (let (read, q1) = reserve_read q
      in case rr_buffer read of
           None \<Rightarrow> Some (False, q1, o1)
         | Some off \<Rightarrow>
             (case read_and_process_single_event en (q_buffer q1) (unat off) o1 of
                None \<Rightarrow> None
              | Some (size_read, o2) \<Rightarrow>
                  Some (True, commit_read (rr_current_read_pos read + size_read) q1, o2)))"

section \<open>Events as values\<close>

record log_event =
  ev_site :: u64
  ev_name :: u64
  ev_time :: u64
  ev_args :: "(ctype \<times> cval) list"

definition event_payload :: "log_event \<Rightarrow> byte list" where
  "event_payload e = concat (map (\<lambda>(t, v). cval_repr t v) (ev_args e))"

definition event_bytes :: "log_event \<Rightarrow> byte list" where
  "event_bytes e = u64_bytes (ev_site e) @ u64_bytes (ev_name e) @ u64_bytes (ev_time e) @
     u64_bytes (of_nat (length (event_payload e))) @ event_payload e"

definition event_ok :: "log_event \<Rightarrow> bool" where
  "event_ok e \<longleftrightarrow> (\<forall>(t, v) \<in> set (ev_args e). cval_ok t v) \<and> length (event_payload e) + 32 < 2 ^ 64"

definition push_event :: "log_event \<Rightarrow> queue \<Rightarrow> (bool \<times> queue) option" where
  "push_event e q = push_log_event (ev_site e) (ev_args e) (ev_name e) (ev_time e) q"

lemma event_bytes_length: "length (event_bytes e) = 32 + length (event_payload e)"
  by (simp add: event_bytes_def)

lemma event_bytes_facts:
  assumes "event_ok e"
  shows "event_bytes e \<noteq> []" and "length (event_bytes e) < 2 ^ 64"
    and "unat (size_all encoded_size (ev_args e)) = length (event_payload e)"
    and "(of_nat (length (event_bytes e)) :: u64) = size_all encoded_size (ev_args e) + header_size"
proof -
  show "event_bytes e \<noteq> []" using event_bytes_length [of e] by (metis add_is_0 list.size(3) zero_neq_numeral)
  show "length (event_bytes e) < 2 ^ 64" using assms by (simp add: event_ok_def event_bytes_length)
  have ok: "\<forall>(t, v) \<in> set (ev_args e). cval_ok t v" "length (args.repr_all (ev_args e)) < 2 ^ 64"
    using assms by (simp_all add: event_ok_def event_payload_def args.repr_all_def)
  from args.size_all_repr [OF ok]
  show size: "unat (size_all encoded_size (ev_args e)) = length (event_payload e)"
    by (simp add: event_payload_def args.repr_all_def)
  show "(of_nat (length (event_bytes e)) :: u64) = size_all encoded_size (ev_args e) + header_size"
    unfolding event_bytes_length header_size_def size [symmetric] by (simp add: add.commute)
qed

section \<open>Pushing an event stores its bytes\<close>

lemma encode_all_append:
  "encode_all enc (a @ b) cur = (case encode_all enc a cur of None \<Rightarrow> None | Some cur' \<Rightarrow> encode_all enc b cur')"
proof (induction a arbitrary: cur)
  case (Cons x a)
  then show ?case by (cases x) (simp split: option.split)
qed simp

lemma push_event_write:
  assumes "event_ok e" and "q_holds q ms"
  shows "push_event e q = write_bytes (event_bytes e) q"
proof -
  note facts = event_bytes_facts [OF assms(1)]
  let ?total = "size_all encoded_size (ev_args e)"
  let ?hargs = "header_args (ev_site e) (ev_name e) (ev_time e) ?total"
  obtain res q1 where res: "reserve_write (of_nat (length (event_bytes e))) q = (res, q1)" by fastforce
  have total: "?total = of_nat (length (event_payload e))" unfolding facts(3) [symmetric] by simp
  have repr: "args.repr_all (?hargs @ ev_args e) = event_bytes e"
    by (simp add: args.repr_all_def header_args_def event_bytes_def event_payload_def total)
  have valid: "\<forall>(t, v) \<in> set (?hargs @ ev_args e). cval_ok t v"
    using assms(1) by (auto simp: header_args_def event_ok_def cval_ok_def)
  show ?thesis
  proof (cases "wr_buffer res")
    case None
    then show ?thesis
      using res by (simp add: push_event_def push_log_event_def write_bytes_def facts(4) [symmetric] Let_def)
  next
    case (Some off)
    have "write_bytes (event_bytes e) q \<noteq> None"
      using write_bytes_law [OF assms(2) facts(1,2)] by auto
    then obtain buf where buf: "mem_write (unat off) (event_bytes e) (q_buffer q1) = Some buf"
      using res Some by (auto simp: write_bytes_def split: option.splits)
    then have room: "unat off + length (args.repr_all (?hargs @ ev_args e)) \<le> length (q_buffer q1)"
      unfolding repr by (rule mem_write_SomeD)
    from args.encode_all_repr [OF valid room]
    have "encode_all encode (?hargs @ ev_args e) (q_buffer q1, unat off) =
        Some (buf, unat off + length (event_bytes e))"
      unfolding repr using buf by simp
    then obtain cur where "encode_all encode ?hargs (q_buffer q1, unat off) = Some cur"
        "encode_all encode (ev_args e) cur = Some (buf, unat off + length (event_bytes e))"
      unfolding encode_all_append by (auto split: option.splits)
    then show ?thesis
      using res Some buf by (simp add: push_event_def push_log_event_def write_bytes_def facts(4) [symmetric] Let_def)
  qed
qed

section \<open>Processing an event reads it back\<close>

text \<open>What the backend does with an event, on values: no memory, no sizes.\<close>

definition process_event :: "environment \<Rightarrow> log_event \<Rightarrow> outputs \<Rightarrow> outputs option" where
  "process_event en e o1 =
     (case en_sites en (ev_site e) of
        None \<Rightarrow> None
      | Some site \<Rightarrow>
          (case en_uformat en (cs_fmt_str site) (ev_args e) of
             None \<Rightarrow> None
           | Some message \<Rightarrow>
               (case en_names en (ev_name e) of
                  None \<Rightarrow> None
                | Some name \<Rightarrow> emit_event en site name (ev_time e) message o1)))"

text \<open>The static data an event points to is that of a call with these argument types.\<close>

definition event_typed :: "environment \<Rightarrow> log_event \<Rightarrow> bool" where
  "event_typed en e \<longleftrightarrow> event_ok e \<and>
     (\<exists>site. en_sites en (ev_site e) = Some site \<and> cs_arg_types site = map fst (ev_args e))"

lemma header_of_event_bytes:
  "header_of_bytes (take 32 (event_bytes e)) =
     \<lparr>h_static_data = ev_site e, h_thread_name = ev_name e, h_timestamp = ev_time e,
      h_payload_size = of_nat (length (event_payload e))\<rparr>"
  by (simp add: header_of_bytes_def event_bytes_def)

lemma decode_event:
  assumes "mem_read p (length (event_bytes e)) m = Some (event_bytes e)"
  shows "decode_header m p = Some (header_of_bytes (take 32 (event_bytes e)), p + 32)"
    and "mem_read (p + 32) (length (event_payload e)) m = Some (event_payload e)"
proof -
  have bytes: "event_bytes e = take 32 (event_bytes e) @ event_payload e"
    by (simp add: event_bytes_def)
  have len: "length (take 32 (event_bytes e)) = 32" by (simp add: event_bytes_length)
  have "mem_read p (length (take 32 (event_bytes e)) + length (event_payload e)) m =
      Some (take 32 (event_bytes e) @ event_payload e)"
    using assms bytes by (metis length_append)
  note parts = mem_read_append [OF this, unfolded len]
  show "decode_header m p = Some (header_of_bytes (take 32 (event_bytes e)), p + 32)"
    using parts(1) by (simp add: decode_header_def header_size_def)
  show "mem_read (p + 32) (length (event_payload e)) m = Some (event_payload e)" by (rule parts(2))
qed

lemma zip_fst_snd: "zip (map fst xs) (map snd xs) = xs"
  by (induction xs) auto

lemma process_single_event:
  assumes typed: "event_typed en e" and read: "mem_read p (length (event_bytes e)) m = Some (event_bytes e)"
  shows "read_and_process_single_event en m p o1 =
    map_option (\<lambda>o2. (of_nat (length (event_bytes e)), o2)) (process_event en e o1)"
proof -
  obtain site where site: "en_sites en (ev_site e) = Some site" "cs_arg_types site = map fst (ev_args e)"
    using typed by (auto simp: event_typed_def)
  note header = decode_event [OF read]
  have repr: "args.repr_all (ev_args e) = event_payload e"
    by (simp add: args.repr_all_def event_payload_def)
  have valid: "\<forall>(t, v) \<in> set (ev_args e). cval_ok t v" using typed by (simp add: event_typed_def event_ok_def)
  have "decode_all decode (map fst (ev_args e)) m (p + 32) =
      Some (map snd (ev_args e), p + 32 + length (event_payload e))"
    using args.decode_all_repr [OF valid, of "p + 32" m] header(2) by (simp add: repr)
  moreover have "(of_nat (length (event_bytes e)) :: u64) = header_size + of_nat (length (event_payload e))"
    by (simp add: event_bytes_length header_size_def)
  ultimately show ?thesis
    using site
    by (simp add: read_and_process_single_event_def header(1) header_of_event_bytes decode_and_format_def
        process_event_def zip_fst_snd option.map_comp comp_def split: option.split)
qed

text \<open>Serving a queue that holds events: the oldest one is processed and removed.\<close>

lemma poll_queue_empty:
  assumes "q_holds q []"
  shows "\<exists>q'. poll_queue en q o1 = Some (False, q', o1) \<and> q_holds q' [] \<and> q_cap q' = q_cap q"
proof -
  obtain q' where "read_bytes 0 q = Some (None, q')" "q_holds q' []" "q_cap q' = q_cap q"
    using read_bytes_laws(1) [OF assms] by blast
  then show ?thesis
    by (auto simp: read_bytes_def poll_queue_def split: prod.splits option.splits)
qed

lemma poll_queue_front:
  assumes "q_holds q (event_bytes e # ms)" and "event_typed en e"
  shows "\<exists>q'. poll_queue en q o1 = map_option (\<lambda>o2. (True, q', o2)) (process_event en e o1) \<and>
    q_holds q' ms \<and> q_cap q' = q_cap q"
proof -
  obtain q' where q': "read_bytes (length (event_bytes e)) q = Some (Some (event_bytes e), q')"
      "q_holds q' ms" "q_cap q' = q_cap q"
    using read_bytes_laws(2) [OF assms(1)] by blast
  obtain res q1 where res: "reserve_read q = (res, q1)" by fastforce
  obtain off where off: "rr_buffer res = Some off"
      "mem_read (unat off) (length (event_bytes e)) (q_buffer q1) = Some (event_bytes e)"
      "q' = commit_read (rr_current_read_pos res + of_nat (length (event_bytes e))) q1"
    using q'(1) res by (auto simp: read_bytes_def split: option.splits)
  show ?thesis
    using res off(1,3) q'(2,3) process_single_event [OF assms(2) off(2), of o1]
    by (auto simp: poll_queue_def split: option.split)
qed

section \<open>A queue of events\<close>

text \<open>Logging calls of the owner of a queue and polls of the backend, in any order. \<open>None\<close> is the end of
  the program.\<close>

datatype log_op = Log_Call log_event | Poll_Once

fun log_run :: "environment \<Rightarrow> log_op list \<Rightarrow> queue \<Rightarrow> outputs \<Rightarrow> (queue \<times> outputs) option" where
  "log_run en [] q o1 = Some (q, o1)"
| "log_run en (Log_Call e # ops) q o1 =
     (case push_event e q of None \<Rightarrow> None | Some (stored, q') \<Rightarrow> log_run en ops q' o1)"
| "log_run en (Poll_Once # ops) q o1 =
     (case poll_queue en q o1 of None \<Rightarrow> None | Some (any, q', o2) \<Rightarrow> log_run en ops q' o2)"

text \<open>The same on a plain list of events with a budget of \<open>c\<close> bytes.\<close>

definition event_fits :: "nat \<Rightarrow> log_event list \<Rightarrow> log_event \<Rightarrow> bool" where
  "event_fits c es e \<longleftrightarrow> fits c (map event_bytes es) (event_bytes e)"

fun log_model ::
  "environment \<Rightarrow> nat \<Rightarrow> log_op list \<Rightarrow> log_event list \<Rightarrow> outputs \<Rightarrow> (log_event list \<times> outputs) option"
where
  "log_model en c [] es o1 = Some (es, o1)"
| "log_model en c (Log_Call e # ops) es o1 =
     log_model en c ops (if event_fits c es e then es @ [e] else es) o1"
| "log_model en c (Poll_Once # ops) [] o1 = log_model en c ops [] o1"
| "log_model en c (Poll_Once # ops) (e # es) o1 =
     (case process_event en e o1 of None \<Rightarrow> None | Some o2 \<Rightarrow> log_model en c ops es o2)"

fun log_op_typed :: "environment \<Rightarrow> log_op \<Rightarrow> bool" where
  "log_op_typed en (Log_Call e) \<longleftrightarrow> event_typed en e"
| "log_op_typed en Poll_Once \<longleftrightarrow> True"

definition log_agrees ::
  "(queue \<times> outputs) option \<Rightarrow> (log_event list \<times> outputs) option \<Rightarrow> bool"
where
  "log_agrees r m \<longleftrightarrow>
     (case m of
        None \<Rightarrow> r = None
      | Some (es, o2) \<Rightarrow> (case r of None \<Rightarrow> False | Some (q, o3) \<Rightarrow> o3 = o2 \<and> q_holds q (map event_bytes es)))"

lemma push_event_law:
  assumes "event_ok e" and "q_holds q (map event_bytes es)"
  shows "\<exists>q'. push_event e q = Some (event_fits (q_cap q) es e, q') \<and> q_cap q' = q_cap q \<and>
    q_holds q' (map event_bytes (if event_fits (q_cap q) es e then es @ [e] else es))"
  using write_bytes_law [OF assms(2) event_bytes_facts(1,2) [OF assms(1)]]
  unfolding push_event_write [OF assms] by (auto simp: event_fits_def admit_def)

lemma log_run_agrees:
  "q_holds q (map event_bytes es) \<Longrightarrow> list_all (event_typed en) es \<Longrightarrow> list_all (log_op_typed en) ops \<Longrightarrow>
     log_agrees (log_run en ops q o1) (log_model en (q_cap q) ops es o1)"
proof (induction en "q_cap q" ops es o1 arbitrary: q rule: log_model.induct)
  case (1 en es o1)
  then show ?case by (simp add: log_agrees_def)
next
  case (2 en e ops es o1)
  then have typed: "event_typed en e" by simp
  then have "event_ok e" by (simp add: event_typed_def)
  from push_event_law [OF this 2(2)] obtain q' where
    q': "push_event e q = Some (event_fits (q_cap q) es e, q')" "q_cap q' = q_cap q"
      "q_holds q' (map event_bytes (if event_fits (q_cap q) es e then es @ [e] else es))"
    by blast
  have "list_all (event_typed en) (if event_fits (q_cap q) es e then es @ [e] else es)"
    using 2(3) typed by simp
  then have "log_agrees (log_run en ops q' o1)
      (log_model en (q_cap q) ops (if event_fits (q_cap q) es e then es @ [e] else es) o1)"
    using 2(1) [of q'] q'(2,3) 2(4) by simp
  then show ?case using q'(1) by simp
next
  case (3 en ops o1)
  from 3(2) have "q_holds q []" by simp
  then obtain q' where "poll_queue en q o1 = Some (False, q', o1)" "q_holds q' []" "q_cap q' = q_cap q"
    using poll_queue_empty by blast
  then show ?case using 3(1) [of q'] 3(4) by simp
next
  case (4 en ops e es o1)
  have typed: "event_typed en e" "list_all (event_typed en) es" using 4(3) by simp_all
  from 4(2) have "q_holds q (event_bytes e # map event_bytes es)" by simp
  from poll_queue_front [OF this typed(1)] obtain q' where
    q': "poll_queue en q o1 = map_option (\<lambda>o2. (True, q', o2)) (process_event en e o1)"
      "q_holds q' (map event_bytes es)" "q_cap q' = q_cap q"
    by blast
  show ?case
  proof (cases "process_event en e o1")
    case None
    then show ?thesis using q'(1) by (simp add: log_agrees_def)
  next
    case (Some o2)
    then show ?thesis using q' 4(1) [OF Some, of q'] typed(2) 4(4) by simp
  qed
qed

section \<open>From the call to the file\<close>

text \<open>The pattern data of an event, if everything it refers to exists and its message can be formatted.\<close>

definition event_data :: "environment \<Rightarrow> log_event \<Rightarrow> pattern_data option" where
  "event_data en e =
     (case en_sites en (ev_site e) of
        None \<Rightarrow> None
      | Some site \<Rightarrow>
          (case (en_uformat en (cs_fmt_str site) (ev_args e), en_names en (ev_name e), en_to_local en (ev_time e)) of
             (Some message, Some name, Some local_time) \<Rightarrow>
               Some \<lparr>pd_level = cs_level site, pd_thread_name = name,
                     pd_timestamp = local_time, pd_filename = cs_file_name site,
                     pd_functionname = cs_function_name site, pd_linenumber = cs_line site,
                     pd_message = message\<rparr>
           | _ \<Rightarrow> None))"

definition event_printable :: "environment \<Rightarrow> log_event \<Rightarrow> bool" where
  "event_printable en e \<longleftrightarrow> event_typed en e \<and>
     (case event_data en e of None \<Rightarrow> False | Some d \<Rightarrow> pd_timestamp d div ns_per_s \<noteq> -1)"

text \<open>The line an event leaves in the log, or nothing if its level is below the minimum.\<close>

definition event_line ::
  "environment \<Rightarrow> (fmt_arg \<Rightarrow> string) \<Rightarrow> token list \<Rightarrow> u8 \<Rightarrow> log_event \<Rightarrow> string"
where
  "event_line en sh ts min_level e =
     (case event_data en e of
        None \<Rightarrow> []
      | Some d \<Rightarrow>
          if pd_level d < min_level then []
          else concat (map (token_out (en_hms en) sh d) ts) @ [CHR 0x0A])"

definition outputs_ready :: "environment \<Rightarrow> nat \<Rightarrow> nat \<Rightarrow> token list \<Rightarrow> outputs \<Rightarrow> bool" where
  "outputs_ready en mf ml ts o1 \<longleftrightarrow> accepted mf ml ts \<and>
     fo_pattern (fh_formatter (o_formatter o1)) = pattern_of ts \<and> caches_ok (en_hms en) (o_caches o1)"

lemma process_event_line:
  assumes "fmt_renders sh (en_vformat en)" and "outputs_ready en mf ml ts o1" and "event_printable en e"
  shows "\<exists>o2. process_event en e o1 = Some o2 \<and> outputs_ready en mf ml ts o2 \<and>
    o_min_level o2 = o_min_level o1 \<and> sk_file (o_sink o2) = sk_file (o_sink o1) \<and>
    file_output (sk_file (o_sink o1)) (sk_io (o_sink o2)) =
      file_output (sk_file (o_sink o1)) (sk_io (o_sink o1)) @ event_line en sh ts (o_min_level o1) e"
proof -
  obtain d where d: "event_data en e = Some d" "pd_timestamp d div ns_per_s \<noteq> -1"
    using assms(3) by (auto simp: event_printable_def split: option.splits)
  obtain site msg name local_time where site: "en_sites en (ev_site e) = Some site"
      "en_uformat en (cs_fmt_str site) (ev_args e) = Some msg" "en_names en (ev_name e) = Some name"
      "d = \<lparr>pd_level = cs_level site, pd_thread_name = name, pd_timestamp = local_time,
            pd_filename = cs_file_name site, pd_functionname = cs_function_name site,
            pd_linenumber = cs_line site, pd_message = msg\<rparr>"
      "en_to_local en (ev_time e) = Some local_time"
    using d(1) by (auto simp: event_data_def split: option.splits)
  have process: "process_event en e o1 = emit_event en site name (ev_time e) msg o1"
    using site by (simp add: process_event_def)
  show ?thesis
  proof (cases "cs_level site < o_min_level o1")
    case True
    then show ?thesis
      using assms(2) site(4) d(1) by (simp add: process emit_event_def event_line_def)
  next
    case False
    have ready: "accepted mf ml ts" "fo_pattern (fh_formatter (o_formatter o1)) = pattern_of ts"
        "caches_ok (en_hms en) (o_caches o1)"
      using assms(2) by (simp_all add: outputs_ready_def)
    from format_accepted [OF assms(1) ready(1,3) d(2)] obtain cs' where
      fmt: "format_impl (en_hms en) (en_vformat en) (pattern_of ts) d (o_caches o1) =
        (Some (concat (map (token_out (en_hms en) sh d) ts)), cs')" "caches_ok (en_hms en) cs'"
      by blast
    have "emit_event en site name (ev_time e) msg o1 =
        Some (o1\<lparr>o_sink := write_str_and_endl (concat (map (token_out (en_hms en) sh d) ts)) (o_sink o1),
                 o_formatter := format_use () (o_formatter o1), o_caches := cs'\<rparr>)"
      using False fmt(1) site(4,5) ready(2)
      by (simp add: emit_event_def handler_format_def format_use_def Let_def)
    then show ?thesis
      unfolding process using fmt(2) ready False site(4) d(1)
      by (simp add: outputs_ready_def event_line_def write_str_and_endl_def io_def format_use_def heap_do_def)
  qed
qed

section \<open>Properties\<close>

text \<open>C25. A log call is all or nothing: if the header and the arguments fit into the free space of the
  thread's queue the event is appended as one message, otherwise it is dropped and the queue still
  holds exactly what it held; no byte is ever written outside the queue's buffer.\<close>
theorem push_log_event_all_or_nothing:
  assumes "event_ok e" and "q_holds q ms"
  shows "\<exists>q'. push_log_event (ev_site e) (ev_args e) (ev_name e) (ev_time e) q =
      Some (fits (q_cap q) ms (event_bytes e), q') \<and> q_cap q' = q_cap q \<and>
    q_holds q' (if fits (q_cap q) ms (event_bytes e) then ms @ [event_bytes e] else ms)"
  using write_bytes_law [OF assms(2) event_bytes_facts(1,2) [OF assms(1)]]
  unfolding push_event_def [symmetric] push_event_write [OF assms] by (simp add: admit_def)

definition demo_event :: log_event where
  "demo_event = \<lparr>ev_site = 4096, ev_name = 8192, ev_time = 58089000071000,
     ev_args = [(C_Triv ''int'' 4, V_Triv [42, 0, 0, 0]), (C_String ''char'' 1, V_String [[104], [105]])]\<rparr>"

lemma demo_event_ok: "event_ok demo_event"
  by (simp add: event_ok_def demo_event_def cval_ok_def event_payload_def)

lemma demo_event_size: "length (event_bytes demo_event) = 46"
  by (simp add: event_bytes_length demo_event_def event_payload_def)

lemma push_log_event_all_or_nothing_witness:
  "\<exists>q q' q''. new_queue 64 = Some q \<and>
     push_log_event (ev_site demo_event) (ev_args demo_event) (ev_name demo_event) (ev_time demo_event) q =
       Some (True, q') \<and> q_holds q' [event_bytes demo_event] \<and>
     push_log_event (ev_site demo_event) (ev_args demo_event) (ev_name demo_event) (ev_time demo_event) q' =
       Some (False, q'') \<and> q_holds q'' [event_bytes demo_event]"
proof -
  obtain q where q: "new_queue 64 = Some q" "q_holds q []" using new_queue_holds [of 64] by auto
  have cap: "q_cap q = 64" using q(1) by (auto simp: new_queue_def bit_ceil_def upt_rec q_cap_def)
  obtain q' where q': "push_log_event (ev_site demo_event) (ev_args demo_event) (ev_name demo_event)
        (ev_time demo_event) q = Some (True, q')" "q_cap q' = 64" "q_holds q' [event_bytes demo_event]"
    using push_log_event_all_or_nothing [OF demo_event_ok q(2)] cap by (auto simp: fits_def demo_event_size)
  obtain q'' where "push_log_event (ev_site demo_event) (ev_args demo_event) (ev_name demo_event)
        (ev_time demo_event) q' = Some (False, q'')" "q_holds q'' [event_bytes demo_event]"
    using push_log_event_all_or_nothing [OF demo_event_ok q'(3)] q'(2) by (auto simp: fits_def demo_event_size)
  then show ?thesis using q(1) q' by blast
qed

text \<open>C15. A thread's queue behaves as a list of events: for any interleaving of log calls and polls the
  code, with its byte encoding and its ring buffer, does to the outputs what the list model does,
  event by event in the order of the calls, ends the program exactly when the model says so, and
  keeps the events the model keeps.\<close>
theorem log_queue_refines_event_list:
  assumes "q_holds q (map event_bytes es)" and "list_all (event_typed en) es"
    and "list_all (log_op_typed en) ops"
  shows "log_agrees (log_run en ops q o1) (log_model en (q_cap q) ops es o1)"
  by (rule log_run_agrees [OF assms])

definition demo_uformat :: "string \<Rightarrow> (ctype \<times> cval) list \<Rightarrow> string option" where
  "demo_uformat f as = vformat_ref f (map (\<lambda>(t, v).
     case v of V_String us \<Rightarrow> A_Str (map (\<lambda>b. char_of (unat b)) (concat us))
     | V_Triv bs \<Rightarrow> A_U64 (of_nat (le_nat bs))) as)"

definition demo_env :: environment where
  "demo_env =
     \<lparr>en_sites = (\<lambda>a. if a = 4096 then Some
        \<lparr>cs_level = level_code Warn, cs_fmt_str = ''n={} {}'', cs_arg_types = [C_Triv ''int'' 4, C_String ''char'' 1],
         cs_file_name = ''/src/app/x.cpp'', cs_function_name = ''f'', cs_line = 42\<rparr> else None),
      en_names = (\<lambda>a. if a = 8192 then Some ''main'' else None),
      en_uformat = demo_uformat, en_hms = hms_ref, en_vformat = vformat_ref, en_to_local = (\<lambda>ts. Some (uint ts))\<rparr>"

definition demo_outputs :: outputs where
  "demo_outputs = \<lparr>o_sink = new_sink_handler, o_formatter = new_formatter_handler 0,
     o_caches = initial_caches, o_min_level = level_code Info\<rparr>"

lemma demo_event_typed: "event_typed demo_env demo_event"
  using demo_event_ok by (simp add: event_typed_def demo_env_def demo_event_def)

lemma demo_event_data:
  "event_data demo_env demo_event = Some (demo_data\<lparr>pd_message := ''n=42 hi''\<rparr>)"
  by code_simp

lemma demo_event_printable: "event_printable demo_env demo_event"
  using demo_event_typed by (simp add: event_printable_def demo_event_data demo_data_def ns_per_s_def)

lemma log_queue_refines_event_list_witness:
  "\<exists>q. new_queue 64 = Some q \<and>
     log_agrees (log_run demo_env [Log_Call demo_event, Log_Call demo_event, Poll_Once, Poll_Once] q demo_outputs)
       (log_model demo_env 64 [Log_Call demo_event, Log_Call demo_event, Poll_Once, Poll_Once] [] demo_outputs)"
proof -
  obtain q where q: "new_queue 64 = Some q" "q_holds q []" using new_queue_holds [of 64] by auto
  have cap: "q_cap q = 64" using q(1) by (auto simp: new_queue_def bit_ceil_def upt_rec q_cap_def)
  have "log_agrees (log_run demo_env [Log_Call demo_event, Log_Call demo_event, Poll_Once, Poll_Once] q demo_outputs)
      (log_model demo_env (q_cap q) [Log_Call demo_event, Log_Call demo_event, Poll_Once, Poll_Once] [] demo_outputs)"
    by (rule log_queue_refines_event_list) (use q(2) in \<open>simp_all add: demo_event_typed\<close>)
  then show ?thesis using q(1) cap by auto
qed

lemma log_model_push_all:
  "length (concat (map event_bytes (es @ es'))) \<le> c \<Longrightarrow>
     log_model en c (map Log_Call es' @ ops) es o1 = log_model en c ops (es @ es') o1"
proof (induction es' arbitrary: es)
  case (Cons e es')
  then have "event_fits c es e" by (simp add: event_fits_def fits_def)
  then show ?case using Cons.IH [of "es @ [e]"] Cons.prems by simp
qed simp

lemma log_model_poll_all:
  assumes "fmt_renders sh (en_vformat en)"
  shows "outputs_ready en mf ml ts o1 \<Longrightarrow> list_all (event_printable en) es \<Longrightarrow>
    \<exists>o2. log_model en c (map (\<lambda>_. Poll_Once) es) es o1 = Some ([], o2) \<and>
      file_output (sk_file (o_sink o1)) (sk_io (o_sink o2)) =
        file_output (sk_file (o_sink o1)) (sk_io (o_sink o1)) @
        concat (map (event_line en sh ts (o_min_level o1)) es)"
proof (induction es arbitrary: o1)
  case (Cons e es)
  then obtain o2 where o2: "process_event en e o1 = Some o2" "outputs_ready en mf ml ts o2"
      "o_min_level o2 = o_min_level o1" "sk_file (o_sink o2) = sk_file (o_sink o1)"
      "file_output (sk_file (o_sink o1)) (sk_io (o_sink o2)) =
        file_output (sk_file (o_sink o1)) (sk_io (o_sink o1)) @ event_line en sh ts (o_min_level o1) e"
    using process_event_line [OF assms, of mf ml ts o1 e] by auto
  then show ?case using Cons.IH [OF o2(2)] Cons.prems(2) by auto
qed simp

text \<open>C2. What is logged is what is in the file: events that together fit into an empty queue are all
  stored, and polling once per event appends to the sink's file exactly their lines, each laid out by
  the pattern in force and ended by a newline, in the order of the calls, without those below
  the minimum level at the time of the poll.\<close>
theorem logged_events_reach_file:
  assumes "fmt_renders sh (en_vformat en)" and "outputs_ready en mf ml ts o1"
    and "list_all (event_printable en) es"
    and "q_holds q []" and "length (concat (map event_bytes es)) \<le> q_cap q"
  shows "\<exists>q' o2. log_run en (map Log_Call es @ map (\<lambda>_. Poll_Once) es) q o1 = Some (q', o2) \<and> q_holds q' [] \<and>
    file_output (sk_file (o_sink o1)) (sk_io (o_sink o2)) =
      file_output (sk_file (o_sink o1)) (sk_io (o_sink o1)) @
      concat (map (event_line en sh ts (o_min_level o1)) es)"
proof -
  let ?ops = "map Log_Call es @ map (\<lambda>_. Poll_Once) es"
  have "list_all (log_op_typed en) ?ops"
    using assms(3) by (auto simp: list_all_iff event_printable_def)
  then have agrees: "log_agrees (log_run en ?ops q o1) (log_model en (q_cap q) ?ops [] o1)"
    using log_run_agrees [of q "[]" en ?ops o1] assms(4) by simp
  obtain o2 where o2: "log_model en (q_cap q) (map (\<lambda>_. Poll_Once) es) es o1 = Some ([], o2)"
      "file_output (sk_file (o_sink o1)) (sk_io (o_sink o2)) =
        file_output (sk_file (o_sink o1)) (sk_io (o_sink o1)) @
        concat (map (event_line en sh ts (o_min_level o1)) es)"
    using log_model_poll_all [OF assms(1-3)] by blast
  have "log_model en (q_cap q) ?ops [] o1 = Some ([], o2)"
    using log_model_push_all [of "[]" es] assms(5) o2(1) by simp
  then show ?thesis using agrees o2(2) by (auto simp: log_agrees_def split: option.splits)
qed

lemma demo_outputs_ready: "outputs_ready demo_env 16 1000 default_tokens demo_outputs"
  using default_pattern_accepted default_pattern_parses
  by (simp add: outputs_ready_def demo_outputs_def new_formatter_handler_def default_pattern_def)

lemma demo_event_line:
  "event_line demo_env show_ref default_tokens (level_code Info) demo_event =
     ''[16:08:09.000071] (WARN) (x.cpp:42) n=42 hi'' @ [CHR 0x0A]"
  by code_simp

lemma logged_events_reach_file_witness:
  "\<exists>q q' o2. new_queue 128 = Some q \<and>
     log_run demo_env (map Log_Call [demo_event, demo_event] @ map (\<lambda>_. Poll_Once) [demo_event, demo_event]) q
       demo_outputs = Some (q', o2) \<and>
     file_output Stdout (sk_io (o_sink o2)) =
       ''[16:08:09.000071] (WARN) (x.cpp:42) n=42 hi'' @ [CHR 0x0A] @
       ''[16:08:09.000071] (WARN) (x.cpp:42) n=42 hi'' @ [CHR 0x0A]"
proof -
  obtain q where q: "new_queue 128 = Some q" "q_holds q []" using new_queue_holds [of 128] by auto
  have cap: "q_cap q = 128" using q(1) by (auto simp: new_queue_def bit_ceil_def upt_rec q_cap_def)
  have fmt: "fmt_renders show_ref (en_vformat demo_env)" by (simp add: demo_env_def fmt_renders_ref)
  have "sk_file (o_sink demo_outputs) = Stdout" "sk_io (o_sink demo_outputs) = []"
      "o_min_level demo_outputs = level_code Info"
    by (simp_all add: demo_outputs_def new_sink_handler_def)
  moreover have "length (concat (map event_bytes [demo_event, demo_event])) \<le> q_cap q"
    using cap by (simp add: demo_event_size)
  ultimately show ?thesis
    using logged_events_reach_file [OF fmt demo_outputs_ready _ q(2), of "[demo_event, demo_event]"]
      demo_event_printable q(1) demo_event_line
    by auto
qed

end
