(* ===== verification/Thread_Registry.thy ===== *)
theory Thread_Registry
  imports Ring_Queue
begin

text \<open>
  The registry of logging threads in \<open>include/papper/detail/core.h\<close>: \<open>ThreadContext\<close> and the singly
  linked list of \<open>ThreadContextNode\<close>s that \<open>register_thread\<close> pushes onto and
  \<open>remove_and_delete_node\<close> unlinks from. Any number of threads register concurrently, without locks,
  while the backend thread removes nodes.

  The heap is explicit: nodes and contexts have addresses, an access to one that does not exist (any
  more) is \<open>None\<close>. \<open>register_thread\<close> is the sequence of its atomic steps (load the head, compare and
  exchange until it succeeds), \<open>remove_and_delete_node\<close> its exchange of the head and, if that fails,
  the walk and the unlinking; \<open>registry_step\<close> interleaves them.
\<close>

section \<open>ThreadContext\<close>

record thread_context =
  tc_name :: string
  tc_q :: queue
  tc_is_alive :: bool

definition int_string :: "int \<Rightarrow> string" where
  "int_string i = (if i < 0 then CHR ''-'' # dec_string (nat (- i)) else dec_string (nat i))"

text \<open>The constructor; \<open>unnamed\<close> is the static \<open>unnamed_thread_counter\<close>, an atomic \<open>int\<close>, whose increment
  wraps. The result is the context and the new value of the counter.\<close>

definition new_thread_context :: "string \<Rightarrow> u64 \<Rightarrow> u32 \<Rightarrow> (thread_context \<times> u32) option" where
  "new_thread_context thread_name queue_size unnamed =
     (case new_queue queue_size of
        None \<Rightarrow> None
      | Some q \<Rightarrow>
          if thread_name = '''' then
            let unnamed' = unnamed + 1
            in Some (\<lparr>tc_name = ''thread_'' @ int_string (sint unnamed'), tc_q = q, tc_is_alive = True\<rparr>, unnamed')
          else Some (\<lparr>tc_name = thread_name, tc_q = q, tc_is_alive = True\<rparr>, unnamed))"

definition kill :: "thread_context \<Rightarrow> thread_context" where
  "kill c = c\<lparr>tc_is_alive := False\<rparr>"

definition thread_is_alive :: "thread_context \<Rightarrow> bool" where
  "thread_is_alive c = tc_is_alive c"

section \<open>The list and its operations\<close>

record node =
  nd_context :: nat
  nd_next :: "nat option"

record registry =
  rg_head :: "nat option"
  rg_nodes :: "nat \<Rightarrow> node option"
  rg_contexts :: "nat \<Rightarrow> thread_context option"

definition empty_registry :: registry where
  "empty_registry = \<lparr>rg_head = None, rg_nodes = (\<lambda>a. None), rg_contexts = (\<lambda>a. None)\<rparr>"

text \<open>\<open>new ThreadContextNode\<close> at address \<open>n\<close> and the first, relaxed load of the head.\<close>

definition register_begin :: "nat \<Rightarrow> nat \<Rightarrow> registry \<Rightarrow> registry" where
  "register_begin n ctx rg = rg\<lparr>rg_nodes := (rg_nodes rg)(n \<mapsto> \<lparr>nd_context = ctx, nd_next = rg_head rg\<rparr>)\<rparr>"

text \<open>One \<open>compare_exchange_weak(node->next, node)\<close>: on failure, which may be spurious, \<open>node->next\<close> is
  set to the head.\<close>

definition register_cas :: "bool \<Rightarrow> nat \<Rightarrow> registry \<Rightarrow> (bool \<times> registry) option" where
  "register_cas spurious n rg =
     (case rg_nodes rg n of
        None \<Rightarrow> None
      | Some nd \<Rightarrow>
          if nd_next nd = rg_head rg \<and> \<not> spurious then Some (True, rg\<lparr>rg_head := Some n\<rparr>)
          else Some (False, rg\<lparr>rg_nodes := (rg_nodes rg)(n \<mapsto> nd\<lparr>nd_next := rg_head rg\<rparr>)\<rparr>))"

definition delete_node :: "nat \<Rightarrow> node \<Rightarrow> registry \<Rightarrow> registry" where
  "delete_node n nd rg = rg\<lparr>rg_contexts := (rg_contexts rg)(nd_context nd := None),
     rg_nodes := (rg_nodes rg)(n := None)\<rparr>"

text \<open>The first half of \<open>remove_and_delete_node\<close>: the exchange of the head. \<open>Inl\<close> says the node was the
  head and is gone, \<open>Inr\<close> gives the head that was seen.\<close>

definition remove_cas :: "nat \<Rightarrow> registry \<Rightarrow> (registry + nat option) option" where
  "remove_cas n rg =
     (case rg_nodes rg n of
        None \<Rightarrow> None
      | Some nd \<Rightarrow>
          if rg_head rg = Some n then Some (Inl (delete_node n nd (rg\<lparr>rg_head := nd_next nd\<rparr>)))
          else Some (Inr (rg_head rg)))"

text \<open>The walk to the node; the result is \<open>current\<close> and \<open>previous\<close> when it stops. A cycle would make it
  run for ever, which is \<open>None\<close>.\<close>

partial_function (option) find_node ::
  "(nat \<Rightarrow> node option) \<Rightarrow> nat \<Rightarrow> nat option \<Rightarrow> nat option \<Rightarrow> (nat option \<times> nat option) option"
where
  "find_node nodes n current previous =
     (case current of
        None \<Rightarrow> Some (None, previous)
      | Some c \<Rightarrow>
          if c = n then Some (current, previous)
          else (case nodes c of
                  None \<Rightarrow> None
                | Some nd \<Rightarrow> find_node nodes n (nd_next nd) current))"

definition remove_unlink :: "nat \<Rightarrow> nat option \<Rightarrow> registry \<Rightarrow> registry option" where
  "remove_unlink n expected rg =
     (case find_node (rg_nodes rg) n expected None of
        None \<Rightarrow> None
      | Some (None, previous) \<Rightarrow> Some rg
      | Some (Some current, None) \<Rightarrow> None
      | Some (Some current, Some previous) \<Rightarrow>
          (case (rg_nodes rg current, rg_nodes rg previous) of
             (Some nd, Some pd) \<Rightarrow>
               Some (delete_node n nd
                 (rg\<lparr>rg_nodes := (rg_nodes rg)(previous \<mapsto> pd\<lparr>nd_next := nd_next nd\<rparr>)\<rparr>))
           | _ \<Rightarrow> None))"

definition remove_and_delete_node :: "nat option \<Rightarrow> registry \<Rightarrow> registry option" where
  "remove_and_delete_node node rg =
     (case node of
        None \<Rightarrow> Some rg
      | Some n \<Rightarrow>
          (case remove_cas n rg of
             None \<Rightarrow> None
           | Some (Inl rg') \<Rightarrow> Some rg'
           | Some (Inr expected) \<Rightarrow> remove_unlink n expected rg))"

section \<open>Linked lists\<close>

fun linked :: "(nat \<Rightarrow> node option) \<Rightarrow> nat option \<Rightarrow> nat list \<Rightarrow> bool" where
  "linked nodes p [] \<longleftrightarrow> p = None"
| "linked nodes p (n # ns) \<longleftrightarrow>
     p = Some n \<and> (case nodes n of None \<Rightarrow> False | Some nd \<Rightarrow> linked nodes (nd_next nd) ns)"

lemma linked_cong:
  "(\<And>n. n \<in> set ns \<Longrightarrow> nodes' n = nodes n) \<Longrightarrow> linked nodes' p ns = linked nodes p ns"
  by (induction ns arbitrary: p) (auto split: option.split)

lemma linked_update_other:
  "n \<notin> set ns \<Longrightarrow> linked (nodes(n := v)) p ns = linked nodes p ns"
  by (rule linked_cong) auto

lemma linked_alloc: "linked nodes p ns \<Longrightarrow> n \<in> set ns \<Longrightarrow> nodes n \<noteq> None"
  by (induction ns arbitrary: p) (auto split: option.splits)

lemma linked_unique: "linked nodes p ns \<Longrightarrow> linked nodes p ms \<Longrightarrow> ns = ms"
proof (induction ns arbitrary: p ms)
  case Nil
  then show ?case by (cases ms) auto
next
  case (Cons n ns)
  then show ?case by (cases ms) (auto split: option.splits)
qed

lemma linked_append:
  "linked nodes p (as @ b # bs) \<Longrightarrow> linked nodes (Some b) (b # bs)"
proof (induction as arbitrary: p)
  case (Cons a as)
  then obtain nd where "nodes a = Some nd" by (cases "nodes a") auto
  then have "linked nodes (nd_next nd) (as @ b # bs)" using Cons.prems by simp
  then have "linked nodes (Some b) (b # bs)" by (rule Cons.IH)
  then show ?case .
qed simp

text \<open>The walk finds the node, with its predecessor.\<close>

lemma find_node_linked:
  "linked nodes p (as @ b # bs) \<Longrightarrow> b \<notin> set as \<Longrightarrow>
     find_node nodes b p prev = Some (Some b, if as = [] then prev else Some (last as))"
proof (induction as arbitrary: p prev)
  case Nil
  then show ?case by (subst find_node.simps) simp
next
  case (Cons a as)
  then obtain nd where nd: "p = Some a" "nodes a = Some nd" "linked nodes (nd_next nd) (as @ b # bs)" "a \<noteq> b"
    by (auto split: option.splits)
  have "find_node nodes b (nd_next nd) (Some a) = Some (Some b, if as = [] then Some a else Some (last as))"
    using Cons.IH [OF nd(3)] Cons.prems(2) by simp
  then show ?case using nd by (subst find_node.simps) (cases "as = []"; simp)
qed

lemma find_node_absent:
  "linked nodes p ns \<Longrightarrow> b \<notin> set ns \<Longrightarrow> \<exists>prev'. find_node nodes b p prev = Some (None, prev')"
proof (induction ns arbitrary: p prev)
  case Nil
  then show ?case by (subst find_node.simps) simp
next
  case (Cons a ns)
  then show ?case by (subst find_node.simps) (auto split: option.splits)
qed

lemma linked_unlink:
  assumes "linked nodes p (as @ a # b # bs)" and "distinct (as @ a # b # bs)"
    and "nodes b = Some nd" and "nodes' a = Some pd" and "nd_next pd = nd_next nd"
    and "\<And>c. c \<noteq> a \<Longrightarrow> c \<noteq> b \<Longrightarrow> nodes' c = nodes c"
  shows "linked nodes' p (as @ a # bs)"
  using assms(1,2)
proof (induction as arbitrary: p)
  case Nil
  have bs: "linked nodes (nd_next nd) bs" "a \<notin> set bs" "b \<notin> set bs" "p = Some a"
    using Nil assms(3) by (auto split: option.splits)
  have "linked nodes' (nd_next nd) bs = linked nodes (nd_next nd) bs"
    by (rule linked_cong) (use bs(2,3) in \<open>auto intro!: assms(6)\<close>)
  then show ?case using bs(1,4) assms(4,5) by simp
next
  case (Cons c as)
  obtain cd where cd: "nodes c = Some cd" "p = Some c" using Cons.prems(1) by (cases "nodes c") auto
  then have "linked nodes' (nd_next cd) (as @ a # bs)" using Cons by simp
  moreover have "nodes' c = nodes c" using Cons.prems(2) by (intro assms(6)) auto
  ultimately show ?case using cd by simp
qed

section \<open>One operation on a well-formed registry\<close>

definition ctx_of :: "registry \<Rightarrow> nat \<Rightarrow> nat option" where
  "ctx_of rg n = map_option nd_context (rg_nodes rg n)"

text \<open>Every allocated node has a context of its own.\<close>

definition ctx_ok :: "registry \<Rightarrow> bool" where
  "ctx_ok rg \<longleftrightarrow> (\<forall>n c. ctx_of rg n = Some c \<longrightarrow> rg_contexts rg c \<noteq> None) \<and>
     (\<forall>n m c. ctx_of rg n = Some c \<longrightarrow> ctx_of rg m = Some c \<longrightarrow> n = m)"

text \<open>\<open>rg_holds rg ns\<close>: the list from the head is \<open>ns\<close>.\<close>

definition rg_holds :: "registry \<Rightarrow> nat list \<Rightarrow> bool" where
  "rg_holds rg ns \<longleftrightarrow> linked (rg_nodes rg) (rg_head rg) ns \<and> distinct ns \<and> ctx_ok rg"

text \<open>\<open>rg'\<close> is \<open>rg\<close> without the node \<open>n\<close> and its context.\<close>

definition freed :: "nat \<Rightarrow> registry \<Rightarrow> registry \<Rightarrow> bool" where
  "freed n rg rg' \<longleftrightarrow> ctx_of rg n \<noteq> None \<and> ctx_of rg' = (ctx_of rg)(n := None) \<and>
     rg_contexts rg' = (rg_contexts rg)(the (ctx_of rg n) := None)"

lemma freed_ctx_ok: "freed n rg rg' \<Longrightarrow> ctx_ok rg \<Longrightarrow> ctx_ok rg'"
  unfolding freed_def ctx_ok_def by (auto split: if_splits)

lemma remove_cas_head:
  assumes "linked (rg_nodes rg) (rg_head rg) (n # ns)" and "n \<notin> set ns"
  shows "\<exists>rg'. remove_cas n rg = Some (Inl rg') \<and> linked (rg_nodes rg') (rg_head rg') ns \<and> freed n rg rg'"
  using assms
  by (cases "rg_nodes rg n")
    (auto simp: remove_cas_def delete_node_def freed_def ctx_of_def linked_update_other)

lemma remove_cas_other:
  assumes "linked (rg_nodes rg) (rg_head rg) ns" and "n \<in> set ns" and "hd ns \<noteq> n"
  shows "remove_cas n rg = Some (Inr (rg_head rg))"
proof -
  have "rg_nodes rg n \<noteq> None" using linked_alloc assms(1,2) by blast
  moreover have "rg_head rg \<noteq> Some n" using assms by (cases ns) auto
  ultimately show ?thesis by (auto simp: remove_cas_def)
qed

lemma remove_unlink_linked:
  assumes list: "linked (rg_nodes rg) (rg_head rg) (pre @ as @ a # n # bs)"
    and dist: "distinct (pre @ as @ a # n # bs)" and e: "linked (rg_nodes rg) e (as @ a # n # bs)"
  shows "\<exists>rg'. remove_unlink n e rg = Some rg' \<and> rg_head rg' = rg_head rg \<and>
    linked (rg_nodes rg') (rg_head rg') (pre @ as @ a # bs) \<and> freed n rg rg' \<and>
    (\<forall>c. c \<noteq> a \<longrightarrow> c \<noteq> n \<longrightarrow> rg_nodes rg' c = rg_nodes rg c)"
proof -
  have find: "find_node (rg_nodes rg) n e None = Some (Some n, Some a)"
    using find_node_linked [of "rg_nodes rg" e "as @ [a]" n bs None] e dist by simp
  obtain nd pd where nodes: "rg_nodes rg n = Some nd" "rg_nodes rg a = Some pd"
    using linked_alloc [OF e, of n] linked_alloc [OF e, of a] by auto
  have "a \<noteq> n" using dist by simp
  define rg' where "rg' = delete_node n nd
    (rg\<lparr>rg_nodes := (rg_nodes rg)(a \<mapsto> pd\<lparr>nd_next := nd_next nd\<rparr>)\<rparr>)"
  have rg': "remove_unlink n e rg = Some rg'" "rg_head rg' = rg_head rg"
      "rg_nodes rg' = (rg_nodes rg)(a \<mapsto> pd\<lparr>nd_next := nd_next nd\<rparr>, n := None)"
      "rg_contexts rg' = (rg_contexts rg)(nd_context nd := None)"
    using find nodes by (simp_all add: remove_unlink_def rg'_def delete_node_def)
  have "linked (rg_nodes rg') (rg_head rg') ((pre @ as) @ a # bs)"
    unfolding rg'(2)
    by (rule linked_unlink [where nodes = "rg_nodes rg" and pd = "pd\<lparr>nd_next := nd_next nd\<rparr>"])
      (use list dist nodes \<open>a \<noteq> n\<close> in \<open>auto simp: rg'(3)\<close>)
  moreover have "freed n rg rg'"
    using nodes \<open>a \<noteq> n\<close> rg'(3,4) by (auto simp: freed_def ctx_of_def)
  ultimately show ?thesis using rg' by simp
qed

lemma split_before:
  assumes "n \<in> set ns" and "hd ns \<noteq> n"
  obtains as a bs where "ns = as @ a # n # bs"
proof -
  obtain xs bs where xs: "ns = xs @ n # bs" using assms(1) by (meson split_list)
  then have "xs \<noteq> []" using assms(2) by auto
  then have "ns = butlast xs @ last xs # n # bs" using xs by simp
  then show ?thesis by (rule that)
qed

text \<open>Removing a member: the list loses it and nothing else.\<close>

lemma remove_and_delete_node_law:
  assumes "rg_holds rg ns" and "n \<in> set ns"
  shows "\<exists>rg'. remove_and_delete_node (Some n) rg = Some rg' \<and> rg_holds rg' (remove1 n ns) \<and> freed n rg rg'"
proof (cases "hd ns = n")
  case True
  then obtain ns' where ns: "ns = n # ns'" using assms(2) by (cases ns) auto
  obtain rg' where "remove_cas n rg = Some (Inl rg')" "linked (rg_nodes rg') (rg_head rg') ns'" "freed n rg rg'"
    using remove_cas_head assms(1) unfolding rg_holds_def ns by fastforce
  then show ?thesis
    using assms(1) freed_ctx_ok by (auto simp: remove_and_delete_node_def rg_holds_def ns)
next
  case False
  obtain as a bs where ns: "ns = as @ a # n # bs" using split_before [OF assms(2) False] .
  have list: "linked (rg_nodes rg) (rg_head rg) (as @ a # n # bs)" "distinct (as @ a # n # bs)"
    using assms(1) by (simp_all add: rg_holds_def ns)
  obtain rg' where rg': "remove_unlink n (rg_head rg) rg = Some rg'"
      "linked (rg_nodes rg') (rg_head rg') (as @ a # bs)" "freed n rg rg'"
    using remove_unlink_linked [of rg "[]" as a n bs "rg_head rg"] list by auto
  have "remove1 n ns = as @ a # bs" using list(2) by (simp add: ns remove1_append)
  moreover have "remove_cas n rg = Some (Inr (rg_head rg))"
    using remove_cas_other [of rg ns n] assms False by (simp add: rg_holds_def)
  ultimately show ?thesis
    using rg' list(2) freed_ctx_ok assms(1) by (auto simp: remove_and_delete_node_def rg_holds_def)
qed

section \<open>Any interleaving\<close>

datatype registry_event = Registered nat | Removed nat

text \<open>The registry with the registrations under way (nodes that are allocated but not yet in the
  list), the removal under way (the node and the head its exchange saw) and the completed events,
  newest first.\<close>

record registry_state =
  rs_rg :: registry
  rs_registering :: "nat list"
  rs_removing :: "(nat \<times> nat option) option"
  rs_log :: "registry_event list"

definition init_registry :: registry_state where
  "init_registry = \<lparr>rs_rg = empty_registry, rs_registering = [], rs_removing = None, rs_log = []\<rparr>"

definition add_context :: "nat \<Rightarrow> thread_context \<Rightarrow> registry \<Rightarrow> registry" where
  "add_context c ctx rg = rg\<lparr>rg_contexts := (rg_contexts rg)(c \<mapsto> ctx)\<rparr>"

inductive registry_step :: "registry_state \<Rightarrow> registry_state \<Rightarrow> bool" where
  reg_begin: "rg_nodes (rs_rg st) n = None \<Longrightarrow> rg_contexts (rs_rg st) c = None \<Longrightarrow>
    registry_step st (st\<lparr>rs_rg := register_begin n c (add_context c ctx (rs_rg st)),
      rs_registering := n # rs_registering st\<rparr>)"
| reg_cas_ok: "n \<in> set (rs_registering st) \<Longrightarrow> register_cas spurious n (rs_rg st) = Some (True, rg) \<Longrightarrow>
    registry_step st (st\<lparr>rs_rg := rg, rs_registering := removeAll n (rs_registering st),
      rs_log := Registered n # rs_log st\<rparr>)"
| reg_cas_fail: "n \<in> set (rs_registering st) \<Longrightarrow> register_cas spurious n (rs_rg st) = Some (False, rg) \<Longrightarrow>
    registry_step st (st\<lparr>rs_rg := rg\<rparr>)"
| rem_head: "rs_removing st = None \<Longrightarrow> linked (rg_nodes (rs_rg st)) (rg_head (rs_rg st)) ns \<Longrightarrow> n \<in> set ns \<Longrightarrow>
    remove_cas n (rs_rg st) = Some (Inl rg) \<Longrightarrow>
    registry_step st (st\<lparr>rs_rg := rg, rs_log := Removed n # rs_log st\<rparr>)"
| rem_begin: "rs_removing st = None \<Longrightarrow> linked (rg_nodes (rs_rg st)) (rg_head (rs_rg st)) ns \<Longrightarrow> n \<in> set ns \<Longrightarrow>
    remove_cas n (rs_rg st) = Some (Inr expected) \<Longrightarrow>
    registry_step st (st\<lparr>rs_removing := Some (n, expected)\<rparr>)"
| rem_finish: "rs_removing st = Some (n, expected) \<Longrightarrow> remove_unlink n expected (rs_rg st) = Some rg \<Longrightarrow>
    registry_step st (st\<lparr>rs_rg := rg, rs_removing := None, rs_log := Removed n # rs_log st\<rparr>)"

inductive registry_reachable :: "registry_state \<Rightarrow> bool" where
  reach_init: "registry_reachable init_registry"
| reach_step: "registry_reachable st \<Longrightarrow> registry_step st st' \<Longrightarrow> registry_reachable st'"

inductive_cases registry_stepE: "registry_step st st'"

text \<open>The list the completed events describe: the newest registration first.\<close>

fun log_list :: "registry_event list \<Rightarrow> nat list" where
  "log_list [] = []"
| "log_list (Registered n # es) = n # log_list es"
| "log_list (Removed n # es) = remove1 n (log_list es)"

definition removal_ok :: "registry_state \<Rightarrow> bool" where
  "removal_ok st \<longleftrightarrow>
     (case rs_removing st of
        None \<Rightarrow> True
      | Some (n, e) \<Rightarrow> (\<exists>pre as a bs. log_list (rs_log st) = pre @ as @ a # n # bs \<and>
          linked (rg_nodes (rs_rg st)) e (as @ a # n # bs)))"

definition registry_inv :: "registry_state \<Rightarrow> bool" where
  "registry_inv st \<longleftrightarrow> rg_holds (rs_rg st) (log_list (rs_log st)) \<and>
     set (rs_registering st) \<inter> set (log_list (rs_log st)) = {} \<and>
     (\<forall>n \<in> set (rs_registering st). rg_nodes (rs_rg st) n \<noteq> None) \<and> removal_ok st"

lemma linked_suffix: "linked nodes p (as @ bs) \<Longrightarrow> bs \<noteq> [] \<Longrightarrow> linked nodes (Some (hd bs)) bs"
  using linked_append [of nodes p as "hd bs" "tl bs"] by simp

text \<open>Changing or adding a node outside the list keeps what the list says.\<close>

lemma registry_inv_outside:
  assumes inv: "registry_inv st" and n: "n \<notin> set (log_list (rs_log st))"
    and nodes: "rg_nodes rg = (rg_nodes (rs_rg st))(n \<mapsto> nd)" and head: "rg_head rg = rg_head (rs_rg st)"
    and ctx: "ctx_ok rg" and reg: "set reg \<subseteq> insert n (set (rs_registering st))"
  shows "registry_inv (st\<lparr>rs_rg := rg, rs_registering := reg\<rparr>)"
proof -
  have "removal_ok (st\<lparr>rs_rg := rg, rs_registering := reg\<rparr>)"
    unfolding removal_ok_def
  proof (cases "rs_removing st")
    case (Some x)
    obtain m e where x: "x = (m, e)" by fastforce
    obtain pre as a bs where split: "log_list (rs_log st) = pre @ as @ a # m # bs"
        "linked (rg_nodes (rs_rg st)) e (as @ a # m # bs)"
      using inv Some x by (auto simp: registry_inv_def removal_ok_def)
    have "linked (rg_nodes rg) e (as @ a # m # bs)"
      unfolding nodes using split n by (subst linked_update_other) auto
    then show "case rs_removing (st\<lparr>rs_rg := rg, rs_registering := reg\<rparr>) of None \<Rightarrow> True
      | Some (n, e) \<Rightarrow> \<exists>pre as a bs. log_list (rs_log (st\<lparr>rs_rg := rg, rs_registering := reg\<rparr>)) = pre @ as @ a # n # bs \<and>
          linked (rg_nodes (rs_rg (st\<lparr>rs_rg := rg, rs_registering := reg\<rparr>))) e (as @ a # n # bs)"
      using split(1) Some x by auto
  qed simp
  moreover have "rg_holds rg (log_list (rs_log st))"
    using inv n ctx by (simp add: registry_inv_def rg_holds_def nodes head linked_update_other)
  ultimately show ?thesis
    using inv n reg by (auto simp: registry_inv_def nodes)
qed

lemma freed_alloc: "freed n rg rg' \<Longrightarrow> m \<noteq> n \<Longrightarrow> rg_nodes rg m \<noteq> None \<Longrightarrow> rg_nodes rg' m \<noteq> None"
  unfolding freed_def ctx_of_def by (metis fun_upd_other option.map_disc_iff)

lemma registry_inv_removed:
  assumes inv: "registry_inv st" and n: "n \<in> set (log_list (rs_log st))"
    and list: "linked (rg_nodes rg) (rg_head rg) (remove1 n (log_list (rs_log st)))"
    and freed: "freed n (rs_rg st) rg"
  shows "registry_inv (st\<lparr>rs_rg := rg, rs_removing := None, rs_log := Removed n # rs_log st\<rparr>)"
proof -
  have "n \<notin> set (rs_registering st)" using inv n by (auto simp: registry_inv_def)
  then have "\<forall>m \<in> set (rs_registering st). rg_nodes rg m \<noteq> None"
    using inv freed_alloc [OF freed] by (metis registry_inv_def)
  moreover have "set (rs_registering st) \<inter> set (remove1 n (log_list (rs_log st))) = {}"
    using inv set_remove1_subset by (fastforce simp: registry_inv_def)
  ultimately show ?thesis
    using inv list freed_ctx_ok [OF freed] by (simp add: registry_inv_def rg_holds_def removal_ok_def)
qed

lemma registry_inv_cas_ok:
  assumes inv: "registry_inv st" and n: "n \<in> set (rs_registering st)"
    and cas: "register_cas spurious n (rs_rg st) = Some (True, rg)"
  shows "registry_inv (st\<lparr>rs_rg := rg, rs_registering := removeAll n (rs_registering st),
    rs_log := Registered n # rs_log st\<rparr>)"
proof -
  obtain nd where nd: "rg_nodes (rs_rg st) n = Some nd" "nd_next nd = rg_head (rs_rg st)"
      "rg = (rs_rg st)\<lparr>rg_head := Some n\<rparr>"
    using cas by (auto simp: register_cas_def split: option.splits if_splits)
  have out: "n \<notin> set (log_list (rs_log st))" using inv n by (auto simp: registry_inv_def)
  have "removal_ok (st\<lparr>rs_rg := rg, rs_registering := removeAll n (rs_registering st),
      rs_log := Registered n # rs_log st\<rparr>)"
    unfolding removal_ok_def
  proof (clarsimp split: option.split)
    fix m e assume "rs_removing st = Some (m, e)"
    then obtain pre as a bs where "log_list (rs_log st) = pre @ as @ a # m # bs"
        "linked (rg_nodes (rs_rg st)) e (as @ a # m # bs)"
      using inv by (auto simp: registry_inv_def removal_ok_def)
    then have "n # log_list (rs_log st) = (n # pre) @ as @ a # m # bs \<and>
        linked (rg_nodes rg) e (as @ a # m # bs)"
      using nd(3) by simp
    then show "\<exists>pre as a bs. n # log_list (rs_log st) = pre @ as @ a # m # bs \<and>
        linked (rg_nodes rg) e (as @ a # m # bs)" by blast
  qed
  moreover have "rg_holds rg (n # log_list (rs_log st))"
    using inv nd out by (simp add: registry_inv_def rg_holds_def ctx_ok_def ctx_of_def)
  ultimately show ?thesis
    using inv nd(3) out by (auto simp: registry_inv_def)
qed

lemma ctx_ok_begin:
  assumes ok: "ctx_ok rg" and c: "rg_contexts rg c = None"
  shows "ctx_ok (register_begin n c (add_context c ctx rg))"
proof -
  have "ctx_of (register_begin n c (add_context c ctx rg)) = (ctx_of rg)(n \<mapsto> c)"
    by (simp add: ctx_of_def register_begin_def add_context_def fun_eq_iff)
  moreover have "rg_contexts (register_begin n c (add_context c ctx rg)) = (rg_contexts rg)(c \<mapsto> ctx)"
    by (simp add: register_begin_def add_context_def)
  moreover have "ctx_of rg m \<noteq> Some c" for m using ok c unfolding ctx_ok_def by metis
  ultimately show ?thesis using ok unfolding ctx_ok_def by (auto split: if_splits)
qed

lemma registry_step_inv:
  assumes "registry_step st st'" and inv: "registry_inv st"
  shows "registry_inv st'"
proof -
  let ?rg = "rs_rg st" and ?ns = "log_list (rs_log st)"
  have holds: "linked (rg_nodes ?rg) (rg_head ?rg) ?ns" "distinct ?ns" "ctx_ok ?rg"
    using inv by (simp_all add: registry_inv_def rg_holds_def)
  from assms(1) show ?thesis
  proof (cases rule: registry_step.cases)
    case (reg_begin n c ctx)
    have "n \<notin> set ?ns" using linked_alloc [OF holds(1)] reg_begin(2) by blast
    moreover have "ctx_ok (register_begin n c (add_context c ctx ?rg))"
      by (rule ctx_ok_begin [OF holds(3) reg_begin(3)])
    ultimately show ?thesis
      unfolding reg_begin(1) using inv
      by (intro registry_inv_outside) (auto simp: register_begin_def add_context_def)
  next
    case (reg_cas_ok n spurious rg)
    then show ?thesis using registry_inv_cas_ok [OF inv] by simp
  next
    case (reg_cas_fail n spurious rg)
    obtain nd where nd: "rg_nodes ?rg n = Some nd"
        "rg = ?rg\<lparr>rg_nodes := (rg_nodes ?rg)(n \<mapsto> nd\<lparr>nd_next := rg_head ?rg\<rparr>)\<rparr>"
      using reg_cas_fail(3) by (auto simp: register_cas_def split: option.splits if_splits)
    have "n \<notin> set ?ns" using inv reg_cas_fail(2) by (auto simp: registry_inv_def)
    moreover have "ctx_of rg = ctx_of ?rg" using nd by (auto simp: ctx_of_def fun_eq_iff)
    then have "ctx_ok rg" using holds(3) nd(2) by (simp add: ctx_ok_def)
    ultimately have "registry_inv (st\<lparr>rs_rg := rg, rs_registering := rs_registering st\<rparr>)"
      using inv nd(2) by (intro registry_inv_outside) auto
    then show ?thesis unfolding reg_cas_fail(1) by simp
  next
    case (rem_head ns n rg)
    have n: "n \<in> set ?ns" using linked_unique [OF rem_head(3) holds(1)] rem_head(4) by simp
    have "hd ?ns = n"
    proof (rule ccontr)
      assume "hd ?ns \<noteq> n"
      from remove_cas_other [OF holds(1) n this] show False using rem_head(5) by simp
    qed
    then obtain ms where ms: "?ns = n # ms" using n by (cases ?ns) auto
    have "n \<notin> set ms" using holds(2) ms by simp
    from remove_cas_head [OF holds(1) [unfolded ms] this]
    have "linked (rg_nodes rg) (rg_head rg) ms" "freed n ?rg rg" using rem_head(5) by auto
    then have "registry_inv (st\<lparr>rs_rg := rg, rs_removing := None, rs_log := Removed n # rs_log st\<rparr>)"
      using ms n by (intro registry_inv_removed [OF inv]) simp_all
    moreover have "st\<lparr>rs_rg := rg, rs_log := Removed n # rs_log st\<rparr> =
        st\<lparr>rs_rg := rg, rs_removing := None, rs_log := Removed n # rs_log st\<rparr>"
      using rem_head(2) by (cases st) simp
    ultimately show ?thesis unfolding rem_head(1) by simp
  next
    case (rem_begin ns n expected)
    have n: "n \<in> set ?ns" using linked_unique [OF rem_begin(3) holds(1)] rem_begin(4) by simp
    have e: "rg_head ?rg \<noteq> Some n" "expected = rg_head ?rg"
      using rem_begin(5) by (auto simp: remove_cas_def split: option.splits if_splits)
    then have "hd ?ns \<noteq> n" using n holds(1) by (cases ?ns) auto
    then obtain as a bs where "?ns = as @ a # n # bs" using split_before [OF n] by blast
    then have "?ns = [] @ as @ a # n # bs \<and> linked (rg_nodes ?rg) expected (as @ a # n # bs)"
      using holds(1) e(2) by simp
    then show ?thesis unfolding rem_begin(1) using inv by (auto simp: registry_inv_def removal_ok_def)
  next
    case (rem_finish n expected rg)
    obtain pre as a bs where split: "?ns = pre @ as @ a # n # bs" "linked (rg_nodes ?rg) expected (as @ a # n # bs)"
      using inv rem_finish(2) by (auto simp: registry_inv_def removal_ok_def)
    from remove_unlink_linked [OF holds(1) [unfolded split(1)] holds(2) [unfolded split(1)] split(2)]
    have "linked (rg_nodes rg) (rg_head rg) (pre @ as @ a # bs)" "freed n ?rg rg" using rem_finish(3) by auto
    moreover have "remove1 n ?ns = pre @ as @ a # bs" "n \<in> set ?ns"
      using holds(2) split(1) by (auto simp: remove1_append)
    ultimately show ?thesis unfolding rem_finish(1) by (intro registry_inv_removed [OF inv]) simp_all
  qed
qed

lemma registry_reachable_inv: "registry_reachable st \<Longrightarrow> registry_inv st"
proof (induction rule: registry_reachable.induct)
  case reach_init
  then show ?case
    by (simp add: registry_inv_def init_registry_def empty_registry_def rg_holds_def ctx_ok_def ctx_of_def removal_ok_def)
next
  case (reach_step st st')
  then show ?case using registry_step_inv by blast
qed

section \<open>Properties\<close>

text \<open>No step of a reachable state goes wrong: the exchange of a registering node and the second half of
  a removal find every node they touch.\<close>

lemma registry_never_stuck:
  assumes "registry_inv st"
  shows "(n \<in> set (rs_registering st) \<longrightarrow> register_cas sp n (rs_rg st) \<noteq> None) \<and>
    (rs_removing st = Some (m, e) \<longrightarrow> remove_unlink m e (rs_rg st) \<noteq> None)"
proof (intro conjI impI)
  assume "n \<in> set (rs_registering st)"
  then have "rg_nodes (rs_rg st) n \<noteq> None" using assms by (auto simp: registry_inv_def)
  then show "register_cas sp n (rs_rg st) \<noteq> None" by (auto simp: register_cas_def)
next
  assume "rs_removing st = Some (m, e)"
  then obtain pre as a bs where split: "log_list (rs_log st) = pre @ as @ a # m # bs"
      "linked (rg_nodes (rs_rg st)) e (as @ a # m # bs)"
    using assms by (auto simp: registry_inv_def removal_ok_def)
  have "linked (rg_nodes (rs_rg st)) (rg_head (rs_rg st)) (pre @ as @ a # m # bs)" "distinct (pre @ as @ a # m # bs)"
    using assms split(1) by (simp_all add: registry_inv_def rg_holds_def)
  from remove_unlink_linked [OF this split(2)] show "remove_unlink m e (rs_rg st) \<noteq> None" by auto
qed

text \<open>C13. The lock-free registry is linearizable: however the registrations of any number of threads
  interleave with each other, with spurious failures of their exchanges and with the backend's
  removals, the linked list is at every moment the one the completed operations describe (every
  completed registration in front, every removed node taken out and nothing else lost), without a
  cycle, and no step touches a node that does not exist.\<close>
theorem registry_linearizable:
  assumes "registry_reachable st"
  shows "linked (rg_nodes (rs_rg st)) (rg_head (rs_rg st)) (log_list (rs_log st)) \<and>
    distinct (log_list (rs_log st)) \<and> ctx_ok (rs_rg st) \<and>
    (n \<in> set (rs_registering st) \<longrightarrow> register_cas sp n (rs_rg st) \<noteq> None) \<and>
    (rs_removing st = Some (m, e) \<longrightarrow> remove_unlink m e (rs_rg st) \<noteq> None)"
  using registry_never_stuck [OF registry_reachable_inv [OF assms], of n sp m e]
    registry_reachable_inv [OF assms]
  by (simp add: registry_inv_def rg_holds_def)

text \<open>Two threads register at once, the second exchange of the first one loses the race and is
  repeated; then the older node is removed behind a third registration.\<close>

definition demo_context :: thread_context where
  "demo_context = \<lparr>tc_name = ''a'', tc_q = \<lparr>q_capacity = 1, q_wrap_mask = 0, q_buffer = [0, 0],
     q_atomic_r = 0, q_atomic_w = 0, q_w = 0, q_cached_r = 0, q_r = 0, q_cached_w = 0\<rparr>, tc_is_alive = True\<rparr>"

definition demo_st1 :: registry_state where
  "demo_st1 = init_registry\<lparr>rs_rg := register_begin 1 11 (add_context 11 demo_context (rs_rg init_registry)),
     rs_registering := [1]\<rparr>"

definition demo_st2 :: registry_state where
  "demo_st2 = demo_st1\<lparr>rs_rg := register_begin 2 12 (add_context 12 demo_context (rs_rg demo_st1)),
     rs_registering := [2, 1]\<rparr>"

definition demo_st3 :: registry_state where
  "demo_st3 = demo_st2\<lparr>rs_rg := (rs_rg demo_st2)\<lparr>rg_head := Some 1\<rparr>, rs_registering := [2], rs_log := [Registered 1]\<rparr>"

definition demo_st4 :: registry_state where
  "demo_st4 = demo_st3\<lparr>rs_rg := (rs_rg demo_st3)\<lparr>rg_nodes := (rg_nodes (rs_rg demo_st3))
     (2 \<mapsto> \<lparr>nd_context = 12, nd_next = Some 1\<rparr>)\<rparr>\<rparr>"

definition demo_st5 :: registry_state where
  "demo_st5 = demo_st4\<lparr>rs_rg := (rs_rg demo_st4)\<lparr>rg_head := Some 2\<rparr>, rs_registering := [],
     rs_log := [Registered 2, Registered 1]\<rparr>"

lemmas demo_st_defs = demo_st1_def demo_st2_def demo_st3_def demo_st4_def demo_st5_def init_registry_def
  empty_registry_def register_begin_def add_context_def

lemma demo_st5_reachable: "registry_reachable demo_st5"
proof -
  have "registry_step init_registry demo_st1"
    using registry_step.reg_begin [of init_registry 1 11 demo_context]
    by (simp add: demo_st1_def init_registry_def empty_registry_def)
  moreover have "registry_step demo_st1 demo_st2"
    using registry_step.reg_begin [of demo_st1 2 12 demo_context]
    by (simp add: demo_st_defs)
  moreover have "registry_step demo_st2 demo_st3"
    using registry_step.reg_cas_ok [of 1 demo_st2 False "(rs_rg demo_st2)\<lparr>rg_head := Some 1\<rparr>"]
    by (simp add: demo_st_defs register_cas_def)
  moreover have "registry_step demo_st3 demo_st4"
    using registry_step.reg_cas_fail [of 2 demo_st3 False "rs_rg demo_st4"]
    by (simp add: demo_st_defs register_cas_def)
  moreover have "registry_step demo_st4 demo_st5"
    using registry_step.reg_cas_ok [of 2 demo_st4 False "(rs_rg demo_st4)\<lparr>rg_head := Some 2\<rparr>"]
    by (simp add: demo_st_defs register_cas_def)
  ultimately show ?thesis using reach_init reach_step by metis
qed

lemma registry_linearizable_witness:
  "linked (rg_nodes (rs_rg demo_st5)) (rg_head (rs_rg demo_st5)) [2, 1]"
  using registry_linearizable [OF demo_st5_reachable, THEN conjunct1] by (simp add: demo_st5_def)

text \<open>C36. Removing a thread: \<open>remove_and_delete_node\<close> on any member of the list, the head included,
  terminates, takes exactly this node out, keeps the others in order, and frees this node and its own
  context and no other.\<close>
theorem remove_and_delete_node_exact:
  assumes "rg_holds rg ns" and "n \<in> set ns"
  shows "\<exists>rg'. remove_and_delete_node (Some n) rg = Some rg' \<and> rg_holds rg' (remove1 n ns) \<and>
    ctx_of rg' = (ctx_of rg)(n := None) \<and> rg_contexts rg' = (rg_contexts rg)(the (ctx_of rg n) := None)"
  using remove_and_delete_node_law [OF assms] by (auto simp: freed_def)

lemma demo_rg_holds: "rg_holds (rs_rg demo_st5) [2, 1]"
  using registry_reachable_inv [OF demo_st5_reachable] by (simp add: registry_inv_def demo_st5_def)

lemma remove_and_delete_node_exact_witness:
  "\<exists>rg'. remove_and_delete_node (Some 1) (rs_rg demo_st5) = Some rg' \<and> rg_holds rg' [2]"
  using remove_and_delete_node_exact [OF demo_rg_holds, of 1] by auto

section \<open>Thread names\<close>

lemma int_string_inj: "int_string i = int_string j \<Longrightarrow> i = j"
proof -
  have minus: "dec_string n = CHR ''-'' # s \<Longrightarrow> False" for n s
  proof (induction n arbitrary: s rule: less_induct)
    case (less n)
    have digit: "digit_char d \<noteq> CHR ''-''" if "d < 10" for d
    proof
      assume "digit_char d = CHR ''-''"
      then have "(of_char (char_of (48 + d) :: char) :: nat) = of_char CHR ''-''" by (simp add: digit_char_def)
      then show False using that by simp
    qed
    show ?case
    proof (cases "n < 10")
      case True
      then show ?thesis using less.prems digit [of n] by (simp add: dec_string.simps)
    next
      case False
      then have snoc: "dec_string n = dec_string (n div 10) @ [digit_char (n mod 10)]"
        by (simp add: dec_string.simps [of n])
      then obtain s' where "dec_string (n div 10) = CHR ''-'' # s'"
        using less.prems dec_string_not_Nil [of "n div 10"] by (cases "dec_string (n div 10)") auto
      then show ?thesis using less.IH [of "n div 10"] False by simp
    qed
  qed
  assume eq: "int_string i = int_string j"
  show "i = j"
  proof (cases "i < 0"; cases "j < 0")
    assume "i < 0" "j < 0"
    then show ?thesis using eq dec_string_inj [of "nat (- i)" "nat (- j)"] by (simp add: int_string_def)
  next
    assume "\<not> i < 0" "\<not> j < 0"
    then show ?thesis using eq dec_string_inj [of "nat i" "nat j"] by (simp add: int_string_def)
  next
    assume "i < 0" "\<not> j < 0"
    then show ?thesis using eq minus by (auto simp: int_string_def dest: sym)
  next
    assume "\<not> i < 0" "j < 0"
    then show ?thesis using eq minus by (auto simp: int_string_def)
  qed
qed

text \<open>The names of \<open>k\<close> unnamed contexts created one after the other, from a counter value on.\<close>

fun unnamed_names :: "nat \<Rightarrow> u32 \<Rightarrow> string list" where
  "unnamed_names 0 c = []"
| "unnamed_names (Suc k) c =
     (case new_thread_context '''' 64 c of
        None \<Rightarrow> []
      | Some (ctx, c') \<Rightarrow> tc_name ctx # unnamed_names k c')"

lemma unnamed_names_eq:
  "unnamed_names k c = map (\<lambda>i. ''thread_'' @ int_string (sint (c + 1 + of_nat i))) [0..<k]"
proof (induction k arbitrary: c)
  case (Suc k)
  obtain q where "new_queue 64 = Some q" using new_queue_holds [of 64] by auto
  then have "unnamed_names (Suc k) c = (''thread_'' @ int_string (sint (c + 1))) # unnamed_names k (c + 1)"
    by (simp add: new_thread_context_def Let_def)
  also have "\<dots> = map (\<lambda>i. ''thread_'' @ int_string (sint (c + 1 + of_nat i))) (0 # map Suc [0..<k])"
    unfolding Suc by (simp add: comp_def ac_simps)
  finally show ?case by (simp only: upt_conv_Cons map_Suc_upt zero_less_Suc)
qed simp

text \<open>Threads that give no name get different ones: all names handed out until the counter has gone
  through its \<open>2 ^ 32\<close> values are distinct, the first being \<open>thread_1\<close>.\<close>
theorem unnamed_names_distinct:
  assumes "k \<le> 2 ^ 32"
  shows "distinct (unnamed_names k c) \<and> length (unnamed_names k c) = k"
proof -
  have inj: "inj_on (\<lambda>i. ''thread_'' @ int_string (sint (c + 1 + of_nat i))) (set [0..<k])"
  proof (rule inj_onI)
    fix i j assume ij: "i \<in> set [0..<k]" "j \<in> set [0..<k]"
      and "''thread_'' @ int_string (sint (c + 1 + of_nat i)) = ''thread_'' @ int_string (sint (c + 1 + of_nat j))"
    then have "sint (c + 1 + of_nat i) = sint (c + 1 + of_nat j)" by (auto dest: int_string_inj)
    then have "c + 1 + of_nat i = c + 1 + of_nat j" by (rule signed_word_eqI)
    then have "(of_nat i :: u32) = of_nat j" by simp
    then show "i = j" using ij assms by (simp add: word_of_nat_eq_iff take_bit_eq_mod)
  qed
  then show ?thesis unfolding unnamed_names_eq by (simp add: distinct_map)
qed

lemma unnamed_names_distinct_witness:
  "distinct (unnamed_names 3 0) \<and> unnamed_names 3 0 = [''thread_1'', ''thread_2'', ''thread_3'']"
proof -
  have "unnamed_names 3 0 = [''thread_1'', ''thread_2'', ''thread_3'']"
    unfolding unnamed_names_eq by code_simp
  then show ?thesis using unnamed_names_distinct [of 3 0] by simp
qed

end
