(* ===== verification/Backend.thy ===== *)
theory Backend
  imports Event Thread_Registry "HOL-Library.Sublist"
begin

text \<open>
  The backend thread of \<open>include/papper/detail/core.h\<close>: \<open>poll_threads\<close> serves every registered thread
  once and reaps the dead ones (the loops around it are in \<open>Main_Loop\<close>). A pass is sequential here; the concurrency of a queue is the subject of \<open>Spsc\<close>, that of the list of
  \<open>Thread_Registry\<close>, and the two halves of serving one thread are kept apart (\<open>poll_read\<close>,
  \<open>poll_reap\<close>) so that the thread's own steps can come between them.
\<close>

section \<open>Polling all threads\<close>

type_synonym backend_mem = "registry \<times> outputs"

text \<open>The first half for one node: reserve, and if there is an event, process it and commit.\<close>

definition poll_read :: "environment \<Rightarrow> nat \<Rightarrow> backend_mem \<Rightarrow> (bool \<times> backend_mem) option" where
  "poll_read en n bm =
     (let (rg, o1) = bm
      in case rg_nodes rg n of
           None \<Rightarrow> None
         | Some nd \<Rightarrow>
             (case rg_contexts rg (nd_context nd) of
                None \<Rightarrow> None
              | Some ctx \<Rightarrow>
                  (case poll_queue en (tc_q ctx) o1 of
                     None \<Rightarrow> None
                   | Some (any, q, o2) \<Rightarrow>
                       Some (any, rg\<lparr>rg_contexts := (rg_contexts rg)(nd_context nd \<mapsto> ctx\<lparr>tc_q := q\<rparr>)\<rparr>, o2))))"

text \<open>The second half, when there was none: a thread that is not alive is removed.\<close>

definition poll_reap :: "nat \<Rightarrow> registry \<Rightarrow> registry option" where
  "poll_reap n rg =
     (case rg_nodes rg n of
        None \<Rightarrow> None
      | Some nd \<Rightarrow>
          (case rg_contexts rg (nd_context nd) of
             None \<Rightarrow> None
           | Some ctx \<Rightarrow>
               if \<not> thread_is_alive ctx then remove_and_delete_node (Some n) rg else Some rg))"

partial_function (option) poll_loop ::
  "environment \<Rightarrow> nat option \<Rightarrow> bool \<Rightarrow> backend_mem \<Rightarrow> (bool \<times> backend_mem) option"
where
  "poll_loop en node were_events bm =
     (case node of
        None \<Rightarrow> Some (were_events, bm)
      | Some n \<Rightarrow>
          (case rg_nodes (fst bm) n of
             None \<Rightarrow> None
           | Some nd \<Rightarrow>
               (case poll_read en n bm of
                  None \<Rightarrow> None
                | Some (any, rg, o2) \<Rightarrow>
                    if any then poll_loop en (nd_next nd) True (rg, o2)
                    else (case poll_reap n rg of
                            None \<Rightarrow> None
                          | Some rg' \<Rightarrow> poll_loop en (nd_next nd) were_events (rg', o2)))))"

definition poll_threads :: "environment \<Rightarrow> backend_mem \<Rightarrow> (bool \<times> backend_mem) option" where
  "poll_threads en bm = poll_loop en (rg_head (fst bm)) False bm"

section \<open>The registered threads as a list\<close>

record thread_view =
  tv_node :: nat
  tv_alive :: bool
  tv_events :: "log_event list"

definition view_ok :: "registry \<Rightarrow> thread_view \<Rightarrow> bool" where
  "view_ok rg t \<longleftrightarrow> (\<exists>c ctx. ctx_of rg (tv_node t) = Some c \<and> rg_contexts rg c = Some ctx \<and>
     tc_is_alive ctx = tv_alive t \<and> q_holds (tc_q ctx) (map event_bytes (tv_events t)))"

definition views :: "registry \<Rightarrow> thread_view list \<Rightarrow> bool" where
  "views rg ts \<longleftrightarrow> rg_holds rg (map tv_node ts) \<and> list_all (view_ok rg) ts"

definition views_typed :: "environment \<Rightarrow> thread_view list \<Rightarrow> bool" where
  "views_typed en ts \<longleftrightarrow> list_all (\<lambda>t. list_all (event_typed en) (tv_events t)) ts"

text \<open>A pass over the threads, on values: every thread with events has its oldest one processed, every
  dead thread without events goes.\<close>

fun pass_model ::
  "environment \<Rightarrow> thread_view list \<Rightarrow> outputs \<Rightarrow> (bool \<times> thread_view list \<times> outputs) option"
where
  "pass_model en [] o1 = Some (False, [], o1)"
| "pass_model en (t # ts) o1 =
     (case tv_events t of
        e # es \<Rightarrow>
          (case process_event en e o1 of
             None \<Rightarrow> None
           | Some o2 \<Rightarrow>
               map_option (\<lambda>(any, ts', o3). (True, t\<lparr>tv_events := es\<rparr> # ts', o3)) (pass_model en ts o2))
      | [] \<Rightarrow>
          if tv_alive t then map_option (\<lambda>(any, ts', o3). (any, t # ts', o3)) (pass_model en ts o1)
          else pass_model en ts o1)"

fun list_head :: "'a list \<Rightarrow> 'a option" where
  "list_head [] = None"
| "list_head (x # xs) = Some x"

lemma linked_head: "linked nodes p ns \<Longrightarrow> p = list_head ns"
  by (cases ns) auto

lemma linked_next:
  "linked nodes p (as @ n # bs) \<Longrightarrow> \<exists>nd. nodes n = Some nd \<and> nd_next nd = list_head bs"
  using linked_append [of nodes p as n bs] linked_head by (auto split: option.splits)

lemma views_node:
  assumes "views rg (ds @ t # ts)"
  obtains nd ctx where "rg_nodes rg (tv_node t) = Some nd" "nd_next nd = list_head (map tv_node ts)"
    "rg_contexts rg (nd_context nd) = Some ctx" "tc_is_alive ctx = tv_alive t"
    "q_holds (tc_q ctx) (map event_bytes (tv_events t))"
proof -
  have "linked (rg_nodes rg) (rg_head rg) (map tv_node ds @ tv_node t # map tv_node ts)"
    using assms by (simp add: views_def rg_holds_def)
  then obtain nd where "rg_nodes rg (tv_node t) = Some nd" "nd_next nd = list_head (map tv_node ts)"
    using linked_next by blast
  moreover have "view_ok rg t" using assms by (simp add: views_def)
  ultimately show ?thesis using that by (auto simp: view_ok_def ctx_of_def)
qed

lemma views_other:
  assumes "views rg (ds @ t # ts)" and "u \<in> set ds \<union> set ts"
  shows "view_ok rg u" and "tv_node u \<noteq> tv_node t"
proof -
  show "view_ok rg u" using assms by (auto simp: views_def list_all_iff)
  have "distinct (map tv_node ds @ tv_node t # map tv_node ts)" using assms(1) by (simp add: views_def rg_holds_def)
  then have "tv_node t \<notin> set (map tv_node ds) \<union> set (map tv_node ts)" by (simp del: set_map)
  moreover have "tv_node u \<in> set (map tv_node ds) \<union> set (map tv_node ts)" using assms(2) by auto
  ultimately show "tv_node u \<noteq> tv_node t" by metis
qed

text \<open>Replacing the queue of one context leaves the other views alone.\<close>

lemma views_set_queue:
  assumes v: "views rg (ds @ t # ts)" and nd: "rg_nodes rg (tv_node t) = Some nd"
    and ctx: "rg_contexts rg (nd_context nd) = Some ctx" and q: "q_holds q (map event_bytes es)"
  shows "views (rg\<lparr>rg_contexts := (rg_contexts rg)(nd_context nd \<mapsto> ctx\<lparr>tc_q := q\<rparr>)\<rparr>)
    (ds @ t\<lparr>tv_events := es\<rparr> # ts)" (is "views ?rg _")
proof -
  have holds: "rg_holds rg (map tv_node ds @ tv_node t # map tv_node ts)" using v by (simp add: views_def)
  then have ok: "ctx_ok rg"
    by (auto simp: rg_holds_def)
  have same: "ctx_of ?rg = ctx_of rg" by (simp add: ctx_of_def fun_eq_iff)
  have c: "ctx_of rg (tv_node t) = Some (nd_context nd)" using nd by (simp add: ctx_of_def)
  have "ctx_ok ?rg" using ok unfolding ctx_ok_def same by auto
  then have "rg_holds ?rg (map tv_node (ds @ t\<lparr>tv_events := es\<rparr> # ts))" using holds by (simp add: rg_holds_def)
  moreover have "view_ok ?rg u" if "u \<in> set ds \<union> set ts" for u
  proof -
    note u = views_other [OF v that]
    have "ctx_of rg (tv_node u) \<noteq> Some (nd_context nd)" using u(2) ok c unfolding ctx_ok_def by metis
    then show ?thesis using u(1) unfolding view_ok_def same by (auto simp: fun_upd_other)
  qed
  moreover have "view_ok ?rg (t\<lparr>tv_events := es\<rparr>)"
    using v c ctx q unfolding view_ok_def same by (auto simp: views_def view_ok_def)
  ultimately show ?thesis by (auto simp: views_def list_all_iff)
qed

lemma views_remove:
  assumes v: "views rg (ds @ t # ts)"
  shows "\<exists>rg'. remove_and_delete_node (Some (tv_node t)) rg = Some rg' \<and> views rg' (ds @ ts)"
proof -
  have holds: "rg_holds rg (map tv_node ds @ tv_node t # map tv_node ts)" using v by (simp add: views_def)
  then have dist: "tv_node t \<notin> tv_node ` set ds \<union> tv_node ` set ts" and ok: "ctx_ok rg"
    by (auto simp: rg_holds_def)
  obtain rg' where rg': "remove_and_delete_node (Some (tv_node t)) rg = Some rg'"
      "rg_holds rg' (remove1 (tv_node t) (map tv_node ds @ tv_node t # map tv_node ts))" "freed (tv_node t) rg rg'"
    using remove_and_delete_node_law [OF holds] by auto
  have "remove1 (tv_node t) (map tv_node ds @ tv_node t # map tv_node ts) = map tv_node (ds @ ts)"
    using dist by (simp add: remove1_append)
  moreover have "view_ok rg' u" if "u \<in> set ds \<union> set ts" for u
  proof -
    note u = views_other [OF v that]
    show ?thesis
      using u rg'(3) ok unfolding view_ok_def freed_def ctx_ok_def by (metis fun_upd_other option.collapse)
  qed
  ultimately show ?thesis using rg'(1,2) by (auto simp: views_def list_all_iff)
qed

section \<open>A pass does what the model says\<close>

lemma poll_read_event:
  assumes v: "views rg (ds @ t # ts)" and e: "tv_events t = e # es" "event_typed en e"
  shows "\<exists>rg'. poll_read en (tv_node t) (rg, o1) = map_option (\<lambda>o2. (True, rg', o2)) (process_event en e o1) \<and>
    views rg' (ds @ t\<lparr>tv_events := es\<rparr> # ts)"
proof -
  obtain nd ctx where n: "rg_nodes rg (tv_node t) = Some nd" "rg_contexts rg (nd_context nd) = Some ctx"
      "q_holds (tc_q ctx) (event_bytes e # map event_bytes es)"
    using views_node [OF v] e(1) by (metis list.simps(9))
  obtain q where q: "poll_queue en (tc_q ctx) o1 = map_option (\<lambda>o2. (True, q, o2)) (process_event en e o1)"
      "q_holds q (map event_bytes es)"
    using poll_queue_front [OF n(3) e(2)] by blast
  have "views (rg\<lparr>rg_contexts := (rg_contexts rg)(nd_context nd \<mapsto> ctx\<lparr>tc_q := q\<rparr>)\<rparr>)
      (ds @ t\<lparr>tv_events := es\<rparr> # ts)"
    by (rule views_set_queue [OF v n(1,2) q(2)])
  then show ?thesis
    using n(1,2) q(1) by (cases "process_event en e o1") (auto simp: poll_read_def)
qed

lemma poll_read_none:
  assumes v: "views rg (ds @ t # ts)" and e: "tv_events t = []"
  shows "\<exists>rg'. poll_read en (tv_node t) (rg, o1) = Some (False, rg', o1) \<and> views rg' (ds @ t # ts)"
proof -
  obtain nd ctx where n: "rg_nodes rg (tv_node t) = Some nd" "rg_contexts rg (nd_context nd) = Some ctx"
      "q_holds (tc_q ctx) []"
    using views_node [OF v] e by (metis list.simps(8))
  obtain q where q: "poll_queue en (tc_q ctx) o1 = Some (False, q, o1)" "q_holds q []"
    using poll_queue_empty [OF n(3)] by blast
  have "views (rg\<lparr>rg_contexts := (rg_contexts rg)(nd_context nd \<mapsto> ctx\<lparr>tc_q := q\<rparr>)\<rparr>)
      (ds @ t\<lparr>tv_events := []\<rparr> # ts)"
    by (rule views_set_queue [OF v n(1,2)]) (use q(2) in simp)
  moreover have "t\<lparr>tv_events := []\<rparr> = t" using e by simp
  ultimately show ?thesis using n(1,2) q(1) by (auto simp: poll_read_def)
qed

lemma poll_reap_law:
  assumes v: "views rg (ds @ t # ts)"
  shows "\<exists>rg'. poll_reap (tv_node t) rg = Some rg' \<and> views rg' (ds @ (if tv_alive t then [t] else []) @ ts)"
proof -
  obtain nd ctx where n: "rg_nodes rg (tv_node t) = Some nd" "rg_contexts rg (nd_context nd) = Some ctx"
      "tc_is_alive ctx = tv_alive t"
    using views_node [OF v] by metis
  then show ?thesis
    using v views_remove [OF v] by (cases "tv_alive t") (simp_all add: poll_reap_def thread_is_alive_def)
qed

lemma poll_loop_node:
  assumes v: "views (fst bm) (ds @ t # ts)"
  shows "poll_loop en (Some (tv_node t)) any0 bm =
    (case poll_read en (tv_node t) bm of
       None \<Rightarrow> None
     | Some (any, rg, o2) \<Rightarrow>
         if any then poll_loop en (list_head (map tv_node ts)) True (rg, o2)
         else (case poll_reap (tv_node t) rg of
                 None \<Rightarrow> None
               | Some rg' \<Rightarrow> poll_loop en (list_head (map tv_node ts)) any0 (rg', o2)))"
proof -
  obtain nd where "rg_nodes (fst bm) (tv_node t) = Some nd" "nd_next nd = list_head (map tv_node ts)"
    using views_node [OF v] by metis
  then show ?thesis by (subst poll_loop.simps) (simp split: option.split)
qed

definition pass_agrees ::
  "(bool \<times> backend_mem) option \<Rightarrow> bool \<Rightarrow> thread_view list \<Rightarrow> (bool \<times> thread_view list \<times> outputs) option \<Rightarrow> bool"
where
  "pass_agrees r any0 ds m \<longleftrightarrow>
     (case m of
        None \<Rightarrow> r = None
      | Some (any, ts, o2) \<Rightarrow> (\<exists>rg. r = Some (any0 \<or> any, rg, o2) \<and> views rg (ds @ ts)))"

lemma poll_loop_pass:
  "views rg (ds @ ts) \<Longrightarrow> views_typed en ts \<Longrightarrow>
     pass_agrees (poll_loop en (list_head (map tv_node ts)) any0 (rg, o1)) any0 ds (pass_model en ts o1)"
proof (induction ts arbitrary: ds rg o1 any0)
  case Nil
  then show ?case by (subst poll_loop.simps) (simp add: pass_agrees_def)
next
  case (Cons t ts)
  have typed: "views_typed en ts" using Cons.prems(2) by (simp add: views_typed_def)
  note loop = poll_loop_node [of "(rg, o1)" ds t ts en any0, unfolded fst_conv, OF Cons.prems(1)]
  show ?case
  proof (cases "tv_events t")
    case Nil
    obtain rg1 where rg1: "poll_read en (tv_node t) (rg, o1) = Some (False, rg1, o1)" "views rg1 (ds @ t # ts)"
      using poll_read_none [OF Cons.prems(1) Nil] by blast
    let ?keep = "if tv_alive t then [t] else []"
    obtain rg2 where rg2: "poll_reap (tv_node t) rg1 = Some rg2" "views rg2 ((ds @ ?keep) @ ts)"
      using poll_reap_law [OF rg1(2)] by auto
    have "pass_agrees (poll_loop en (list_head (map tv_node ts)) any0 (rg2, o1)) any0 (ds @ ?keep) (pass_model en ts o1)"
      by (rule Cons.IH [OF rg2(2) typed])
    then show ?thesis
      using loop rg1(1) rg2(1) Nil
      by (cases "pass_model en ts o1"; cases "tv_alive t") (auto simp: pass_agrees_def)
  next
    case (Cons e es)
    have e: "event_typed en e" using Cons.prems(2) Cons by (simp add: views_typed_def)
    obtain rg1 where rg1: "poll_read en (tv_node t) (rg, o1) =
          map_option (\<lambda>o2. (True, rg1, o2)) (process_event en e o1)" "views rg1 (ds @ t\<lparr>tv_events := es\<rparr> # ts)"
      using poll_read_event [OF Cons.prems(1) Cons e] by blast
    show ?thesis
    proof (cases "process_event en e o1")
      case None
      then show ?thesis using loop rg1(1) Cons by (simp add: pass_agrees_def)
    next
      case (Some o2)
      have "views rg1 ((ds @ [t\<lparr>tv_events := es\<rparr>]) @ ts)" using rg1(2) by simp
      from Cons.IH [OF this typed]
      have "pass_agrees (poll_loop en (list_head (map tv_node ts)) True (rg1, o2)) True
          (ds @ [t\<lparr>tv_events := es\<rparr>]) (pass_model en ts o2)" .
      then show ?thesis
        using loop rg1(1) Cons Some by (cases "pass_model en ts o2") (auto simp: pass_agrees_def)
    qed
  qed
qed

lemma poll_threads_pass:
  assumes "views rg ts" and "views_typed en ts"
  shows "pass_agrees (poll_threads en (rg, o1)) False [] (pass_model en ts o1)"
proof -
  have "rg_head rg = list_head (map tv_node ts)"
    using assms(1) linked_head by (auto simp: views_def rg_holds_def)
  then show ?thesis
    using poll_loop_pass [of rg "[]" ts en False o1] assms by (simp add: poll_threads_def)
qed

section \<open>The events of a pass\<close>

definition pass_events :: "thread_view list \<Rightarrow> log_event list" where
  "pass_events ts = concat (map (\<lambda>t. take 1 (tv_events t)) ts)"

definition pass_thread :: "thread_view \<Rightarrow> thread_view list" where
  "pass_thread t = (case tv_events t of
     [] \<Rightarrow> if tv_alive t then [t] else [] | e # es \<Rightarrow> [t\<lparr>tv_events := es\<rparr>])"

definition pass_rest :: "thread_view list \<Rightarrow> thread_view list" where
  "pass_rest ts = concat (map pass_thread ts)"

lemma pass_simps [simp]:
  "pass_events [] = []" "pass_events (t # ts) = take 1 (tv_events t) @ pass_events ts"
  "pass_rest [] = []" "pass_rest (t # ts) = pass_thread t @ pass_rest ts"
  by (simp_all add: pass_events_def pass_rest_def)

definition all_events :: "thread_view list \<Rightarrow> log_event multiset" where
  "all_events ts = sum_list (map (\<lambda>t. mset (tv_events t)) ts)"

lemma all_events_simps [simp]:
  "all_events [] = {#}" "all_events (t # ts) = mset (tv_events t) + all_events ts"
  "all_events (ts @ us) = all_events ts + all_events us"
  by (simp_all add: all_events_def)

lemma pass_conserves: "mset (pass_events ts) + all_events (pass_rest ts) = all_events ts"
proof (induction ts)
  case (Cons t ts)
  have "mset (take 1 (tv_events t)) + all_events (pass_thread t) = mset (tv_events t)"
    by (cases "tv_events t") (auto simp: pass_thread_def)
  then show ?case using Cons.IH by (simp add: ac_simps)
qed simp

definition views_printable :: "environment \<Rightarrow> thread_view list \<Rightarrow> bool" where
  "views_printable en ts \<longleftrightarrow> list_all (\<lambda>t. list_all (event_printable en) (tv_events t)) ts"

lemma views_printable_typed: "views_printable en ts \<Longrightarrow> views_typed en ts"
  by (auto simp: views_printable_def views_typed_def list_all_iff event_printable_def)

lemma views_printable_rest: "views_printable en ts \<Longrightarrow> views_printable en (pass_rest ts)"
  by (induction ts) (auto simp: views_printable_def pass_thread_def split: list.splits)

text \<open>The output lines appended by a sequence of events.\<close>

definition prints ::
  "environment \<Rightarrow> (fmt_arg \<Rightarrow> string) \<Rightarrow> token list \<Rightarrow> outputs \<Rightarrow> log_event list \<Rightarrow> outputs \<Rightarrow> bool"
where
  "prints en sh toks o1 es o2 \<longleftrightarrow>
     o_min_level o2 = o_min_level o1 \<and> sk_file (o_sink o2) = sk_file (o_sink o1) \<and>
     file_output (sk_file (o_sink o1)) (sk_io (o_sink o2)) =
       file_output (sk_file (o_sink o1)) (sk_io (o_sink o1)) @
       concat (map (event_line en sh toks (o_min_level o1)) es)"

lemma prints_refl: "prints en sh toks o1 [] o1"
  by (simp add: prints_def)

lemma prints_trans: "prints en sh toks o1 es o2 \<Longrightarrow> prints en sh toks o2 fs o3 \<Longrightarrow> prints en sh toks o1 (es @ fs) o3"
  by (simp add: prints_def)

lemma process_event_prints:
  assumes "fmt_renders sh (en_vformat en)" and "outputs_ready en mf ml toks o1" and "event_printable en e"
  shows "\<exists>o2. process_event en e o1 = Some o2 \<and> outputs_ready en mf ml toks o2 \<and> prints en sh toks o1 [e] o2"
  using process_event_line [OF assms] by (auto simp: prints_def)

lemma pass_model_prints:
  assumes "fmt_renders sh (en_vformat en)"
  shows "outputs_ready en mf ml toks o1 \<Longrightarrow> views_printable en ts \<Longrightarrow>
    \<exists>o2. pass_model en ts o1 = Some (pass_events ts \<noteq> [], pass_rest ts, o2) \<and> outputs_ready en mf ml toks o2 \<and>
      prints en sh toks o1 (pass_events ts) o2"
proof (induction ts arbitrary: o1)
  case Nil
  then show ?case by (auto simp: prints_refl)
next
  case (Cons t ts)
  have rest: "views_printable en ts" using Cons.prems(2) by (simp add: views_printable_def)
  show ?case
  proof (cases "tv_events t")
    case Nil
    then show ?thesis using Cons.IH [OF Cons.prems(1) rest] by (auto simp: pass_thread_def)
  next
    case (Cons e es)
    have e: "event_printable en e" using Cons.prems(2) Cons by (simp add: views_printable_def)
    obtain o2 where o2: "process_event en e o1 = Some o2" "outputs_ready en mf ml toks o2" "prints en sh toks o1 [e] o2"
      using process_event_prints [OF assms Cons.prems(1) e] by blast
    obtain o3 where "pass_model en ts o2 = Some (pass_events ts \<noteq> [], pass_rest ts, o3)" "outputs_ready en mf ml toks o3"
        "prints en sh toks o2 (pass_events ts) o3"
      using Cons.IH [OF o2(2) rest] by blast
    then show ?thesis
      using Cons o2 prints_trans [OF o2(3)] by (auto simp: pass_thread_def)
  qed
qed

section \<open>What a pass keeps\<close>

text \<open>No step of the backend's reading side touches the pending sink or the pending formatter, or writes
  to a file that is not the current sink.\<close>

definition same_outputs :: "outputs \<Rightarrow> outputs \<Rightarrow> bool" where
  "same_outputs o1 o2 \<longleftrightarrow>
     sk_file (o_sink o2) = sk_file (o_sink o1) \<and> sk_pending (o_sink o2) = sk_pending (o_sink o1) \<and>
     fh_formatter (o_formatter o2) = fh_formatter (o_formatter o1) \<and>
     fh_pending (o_formatter o2) = fh_pending (o_formatter o1) \<and>
     (\<forall>f. f \<noteq> sk_file (o_sink o1) \<longrightarrow> file_output f (sk_io (o_sink o2)) = file_output f (sk_io (o_sink o1)))"

lemma same_outputs_refl: "same_outputs o1 o1"
  by (simp add: same_outputs_def)

lemma same_outputs_trans: "same_outputs o1 o2 \<Longrightarrow> same_outputs o2 o3 \<Longrightarrow> same_outputs o1 o3"
  by (simp add: same_outputs_def)

lemma emit_event_same: "emit_event en site name ts msg o1 = Some o2 \<Longrightarrow> same_outputs o1 o2"
  by (auto simp: emit_event_def handler_format_def write_str_and_endl_def io_def heap_do_def
      same_outputs_def Let_def split: if_splits prod.splits option.splits)

lemma poll_queue_same:
  assumes "poll_queue en q o1 = Some (any, q', o2)"
  shows "same_outputs o1 o2"
  using assms
  by (auto simp: poll_queue_def read_and_process_single_event_def Let_def same_outputs_refl
      split: prod.splits option.splits dest: emit_event_same)

lemma poll_read_same: "poll_read en n bm = Some (any, bm') \<Longrightarrow> same_outputs (snd bm) (snd bm')"
  by (auto simp: poll_read_def split: prod.splits option.splits dest: poll_queue_same)

lemma poll_loop_same:
  assumes "poll_loop en node any0 bm = Some r"
  shows "same_outputs (snd bm) (snd (snd r))"
proof (rule poll_loop.raw_induct [where P = "\<lambda>en node any0 bm r. same_outputs (snd bm) (snd (snd r))", OF _ assms])
  fix loop en node any0 bm r
  assume IH: "\<And>en node any0 bm r. loop en node any0 bm = Some r \<Longrightarrow> same_outputs (snd bm) (snd (snd r))"
    and body: "(case node of
         None \<Rightarrow> Some (any0, bm)
       | Some n \<Rightarrow>
           (case rg_nodes (fst bm) n of
              None \<Rightarrow> None
            | Some nd \<Rightarrow>
                (case poll_read en n bm of
                   None \<Rightarrow> None
                 | Some (any, rg, o2) \<Rightarrow>
                     if any then loop en (nd_next nd) True (rg, o2)
                     else (case poll_reap n rg of
                             None \<Rightarrow> None
                           | Some rg' \<Rightarrow> loop en (nd_next nd) any0 (rg', o2))))) = Some r"
  show "same_outputs (snd bm) (snd (snd r))"
  proof (cases node)
    case None
    then show ?thesis using body by (auto simp: same_outputs_refl)
  next
    case (Some n)
    then obtain any1 rg1 o1 where read: "poll_read en n bm = Some (any1, rg1, o1)"
      using body by (auto split: option.splits)
    obtain node2 any2 rg2 where rec: "loop en node2 any2 (rg2, o1) = Some r"
      using body Some read by (auto split: option.splits if_splits)
    have "same_outputs (snd bm) o1" using poll_read_same [OF read] by simp
    moreover have "same_outputs o1 (snd (snd r))" using IH [OF rec] by simp
    ultimately show ?thesis by (rule same_outputs_trans)
  qed
qed

text \<open>A pass never removes a thread that is alive, nor any event it does not process.\<close>

lemma pass_model_alive:
  "pass_model en ts o1 = Some (any, ts', o2) \<Longrightarrow> t \<in> set ts \<Longrightarrow> tv_alive t \<Longrightarrow> \<exists>t' \<in> set ts'. tv_alive t'"
proof (induction ts arbitrary: o1 any ts')
  case (Cons u ts)
  show ?case
  proof (cases "tv_events u")
    case Nil
    then show ?thesis using Cons by (cases "tv_alive u") auto
  next
    case (Cons e es)
    then obtain o3 any3 ts3 where "pass_model en ts o3 = Some (any3, ts3, o2)" "ts' = u\<lparr>tv_events := es\<rparr> # ts3"
      using Cons.prems(1) by (auto split: option.splits)
    then show ?thesis using Cons.IH Cons.prems(2,3) by auto
  qed
qed simp

lemma pass_model_typed:
  "pass_model en ts o1 = Some (any, ts', o2) \<Longrightarrow> views_typed en ts \<Longrightarrow> views_typed en ts'"
proof (induction ts arbitrary: o1 any ts')
  case (Cons u ts)
  show ?case
  proof (cases "tv_events u")
    case Nil
    then show ?thesis using Cons by (cases "tv_alive u") (auto simp: views_typed_def)
  next
    case (Cons e es)
    then obtain o3 any3 ts3 where "pass_model en ts o3 = Some (any3, ts3, o2)" "ts' = u\<lparr>tv_events := es\<rparr> # ts3"
      using Cons.prems(1) by (auto split: option.splits)
    then show ?thesis using Cons.IH Cons.prems(2) Cons by (auto simp: views_typed_def)
  qed
qed (simp add: views_typed_def)

section \<open>A thread's own steps\<close>

text \<open>A log call of the thread registered at node \<open>n\<close>, and its exit: the destructor of
  \<open>ThreadContextHandler\<close>, which only marks the context.\<close>

definition thread_log :: "nat \<Rightarrow> log_event \<Rightarrow> registry \<Rightarrow> (bool \<times> registry) option" where
  "thread_log n e rg =
     (case rg_nodes rg n of
        None \<Rightarrow> None
      | Some nd \<Rightarrow>
          (case rg_contexts rg (nd_context nd) of
             None \<Rightarrow> None
           | Some ctx \<Rightarrow>
               map_option (\<lambda>(stored, q).
                 (stored, rg\<lparr>rg_contexts := (rg_contexts rg)(nd_context nd \<mapsto> ctx\<lparr>tc_q := q\<rparr>)\<rparr>))
                 (push_event e (tc_q ctx))))"

definition thread_exit :: "nat \<Rightarrow> registry \<Rightarrow> registry option" where
  "thread_exit n rg =
     (case rg_nodes rg n of
        None \<Rightarrow> None
      | Some nd \<Rightarrow>
          (case rg_contexts rg (nd_context nd) of
             None \<Rightarrow> None
           | Some ctx \<Rightarrow> Some (rg\<lparr>rg_contexts := (rg_contexts rg)(nd_context nd \<mapsto> kill ctx)\<rparr>)))"

definition node_queue :: "registry \<Rightarrow> nat \<Rightarrow> queue option" where
  "node_queue rg n = (case ctx_of rg n of None \<Rightarrow> None | Some c \<Rightarrow> map_option tc_q (rg_contexts rg c))"

lemma views_kill:
  assumes v: "views rg (ds @ t # ts)"
  shows "\<exists>rg'. thread_exit (tv_node t) rg = Some rg' \<and> views rg' (ds @ t\<lparr>tv_alive := False\<rparr> # ts)"
proof -
  obtain nd ctx where n: "rg_nodes rg (tv_node t) = Some nd" "rg_contexts rg (nd_context nd) = Some ctx"
      "q_holds (tc_q ctx) (map event_bytes (tv_events t))"
    using views_node [OF v] by metis
  let ?rg = "rg\<lparr>rg_contexts := (rg_contexts rg)(nd_context nd \<mapsto> kill ctx)\<rparr>"
  have same: "ctx_of ?rg = ctx_of rg" by (simp add: ctx_of_def fun_eq_iff)
  have ok: "ctx_ok rg" using v by (simp add: views_def rg_holds_def)
  have c: "ctx_of rg (tv_node t) = Some (nd_context nd)" using n by (simp add: ctx_of_def)
  have "ctx_ok ?rg" using ok unfolding ctx_ok_def same by auto
  then have "rg_holds ?rg (map tv_node (ds @ t\<lparr>tv_alive := False\<rparr> # ts))"
    using v by (simp add: views_def rg_holds_def)
  moreover have "view_ok ?rg u" if "u \<in> set ds \<union> set ts" for u
  proof -
    have "ctx_of rg (tv_node u) \<noteq> Some (nd_context nd)"
      using views_other(2) [OF v that] ok c unfolding ctx_ok_def by metis
    then show ?thesis using views_other(1) [OF v that] unfolding view_ok_def same by (auto simp: fun_upd_other)
  qed
  moreover have "view_ok ?rg (t\<lparr>tv_alive := False\<rparr>)"
    using c n unfolding view_ok_def same by (auto simp: kill_def)
  ultimately show ?thesis using n by (auto simp: views_def list_all_iff thread_exit_def)
qed

lemma views_log:
  assumes v: "views rg (ds @ t # ts)" and e: "event_ok e" and q: "node_queue rg (tv_node t) = Some q"
    and fits: "event_fits (q_cap q) (tv_events t) e"
  shows "\<exists>rg'. thread_log (tv_node t) e rg = Some (True, rg') \<and> views rg' (ds @ t\<lparr>tv_events := tv_events t @ [e]\<rparr> # ts)"
proof -
  obtain nd ctx where n: "rg_nodes rg (tv_node t) = Some nd" "rg_contexts rg (nd_context nd) = Some ctx"
      "q_holds (tc_q ctx) (map event_bytes (tv_events t))"
    using views_node [OF v] by metis
  have "q = tc_q ctx" using q n by (simp add: node_queue_def ctx_of_def)
  then obtain q' where "push_event e (tc_q ctx) = Some (True, q')" "q_holds q' (map event_bytes (tv_events t @ [e]))"
    using push_event_law [OF e n(3)] fits by auto
  then show ?thesis using views_set_queue [OF v n(1,2)] n by (auto simp: thread_log_def)
qed

lemma poll_read_none_cap:
  assumes v: "views rg (ds @ t # ts)" and e: "tv_events t = []" and q: "node_queue rg (tv_node t) = Some q"
  shows "\<exists>rg' q'. poll_read en (tv_node t) (rg, o1) = Some (False, rg', o1) \<and> views rg' (ds @ t # ts) \<and>
    node_queue rg' (tv_node t) = Some q' \<and> q_cap q' = q_cap q"
proof -
  obtain rg' where rg': "poll_read en (tv_node t) (rg, o1) = Some (False, rg', o1)" "views rg' (ds @ t # ts)"
    using poll_read_none [OF v e] by blast
  obtain nd ctx where n: "rg_nodes rg (tv_node t) = Some nd" "rg_contexts rg (nd_context nd) = Some ctx"
      "q_holds (tc_q ctx) []"
    using views_node [OF v] e by (metis list.simps(8))
  obtain q' where "poll_queue en (tc_q ctx) o1 = Some (False, q', o1)" "q_cap q' = q_cap (tc_q ctx)"
    using poll_queue_empty [OF n(3)] by blast
  moreover have "q = tc_q ctx" using q n by (simp add: node_queue_def ctx_of_def)
  ultimately have "node_queue rg' (tv_node t) = Some q' \<and> q_cap q' = q_cap q"
    using rg'(1) n by (auto simp: poll_read_def node_queue_def ctx_of_def)
  then show ?thesis using rg' by blast
qed

section \<open>Properties\<close>

text \<open>C18. One pass of \<open>poll_threads\<close> over any number of threads terminates and does exactly this: in list
  order, every thread that has events has its oldest one processed and removed, every thread that is
  dead and has none is unlinked and freed, all others are untouched; it reports whether it
  processed anything, and fails only if processing an event fails.\<close>
theorem poll_threads_one_pass:
  assumes "views rg ts" and "views_typed en ts"
  shows "pass_agrees (poll_threads en (rg, o1)) False [] (pass_model en ts o1)"
  by (rule poll_threads_pass [OF assms])

definition demo_ctx :: "bool \<Rightarrow> queue \<Rightarrow> thread_context" where
  "demo_ctx alive q = \<lparr>tc_name = ''main'', tc_q = q, tc_is_alive = alive\<rparr>"

definition demo_registry :: "bool \<Rightarrow> queue \<Rightarrow> queue \<Rightarrow> registry" where
  "demo_registry alive q1 q2 =
     \<lparr>rg_head = Some 2, rg_nodes = (\<lambda>a. None)(2 \<mapsto> \<lparr>nd_context = 12, nd_next = Some 1\<rparr>, 1 \<mapsto> \<lparr>nd_context = 11, nd_next = None\<rparr>),
      rg_contexts = (\<lambda>a. None)(12 \<mapsto> demo_ctx alive q2, 11 \<mapsto> demo_ctx alive q1)\<rparr>"

definition demo_views :: "bool \<Rightarrow> thread_view list" where
  "demo_views alive = [\<lparr>tv_node = 2, tv_alive = alive, tv_events = [demo_event]\<rparr>,
     \<lparr>tv_node = 1, tv_alive = alive, tv_events = []\<rparr>]"

lemma demo_views_ok:
  "q_holds q1 [] \<Longrightarrow> q_holds q2 [event_bytes demo_event] \<Longrightarrow> views (demo_registry alive q1 q2) (demo_views alive)"
  by (auto simp: views_def rg_holds_def demo_views_def demo_registry_def view_ok_def ctx_of_def ctx_ok_def
      demo_ctx_def split: if_splits)

lemma demo_queues:
  obtains q1 q2 where "new_queue 64 = Some q1" "q_holds q1 []" "q_cap q1 = 64"
    "push_event demo_event q1 = Some (True, q2)" "q_holds q2 [event_bytes demo_event]"
proof -
  obtain q where q: "new_queue 64 = Some q" "q_holds q []" using new_queue_holds [of 64] by auto
  have cap: "q_cap q = 64" using q(1) by (auto simp: new_queue_def bit_ceil_def upt_rec q_cap_def)
  have fits: "event_fits (q_cap q) [] demo_event" by (simp add: event_fits_def fits_def cap demo_event_size)
  obtain q2 where "push_event demo_event q = Some (True, q2)" "q_holds q2 [event_bytes demo_event]"
    using push_event_law [OF demo_event_ok, of q "[]"] q(2) fits by auto
  then show ?thesis using that q cap by blast
qed

lemma demo_views_printable: "views_printable demo_env (demo_views alive)"
  by (simp add: views_printable_def demo_views_def demo_event_printable)

lemma poll_threads_one_pass_witness:
  "\<exists>q1 q2. q_holds q1 [] \<and> q_holds q2 [event_bytes demo_event] \<and>
     pass_agrees (poll_threads demo_env (demo_registry False q1 q2, demo_outputs)) False []
       (pass_model demo_env (demo_views False) demo_outputs)"
proof -
  obtain q1 q2 where q: "q_holds q1 []" "q_holds q2 [event_bytes demo_event]" using demo_queues by metis
  show ?thesis
    using poll_threads_one_pass [OF demo_views_ok [OF q] views_printable_typed [OF demo_views_printable]] q by blast
qed

text \<open>The check that reaps a thread can lose an event: if the backend finds the queue empty and the
  thread then logs, successfully, and ends before the backend asks whether it is alive, the context is
  freed with the event in its queue, and the event is never processed.\<close>
theorem event_lost_at_thread_exit:
  assumes "views rg (ds @ t # ts)" and "tv_events t = []" and "event_ok e"
    and "node_queue rg (tv_node t) = Some q" and "length (event_bytes e) \<le> q_cap q"
  shows "\<exists>rg1 rg2 rg3 rg4. poll_read en (tv_node t) (rg, o1) = Some (False, rg1, o1) \<and>
    thread_log (tv_node t) e rg1 = Some (True, rg2) \<and> views rg2 (ds @ t\<lparr>tv_events := [e]\<rparr> # ts) \<and>
    thread_exit (tv_node t) rg2 = Some rg3 \<and>
    poll_reap (tv_node t) rg3 = Some rg4 \<and> views rg4 (ds @ ts)"
proof -
  obtain rg1 q1 where rg1: "poll_read en (tv_node t) (rg, o1) = Some (False, rg1, o1)" "views rg1 (ds @ t # ts)"
      "node_queue rg1 (tv_node t) = Some q1" "q_cap q1 = q_cap q"
    using poll_read_none_cap [OF assms(1,2,4)] by blast
  have "event_fits (q_cap q1) (tv_events t) e" using assms(2,5) rg1(4) by (simp add: event_fits_def fits_def)
  from views_log [OF rg1(2) assms(3) rg1(3) this] obtain rg2 where
    rg2: "thread_log (tv_node t) e rg1 = Some (True, rg2)" "views rg2 (ds @ t\<lparr>tv_events := [e]\<rparr> # ts)"
    using assms(2) by auto
  obtain rg3 where rg3: "thread_exit (tv_node t) rg2 = Some rg3"
      "views rg3 (ds @ t\<lparr>tv_events := [e], tv_alive := False\<rparr> # ts)"
    using views_kill [OF rg2(2)] by auto
  obtain rg4 where "poll_reap (tv_node t) rg3 = Some rg4" "views rg4 (ds @ ts)"
    using poll_reap_law [OF rg3(2)] by auto
  then show ?thesis using rg1(1) rg2 rg3(1) by blast
qed

lemma event_lost_at_thread_exit_witness:
  "\<exists>q1 q2 rg1 rg2 rg3 rg4. poll_read demo_env 1 (demo_registry True q1 q2, demo_outputs) = Some (False, rg1, demo_outputs) \<and>
     thread_log 1 demo_event rg1 = Some (True, rg2) \<and> thread_exit 1 rg2 = Some rg3 \<and>
     poll_reap 1 rg3 = Some rg4 \<and> views rg4 [hd (demo_views True)]"
proof -
  obtain q1 q2 where q: "q_holds q1 []" "q_cap q1 = 64" "q_holds q2 [event_bytes demo_event]" using demo_queues by metis
  let ?t = "\<lparr>tv_node = 1, tv_alive = True, tv_events = []\<rparr>"
  have v: "views (demo_registry True q1 q2) ([hd (demo_views True)] @ ?t # [])"
    using demo_views_ok [OF q(1,3), of True] by (simp add: demo_views_def)
  have nq: "node_queue (demo_registry True q1 q2) (tv_node ?t) = Some q1"
    by (simp add: node_queue_def ctx_of_def demo_registry_def demo_ctx_def)
  have cap: "length (event_bytes demo_event) \<le> q_cap q1" using q(2) by (simp add: demo_event_size)
  from event_lost_at_thread_exit [OF v _ demo_event_ok nq cap, of demo_env demo_outputs]
  obtain rg1 rg2 rg3 rg4 where
    "poll_read demo_env 1 (demo_registry True q1 q2, demo_outputs) = Some (False, rg1, demo_outputs)"
    "thread_log 1 demo_event rg1 = Some (True, rg2)" "thread_exit 1 rg2 = Some rg3"
    "poll_reap 1 rg3 = Some rg4" "views rg4 [hd (demo_views True)]"
    by auto
  then show ?thesis by (intro exI conjI)
qed

end
