(* ===== verification/Soft_Double.thy ===== *)
theory Soft_Double
  imports Complex_Main Papper_Prelude
begin

text \<open>
  Double precision arithmetic as \<open>time.h\<close> uses it: a finite double is a mantissa and a power of two,
  \<open>(m, e)\<close> standing for \<open>m * 2 ^ e\<close>; every operation is exact and then rounded to 53 bits, ties to even.
  Overflow to infinity and subnormal numbers do not occur at the magnitudes of clock values and
  are left out. \<open>round53\<close> is the rounding on integers; the lemmas show it monotonic and exact below
  \<open>2 ^ 53\<close>.
\<close>

type_synonym double = "int \<times> int"

fun bits :: "nat \<Rightarrow> nat" where
  "bits n = (if n = 0 then 0 else Suc (bits (n div 2)))"

declare bits.simps [simp del]

text \<open>\<open>m / 2 ^ k\<close> to the nearest integer, ties to even.\<close>

definition shift_round :: "nat \<Rightarrow> nat \<Rightarrow> nat" where
  "shift_round m k =
     (let q = m div 2 ^ k; r = m mod 2 ^ k
      in if 2 ^ k < 2 * r \<or> (2 ^ k = 2 * r \<and> odd q) then q + 1 else q)"

definition round_norm :: "nat \<Rightarrow> nat \<times> nat" where
  "round_norm m = (let k = bits m - 53 in (shift_round m k, k))"

definition round53 :: "nat \<Rightarrow> nat" where
  "round53 m = shift_round m (bits m - 53) * 2 ^ (bits m - 53)"

definition d_norm :: "double \<Rightarrow> double" where
  "d_norm d =
     (let (m, e) = d; (q, k) = round_norm (nat \<bar>m\<bar>)
      in (sgn m * int q, e + int k))"

definition d_of_int :: "int \<Rightarrow> double" where
  "d_of_int i = d_norm (i, 0)"

definition d_mult :: "double \<Rightarrow> double \<Rightarrow> double" where
  "d_mult a b = d_norm (fst a * fst b, snd a + snd b)"

text \<open>Sums are formed at the smaller exponent.\<close>

definition d_add :: "double \<Rightarrow> double \<Rightarrow> double" where
  "d_add a b =
     (let e = min (snd a) (snd b)
      in d_norm (fst a * 2 ^ nat (snd a - e) + fst b * 2 ^ nat (snd b - e), e))"

definition d_neg :: "double \<Rightarrow> double" where
  "d_neg a = (- fst a, snd a)"

definition d_less :: "double \<Rightarrow> double \<Rightarrow> bool" where
  "d_less a b =
     (let e = min (snd a) (snd b)
      in fst a * 2 ^ nat (snd a - e) < fst b * 2 ^ nat (snd b - e))"

text \<open>Division: 64 more bits than the divisor has, the remainder kept as a last bit.\<close>

definition d_div :: "double \<Rightarrow> double \<Rightarrow> double" where
  "d_div a b =
     (let s = bits (nat \<bar>fst b\<bar>) + 64;
          n = nat \<bar>fst a\<bar> * 2 ^ s; d = nat \<bar>fst b\<bar>;
          q = 2 * (n div d) + (if n mod d = 0 then 0 else 1)
      in d_norm (sgn (fst a) * sgn (fst b) * int q, snd a - snd b - int s - 1))"

text \<open>Conversion to an integer type truncates.\<close>

definition d_trunc :: "double \<Rightarrow> int" where
  "d_trunc a =
     (if 0 \<le> snd a then fst a * 2 ^ nat (snd a)
      else sgn (fst a) * (\<bar>fst a\<bar> div 2 ^ nat (- snd a)))"

section \<open>Bit lengths\<close>

lemma bits_0 [simp]: "bits 0 = 0"
  by (simp add: bits.simps)

lemma bits_bounds: "0 < n \<Longrightarrow> 2 ^ (bits n - 1) \<le> n \<and> n < 2 ^ bits n \<and> 0 < bits n"
proof (induction n rule: bits.induct)
  case (1 n)
  show ?case
  proof (cases "n div 2 = 0")
    case True
    then have "n = 1" using 1(2) by linarith
    then show ?thesis by (simp add: bits.simps)
  next
    case False
    then have IH: "2 ^ (bits (n div 2) - 1) \<le> n div 2" "n div 2 < 2 ^ bits (n div 2)" "0 < bits (n div 2)"
      using 1 by simp_all
    have b: "bits n = Suc (bits (n div 2))" using 1(2) by (simp add: bits.simps)
    obtain j where j: "bits (n div 2) = Suc j" using IH(3) by (cases "bits (n div 2)") auto
    have "2 ^ j \<le> n div 2" "n div 2 < 2 * 2 ^ j" using IH(1,2) j by simp_all
    then have "2 * 2 ^ j \<le> n" "n < 4 * 2 ^ j" by linarith+
    then show ?thesis unfolding b j by simp
  qed
qed

lemma bits_less_iff: "n < 2 ^ k \<longleftrightarrow> bits n \<le> k"
proof (cases "n = 0")
  case False
  then have b: "2 ^ (bits n - 1) \<le> n" "n < 2 ^ bits n" "0 < bits n" using bits_bounds by auto
  show ?thesis
  proof
    assume "n < 2 ^ k"
    then have "(2::nat) ^ (bits n - 1) < 2 ^ k" using b(1) by linarith
    then show "bits n \<le> k" using b(3) by (simp add: power_strict_increasing_iff)
  next
    assume "bits n \<le> k"
    then have "(2::nat) ^ bits n \<le> 2 ^ k" by (simp add: power_increasing)
    then show "n < 2 ^ k" using b(2) by linarith
  qed
qed simp

lemma bits_mono: "m \<le> n \<Longrightarrow> bits m \<le> bits n"
  using bits_less_iff [of m "bits n"] bits_less_iff [of n "bits n"] by linarith

lemma bits_shift: "0 < m \<Longrightarrow> bits (m * 2 ^ j) = bits m + j"
proof (induction j)
  case (Suc j)
  have "bits (m * 2 ^ Suc j) = Suc (bits (m * 2 ^ Suc j div 2))" using Suc.prems by (subst bits.simps) simp
  also have "m * 2 ^ Suc j div 2 = m * 2 ^ j" by simp
  finally show ?case using Suc by simp
qed simp

section \<open>Rounding\<close>

lemma shift_round_0 [simp]: "shift_round m 0 = m"
  by (simp add: shift_round_def)

lemma shift_round_mono: "m \<le> n \<Longrightarrow> shift_round m k \<le> shift_round n k"
proof -
  assume "m \<le> n"
  then have q: "m div 2 ^ k \<le> n div 2 ^ k" by (rule div_le_mono)
  show ?thesis
  proof (cases "m div 2 ^ k = n div 2 ^ k")
    case True
    have "m div 2 ^ k * 2 ^ k + m mod 2 ^ k \<le> n div 2 ^ k * 2 ^ k + n mod 2 ^ k"
      using \<open>m \<le> n\<close> by (simp only: div_mult_mod_eq)
    then have "m mod 2 ^ k \<le> n mod 2 ^ k" using True by simp
    then show ?thesis using True by (auto simp: shift_round_def Let_def)
  next
    case False
    then have "m div 2 ^ k + 1 \<le> n div 2 ^ k" using q by simp
    then show ?thesis by (auto simp: shift_round_def Let_def)
  qed
qed

lemma shift_round_exact: "shift_round (m * 2 ^ k) k = m"
  by (simp add: shift_round_def)

lemma shift_round_scale: "shift_round (m * 2 ^ j) (k + j) = shift_round m k"
proof -
  have p: "(2::nat) ^ (k + j) = 2 ^ k * 2 ^ j" by (simp add: power_add)
  have "m * 2 ^ j div (2 ^ k * 2 ^ j) = m div 2 ^ k" by simp
  moreover have "m * 2 ^ j mod (2 ^ k * 2 ^ j) = (m mod 2 ^ k) * 2 ^ j" by (simp add: mult_mod_left)
  ultimately show ?thesis unfolding shift_round_def p by (simp add: Let_def)
qed

lemma round53_small: "m < 2 ^ 53 \<Longrightarrow> round53 m = m"
  using bits_less_iff [of m 53] by (simp add: round53_def)

lemma round53_mono: "m \<le> n \<Longrightarrow> round53 m \<le> round53 n"
proof -
  assume mn: "m \<le> n"
  let ?k = "bits m - 53" and ?l = "bits n - 53"
  show ?thesis
  proof (cases "?k = ?l")
    case True
    then show ?thesis unfolding round53_def using shift_round_mono [OF mn] by simp
  next
    case False
    then have kl: "?k < ?l" "53 < bits n" using bits_mono [OF mn] by linarith+
    have "m < 2 ^ (53 + ?k)" by (subst bits_less_iff) simp
    then have "shift_round m ?k \<le> shift_round (2 ^ 53 * 2 ^ ?k) ?k" by (intro shift_round_mono) (simp add: power_add)
    then have "round53 m \<le> 2 ^ 53 * 2 ^ ?k" unfolding round53_def shift_round_exact by simp
    also have "\<dots> = 2 ^ (53 + ?k)" by (simp add: power_add)
    also have "\<dots> \<le> 2 ^ (52 + ?l)" using kl(1) by (intro power_increasing) simp_all
    also have "\<dots> = 2 ^ 52 * 2 ^ ?l" by (simp add: power_add)
    also have "\<dots> \<le> round53 n"
    proof -
      have "2 ^ (52 + ?l) \<le> n" using bits_less_iff [of n "52 + ?l"] kl(2) by linarith
      then have "shift_round (2 ^ 52 * 2 ^ ?l) ?l \<le> shift_round n ?l"
        by (intro shift_round_mono) (simp add: power_add)
      then show ?thesis unfolding round53_def shift_round_exact by simp
    qed
    finally show ?thesis .
  qed
qed

lemma round53_scale: "round53 (m * 2 ^ j) = round53 m * 2 ^ j"
proof (cases "m = 0")
  case False
  then have b: "bits (m * 2 ^ j) = bits m + j" by (simp add: bits_shift)
  show ?thesis
  proof (cases "53 \<le> bits m")
    case True
    then have "bits m + j - 53 = (bits m - 53) + j" by simp
    then show ?thesis unfolding round53_def b by (simp add: shift_round_scale power_add)
  next
    case small: False
    then have m: "round53 m = m" using bits_less_iff [of m 53] by (intro round53_small) simp
    show ?thesis
    proof (cases "bits m + j \<le> 53")
      case True
      then have "m * 2 ^ j < 2 ^ 53" using b bits_less_iff [of "m * 2 ^ j" 53] by simp
      then show ?thesis using m by (simp add: round53_small)
    next
      case False
      define i where "i = 53 - bits m"
      have i: "j = i + (bits m + j - 53)" using small False by (simp add: i_def)
      have "m * 2 ^ j = (m * 2 ^ i) * 2 ^ (bits m + j - 53)" using i by (metis mult.assoc power_add)
      then have "shift_round (m * 2 ^ j) (bits m + j - 53) = m * 2 ^ i" by (metis shift_round_exact)
      then show ?thesis unfolding round53_def [of "m * 2 ^ j"] b m using i by (metis mult.assoc power_add)
    qed
  qed
qed (simp add: round53_small)

section \<open>Signed values\<close>

text \<open>Rounding of an integer, and the integer part of \<open>v * 2 ^ e\<close>.\<close>

definition rnd :: "int \<Rightarrow> int" where
  "rnd i = sgn i * int (round53 (nat \<bar>i\<bar>))"

definition trunc_at :: "int \<Rightarrow> int \<Rightarrow> int" where
  "trunc_at e v = (if 0 \<le> e then v * 2 ^ nat e else sgn v * (\<bar>v\<bar> div 2 ^ nat (- e)))"

lemma round53_pos: "0 < m \<Longrightarrow> 0 < round53 m"
  using round53_mono [of 1 m] by (simp add: round53_small)

lemma rnd_small: "\<bar>i\<bar> < 2 ^ 53 \<Longrightarrow> rnd i = i"
  unfolding rnd_def by (subst round53_small) (simp_all add: nat_less_iff mult_sgn_abs)

lemma rnd_mono: "i \<le> j \<Longrightarrow> rnd i \<le> rnd j"
proof -
  assume ij: "i \<le> j"
  consider "0 \<le> i" | "i < 0" "0 \<le> j" | "j < 0" by linarith
  then show ?thesis
  proof cases
    case 1
    then have "round53 (nat i) \<le> round53 (nat j)" using ij by (intro round53_mono) simp
    then show ?thesis using 1 ij by (cases "i = 0"; cases "j = 0") (auto simp: rnd_def sgn_if)
  next
    case 2
    then show ?thesis by (simp add: rnd_def sgn_if)
  next
    case 3
    then have "round53 (nat (- j)) \<le> round53 (nat (- i))" using ij by (intro round53_mono) simp
    then show ?thesis using 3 ij by (simp add: rnd_def sgn_if)
  qed
qed

lemma rnd_sgn [simp]: "sgn (rnd i) = sgn i"
proof (cases "i = 0")
  case False
  then have "0 < round53 (nat \<bar>i\<bar>)" by (intro round53_pos) simp
  then show ?thesis by (simp add: rnd_def sgn_mult)
qed (simp add: rnd_def)

lemma rnd_scale: "rnd (i * 2 ^ j) = rnd i * 2 ^ j"
proof -
  have "nat \<bar>i * 2 ^ j\<bar> = nat \<bar>i\<bar> * 2 ^ j" by (simp add: abs_mult nat_mult_distrib nat_power_eq)
  moreover have "sgn (i * 2 ^ j) = sgn i" by (simp add: sgn_mult)
  ultimately show ?thesis by (simp add: rnd_def round53_scale mult.assoc)
qed

lemma trunc_at_mono: "v \<le> w \<Longrightarrow> trunc_at e v \<le> trunc_at e w"
proof -
  assume vw: "v \<le> w"
  show ?thesis
  proof (cases "0 \<le> e")
    case False
    let ?p = "2 ^ nat (- e) :: int"
    consider "0 \<le> v" | "v < 0" "0 \<le> w" | "w < 0" by linarith
    then show ?thesis
    proof cases
      case 1
      then have "v div ?p \<le> w div ?p" using vw by (intro zdiv_mono1) simp_all
      then show ?thesis using 1 vw False by (auto simp: trunc_at_def sgn_if)
    next
      case 2
      have "0 \<le> - v div ?p" "0 \<le> w div ?p" using 2 by (simp_all add: pos_imp_zdiv_nonneg_iff)
      then show ?thesis using 2 False by (auto simp: trunc_at_def sgn_if)
    next
      case 3
      then have "- w div ?p \<le> - v div ?p" using vw by (intro zdiv_mono1) simp_all
      then show ?thesis using 3 vw False by (auto simp: trunc_at_def sgn_if)
    qed
  qed (simp add: trunc_at_def vw)
qed

lemma d_trunc_shift: "d_trunc (m, e + int k) = trunc_at e (m * 2 ^ k)"
proof -
  consider "0 \<le> e" | "e < 0" "0 \<le> e + int k" | "e + int k < 0" by linarith
  then show ?thesis
  proof cases
    case 1
    then have "nat (e + int k) = k + nat e" by simp
    then show ?thesis using 1 by (simp add: d_trunc_def trunc_at_def power_add)
  next
    case 2
    then have k: "k = nat (e + int k) + nat (- e)" by simp
    have "\<bar>m * 2 ^ k\<bar> div 2 ^ nat (- e) = \<bar>m\<bar> * 2 ^ nat (e + int k)"
      by (subst k) (simp add: abs_mult power_add)
    moreover have "sgn (m * 2 ^ k) = sgn m" by (simp add: sgn_mult)
    ultimately show ?thesis using 2 by (simp add: d_trunc_def trunc_at_def mult.assoc [symmetric] mult_sgn_abs)
  next
    case 3
    then have k: "nat (- e) = k + nat (- e - int k)" by simp
    have "\<bar>m * 2 ^ k\<bar> div 2 ^ nat (- e) = \<bar>m\<bar> div 2 ^ nat (- e - int k)"
      unfolding k power_add abs_mult by simp
    moreover have "sgn (m * 2 ^ k) = sgn m" by (simp add: sgn_mult)
    moreover have "- (e + int k) = - e - int k" by simp
    ultimately show ?thesis using 3 by (simp add: d_trunc_def trunc_at_def)
  qed
qed

lemma d_norm_value: "\<exists>q k. d_norm (m, e) = (q, e + int k) \<and> q * 2 ^ k = rnd m"
  by (simp add: d_norm_def round_norm_def Let_def rnd_def round53_def)

lemma d_of_int_value: "\<exists>q k. d_of_int i = (q, int k) \<and> q * 2 ^ k = rnd i"
  using d_norm_value [of i 0] by (simp add: d_of_int_def)

lemma d_of_int_small: "\<bar>i\<bar> < 2 ^ 53 \<Longrightarrow> d_of_int i = (i, 0)"
proof -
  assume small: "\<bar>i\<bar> < 2 ^ 53"
  then have "bits (nat \<bar>i\<bar>) \<le> 53" by (subst bits_less_iff [symmetric]) (simp add: nat_less_iff)
  then show ?thesis by (simp add: d_of_int_def d_norm_def round_norm_def mult_sgn_abs)
qed

text \<open>The product of a double with a rounded integer, truncated.\<close>

lemma trunc_mult_of_int: "d_trunc (d_mult (m, e) (d_of_int i)) = trunc_at e (rnd (m * rnd i))"
proof -
  obtain q k where q: "d_of_int i = (q, int k)" "q * 2 ^ k = rnd i" using d_of_int_value by blast
  obtain r l where r: "d_norm (m * q, e + int k) = (r, e + int k + int l)" "r * 2 ^ l = rnd (m * q)"
    using d_norm_value by blast
  have "d_trunc (d_mult (m, e) (d_of_int i)) = d_trunc (r, e + int (k + l))"
    by (simp add: d_mult_def q(1) r(1) add.assoc)
  also have "\<dots> = trunc_at e (r * 2 ^ (k + l))" by (rule d_trunc_shift)
  also have "r * 2 ^ (k + l) = rnd (m * q) * 2 ^ k" unfolding r(2) [symmetric] by (simp add: power_add)
  also have "\<dots> = rnd (m * rnd i)" unfolding q(2) [symmetric] rnd_scale [symmetric] by (simp add: mult.assoc)
  finally show ?thesis .
qed

lemma trunc_mult_of_int_mono:
  assumes "0 \<le> m" and "i \<le> j"
  shows "d_trunc (d_mult (m, e) (d_of_int i)) \<le> d_trunc (d_mult (m, e) (d_of_int j))"
  unfolding trunc_mult_of_int
  by (intro trunc_at_mono rnd_mono mult_left_mono rnd_mono assms)

section \<open>Rounding errors\<close>

definition d_real :: "double \<Rightarrow> real" where
  "d_real a = real_of_int (fst a) * 2 powi (snd a)"

lemma round_up_error:
  fixes a P r :: int
  assumes "x = a + P" and "y = a + r" and "r < P" and "P \<le> 2 * r"
  shows "2 * \<bar>x - y\<bar> \<le> P"
  using assms by (auto simp: abs_if)

lemma round_down_error:
  fixes a P r :: int
  assumes "x = a" and "y = a + r" and "0 \<le> r" and "2 * r \<le> P"
  shows "2 * \<bar>x - y\<bar> \<le> P"
  using assms by (auto simp: abs_if)

lemma shift_round_error: "2 * \<bar>int (shift_round m k * 2 ^ k) - int m\<bar> \<le> 2 ^ k"
proof -
  let ?q = "m div 2 ^ k" and ?r = "m mod 2 ^ k"
  have m: "int m = int ?q * 2 ^ k + int ?r"
    using arg_cong [OF div_mult_mod_eq [of m "2 ^ k"], of int] by simp
  have r: "int ?r < 2 ^ k" using mod_less_divisor [of "2 ^ k" m] by (metis of_nat_less_iff of_nat_numeral of_nat_power zero_less_numeral zero_less_power)
  show ?thesis
  proof (cases "2 ^ k < 2 * ?r \<or> (2 ^ k = 2 * ?r \<and> odd ?q)")
    case True
    then have "(2::nat) ^ k \<le> 2 * ?r" by auto
    then have "(2::int) ^ k \<le> 2 * int ?r" by (metis of_nat_le_iff of_nat_mult of_nat_numeral of_nat_power)
    moreover have "int (shift_round m k * 2 ^ k) = int ?q * 2 ^ k + 2 ^ k"
      using True by (simp add: shift_round_def Let_def distrib_right)
    ultimately show ?thesis using round_up_error m r by blast
  next
    case False
    then have "2 * ?r \<le> (2::nat) ^ k" by auto
    then have "2 * int ?r \<le> (2::int) ^ k" by (metis of_nat_le_iff of_nat_mult of_nat_numeral of_nat_power)
    moreover have "int (shift_round m k * 2 ^ k) = int ?q * 2 ^ k"
      using False by (simp add: shift_round_def Let_def)
    ultimately show ?thesis using round_down_error m of_nat_0_le_iff by blast
  qed
qed

lemma round53_error: "2 ^ 53 * \<bar>int (round53 m) - int m\<bar> \<le> int m"
proof (cases "bits m \<le> 53")
  case True
  then show ?thesis by (simp add: round53_def)
next
  case False
  let ?k = "bits m - 53"
  have "0 < m" using False by (cases m) simp_all
  then have "2 ^ (bits m - 1) \<le> m" using bits_bounds by blast
  moreover have "bits m - 1 = 52 + ?k" using False by simp
  ultimately have "2 ^ 52 * 2 ^ ?k \<le> int m" by (metis of_nat_le_iff of_nat_numeral of_nat_power power_add)
  moreover have "2 * \<bar>int (round53 m) - int m\<bar> \<le> 2 ^ ?k"
    using shift_round_error [of m ?k] by (simp add: round53_def)
  ultimately show ?thesis by simp
qed

lemma rnd_error: "2 ^ 53 * \<bar>rnd i - i\<bar> \<le> \<bar>i\<bar>"
proof -
  have "\<bar>rnd i - i\<bar> = \<bar>int (round53 (nat \<bar>i\<bar>)) - int (nat \<bar>i\<bar>)\<bar>"
    by (cases "i = 0"; cases "0 \<le> i") (simp_all add: rnd_def sgn_if round53_small)
  then show ?thesis using round53_error [of "nat \<bar>i\<bar>"] by simp
qed

lemma d_norm_error: "2 ^ 53 * \<bar>d_real (d_norm a) - d_real a\<bar> \<le> \<bar>d_real a\<bar>"
proof -
  obtain m e where a: "a = (m, e)" by fastforce
  obtain q k where q: "d_norm (m, e) = (q, e + int k)" "q * 2 ^ k = rnd m" using d_norm_value by blast
  have "d_real (d_norm a) = real_of_int (q * 2 ^ k) * 2 powi e"
    by (simp add: a q(1) d_real_def power_int_add)
  then have "d_real (d_norm a) - d_real a = real_of_int (rnd m - m) * 2 powi e"
    unfolding q(2) by (simp add: a d_real_def left_diff_distrib)
  then have "2 ^ 53 * \<bar>d_real (d_norm a) - d_real a\<bar> = real_of_int (2 ^ 53 * \<bar>rnd m - m\<bar>) * 2 powi e"
    by (simp add: abs_mult)
  also have "\<dots> \<le> real_of_int \<bar>m\<bar> * 2 powi e"
    using rnd_error [of m] by (intro mult_right_mono) (simp_all only: of_int_le_iff, simp)
  finally show ?thesis by (simp add: a d_real_def abs_mult)
qed

lemma int_div_error:
  assumes "0 < p"
  shows "\<bar>real_of_int (m div p) - real_of_int m / real_of_int p\<bar> < 1"
proof -
  let ?x = "real_of_int m / real_of_int p"
  have "real_of_int \<lfloor>?x\<rfloor> \<le> ?x" "?x < real_of_int \<lfloor>?x\<rfloor> + 1" by linarith+
  then show ?thesis unfolding floor_divide_of_int_eq by linarith
qed

lemma d_trunc_error: "\<bar>real_of_int (d_trunc a) - d_real a\<bar> < 1"
proof (cases "0 \<le> snd a")
  case True
  then show ?thesis by (simp add: d_trunc_def d_real_def power_int_def)
next
  case False
  let ?p = "(2::int) ^ nat (- snd a)" and ?m = "\<bar>fst a\<bar>"
  have real: "d_real a = real_of_int (fst a) / real_of_int ?p"
    using False unfolding d_real_def power_int_def by (simp only: if_False divide_inverse power_inverse of_int_power of_int_numeral)
  define q where "q = ?m div ?p"
  have trunc: "d_trunc a = sgn (fst a) * q" using False by (simp add: d_trunc_def q_def)
  have err: "\<bar>real_of_int q - real_of_int ?m / real_of_int ?p\<bar> < 1" unfolding q_def by (rule int_div_error) simp
  show ?thesis
  proof (cases "fst a" "0 :: int" rule: linorder_cases)
    case less
    then have "real_of_int (d_trunc a) - d_real a = - (real_of_int q - real_of_int ?m / real_of_int ?p)"
      by (simp add: real trunc)
    then show ?thesis using err by linarith
  next
    case equal
    then show ?thesis by (simp add: real trunc)
  next
    case greater
    then show ?thesis using err by (simp add: real trunc)
  qed
qed

section \<open>Evaluation\<close>

lemma bits_Suc_0: "bits (Suc 0) = 1"
  by (subst bits.simps) simp

lemma bits_Bit0: "bits (numeral (Num.Bit0 n)) = Suc (bits (numeral n))"
  by (subst bits.simps) simp

lemma bits_Bit1: "bits (numeral (Num.Bit1 n)) = Suc (bits (numeral n))"
  by (subst bits.simps) simp

lemmas double_eval = bits_Suc_0 bits_Bit0 bits_Bit1 d_mult_def d_of_int_def d_norm_def round_norm_def
  shift_round_def d_div_def d_trunc_def Let_def

text \<open>The division of 10 by 33, bit for bit as IEEE arithmetic gives it.\<close>

lemma d_div_10_33: "d_div (10, 0) (33, 0) = (5458908639236965, -54)"
  by (simp add: double_eval)

text \<open>The values of the operations up to rounding.\<close>

lemma d_real_of_int: "d_real (i, 0) = real_of_int i"
  by (simp add: d_real_def)

lemma d_real_rescale:
  assumes "e \<le> f"
  shows "real_of_int (m * 2 ^ nat (f - e)) * 2 powi e = d_real (m, f)"
proof -
  define n where "n = nat (f - e)"
  then have f: "f = int n + e" using assms by simp
  have "(2::real) powi (int n + e) = 2 ^ n * 2 powi e" by (subst power_int_add) simp_all
  then show ?thesis by (simp add: d_real_def f)
qed

lemma d_add_real: "\<exists>c. d_add a b = d_norm c \<and> d_real c = d_real a + d_real b"
proof -
  let ?e = "min (snd a) (snd b)"
  let ?c = "(fst a * 2 ^ nat (snd a - ?e) + fst b * 2 ^ nat (snd b - ?e), ?e)"
  have "d_real ?c = real_of_int (fst a * 2 ^ nat (snd a - ?e)) * 2 powi ?e +
      real_of_int (fst b * 2 ^ nat (snd b - ?e)) * 2 powi ?e"
    by (simp add: d_real_def distrib_right)
  also have "\<dots> = d_real a + d_real b"
    using d_real_rescale [of ?e "snd a" "fst a"] d_real_rescale [of ?e "snd b" "fst b"] by simp
  finally show ?thesis by (intro exI [of _ ?c]) (simp add: d_add_def Let_def)
qed

lemma d_norm_nonneg: "0 \<le> d_real a \<Longrightarrow> 0 \<le> d_real (d_norm a) \<and> d_real (d_norm a) \<le> d_real a * (1 + 1 / 2 ^ 53)"
  using d_norm_error [of a] by (simp add: abs_if field_simps split: if_splits)

lemma d_of_int_nonneg:
  "0 \<le> i \<Longrightarrow> 0 \<le> d_real (d_of_int i) \<and> d_real (d_of_int i) \<le> real_of_int i * (1 + 1 / 2 ^ 53)"
  using d_norm_nonneg [of "(i, 0)"] by (simp add: d_of_int_def d_real_of_int)

section \<open>The error of a quotient\<close>

lemma bits_pos_bounds: "0 < n \<Longrightarrow> n < 2 ^ bits n"
  using bits_bounds by blast

text \<open>The quotient before rounding is within \<open>2 ^ -64\<close> of the exact one.\<close>

lemma quotient_error:
  assumes "0 < n" and "0 < (d :: nat)"
  defines "s \<equiv> bits d + 64"
  defines "q \<equiv> 2 * (n * 2 ^ s div d) + (if n * 2 ^ s mod d = 0 then 0 else 1)"
  shows "2 ^ 64 * \<bar>real q / 2 ^ (s + 1) - real n / real d\<bar> \<le> real n / real d"
proof -
  let ?N = "n * 2 ^ s" and ?r = "n * 2 ^ s mod d"
  have N: "real ?N = real (?N div d) * real d + real ?r"
    by (metis div_mult_mod_eq of_nat_add of_nat_mult)
  have r: "?r < d" using assms(2) by simp
  have "\<bar>real q - 2 * real ?N / real d\<bar> \<le> 1"
  proof (cases "?r = 0")
    case True
    then show ?thesis using N assms(2) by (simp add: q_def)
  next
    case False
    then have "0 < real ?r / real d" "real ?r / real d < 1" using r by simp_all
    moreover have "real ?N / real d = real (?N div d) + real ?r / real d" using N assms(2) by (simp add: field_simps)
    ultimately show ?thesis using False by (simp add: q_def abs_le_iff)
  qed
  moreover have "real q / 2 ^ (s + 1) - real n / real d = (real q - 2 * real ?N / real d) / 2 ^ (s + 1)"
    by (simp add: diff_divide_distrib)
  moreover have "\<bar>x\<bar> \<le> 1 \<Longrightarrow> \<bar>x / 2 ^ (s + 1)\<bar> \<le> 1 / 2 ^ (s + 1)" for x :: real
    using divide_right_mono [of "\<bar>x\<bar>" 1 "2 ^ (s + 1)"] by (simp only: abs_divide abs_of_nonneg zero_le_power zero_le_numeral simp_thms)
  ultimately have "\<bar>real q / 2 ^ (s + 1) - real n / real d\<bar> \<le> 1 / 2 ^ (s + 1)"
    by presburger
  moreover have "2 ^ 64 * (1 / 2 ^ (s + 1)) \<le> real n / real d"
  proof -
    have "real d \<le> 2 ^ bits d" using bits_pos_bounds [OF assms(2)] by (simp add: less_imp_le)
    then have "real d \<le> real n * 2 ^ bits d * 2" using assms(1) mult_mono [of 1 "real n * 2" "real d" "2 ^ bits d"] by simp
    then have "1 / (2 ^ bits d * 2) \<le> real n / real d" using assms(2) by (simp add: field_simps)
    then show ?thesis by (simp add: s_def power_add)
  qed
  ultimately show ?thesis
    using order_trans [OF mult_left_mono [of "\<bar>real q / 2 ^ (s + 1) - real n / real d\<bar>" "1 / 2 ^ (s + 1)" "2 ^ 64"]]
    by simp
qed

lemma d_real_pos: "0 < d_real a \<longleftrightarrow> 0 < fst a"
proof -
  have "0 < (2::real) powi snd a" by simp
  then show ?thesis unfolding d_real_def by (metis of_int_0_less_iff zero_less_mult_pos2 mult_pos_pos)
qed

lemma compose_errors:
  fixes x y z :: real
  assumes "2 ^ 64 * \<bar>x - y\<bar> \<le> y" and "2 ^ 53 * \<bar>z - x\<bar> \<le> \<bar>x\<bar>"
  shows "2 ^ 52 * \<bar>z - y\<bar> \<le> y"
  using assms by (simp add: abs_if split: if_splits)

lemma d_div_error:
  assumes "0 < d_real a" and "0 < d_real b"
  shows "2 ^ 52 * \<bar>d_real (d_div a b) - d_real a / d_real b\<bar> \<le> d_real a / d_real b"
proof -
  define n d s where "n = nat (fst a)" and "d = nat (fst b)" and "s = bits (nat (fst b)) + 64"
  define q where "q = 2 * (n * 2 ^ s div d) + (if n * 2 ^ s mod d = 0 then 0 else 1)"
  have pos: "0 < fst a" "0 < fst b" using assms by (simp_all add: d_real_pos)
  then have nd: "0 < n" "0 < d" by (simp_all add: n_def d_def)
  let ?c = "(int q, snd a - snd b - int s - 1)" and ?p = "2 powi (snd a - snd b) :: real"
  have div: "d_div a b = d_norm ?c"
    using pos by (simp add: d_div_def Let_def n_def d_def s_def q_def)
  have "(2::real) powi (snd a - snd b - int s - 1) * 2 ^ (s + 1) = ?p"
    by (simp add: power_int_diff)
  then have "d_real ?c = real q / 2 ^ (s + 1) * ?p" by (simp add: d_real_def field_simps)
  moreover have "d_real a / d_real b = real n / real d * ?p"
    using pos by (simp add: d_real_def n_def d_def power_int_diff)
  moreover have "2 ^ 64 * \<bar>real q / 2 ^ (s + 1) - real n / real d\<bar> * ?p \<le> real n / real d * ?p"
    using quotient_error [OF nd] unfolding q_def s_def d_def by (intro mult_right_mono) simp_all
  moreover have "\<bar>x * ?p - y * ?p\<bar> = \<bar>x - y\<bar> * ?p" for x y by (simp add: abs_mult flip: left_diff_distrib)
  ultimately have "2 ^ 64 * \<bar>d_real ?c - d_real a / d_real b\<bar> \<le> d_real a / d_real b"
    by (simp only: mult.assoc)
  then show ?thesis unfolding div using d_norm_error [of ?c] by (rule compose_errors)
qed

end
