(* ===== verification/Clock.thy ===== *)
theory Clock
  imports Soft_Double
begin

text \<open>
  \<open>class Clock\<close> of \<open>include/papper/detail/time.h\<close>: the offset of local time from UTC, the point that relates
  the CPU's tick counter to the system clock, and the conversion of ticks to local time. Readings of
  the counter, of the system clock (nanoseconds) and the broken-down times of \<open>localtime\<close> and \<open>gmtime\<close>
  are arguments. A conversion to \<open>int64_t\<close> or a sum that is out of range is undefined: \<open>None\<close>.
\<close>

section \<open>The class\<close>

record tm =
  tm_sec :: int
  tm_min :: int
  tm_hour :: int
  tm_yday :: int
  tm_year :: int

record clock =
  ck_ts :: u64
  ck_system_time :: int
  ck_utc_offset_ns :: int
  ck_ns_per_tick :: double

definition recalculate_utc_offset :: "tm \<Rightarrow> tm \<Rightarrow> clock \<Rightarrow> clock" where
  "recalculate_utc_offset loc utc ck =
     (let day_diff = (if tm_year loc \<noteq> tm_year utc
                      then (if tm_year utc < tm_year loc then 1 else -1)
                      else tm_yday loc - tm_yday utc)
      in ck\<lparr>ck_utc_offset_ns := 1000000000 *
           (day_diff * 86400 + (tm_hour loc - tm_hour utc) * 3600 +
            (tm_min loc - tm_min utc) * 60 + (tm_sec loc - tm_sec utc))\<rparr>)"

definition d_half :: "double \<Rightarrow> double" where
  "d_half a = (fst a, snd a - 1)"

definition average_tsc :: "u64 \<Rightarrow> u64 \<Rightarrow> int" where
  "average_tsc tsc1 tsc2 =
     d_trunc (d_add (d_of_int (uint tsc1)) (d_half (d_of_int (uint (tsc2 - tsc1)))))"

definition sync_to_system_clock :: "u64 \<Rightarrow> int \<Rightarrow> u64 \<Rightarrow> clock \<Rightarrow> clock option" where
  "sync_to_system_clock tsc1 t tsc2 ck =
     (let avg = average_tsc tsc1 tsc2
      in if 0 \<le> avg \<and> avg < 2 ^ 64 then Some (ck\<lparr>ck_ts := word_of_int avg, ck_system_time := t\<rparr>) else None)"

definition int64_ok :: "int \<Rightarrow> bool" where
  "int64_ok i \<longleftrightarrow> - (2 ^ 63) \<le> i \<and> i < 2 ^ 63"

definition ns_since_sync :: "clock \<Rightarrow> u64 \<Rightarrow> double" where
  "ns_since_sync ck ts = d_mult (ck_ns_per_tick ck) (d_of_int (sint (ts - ck_ts ck)))"

definition timestamp_to_local_system_time :: "clock \<Rightarrow> u64 \<Rightarrow> int option" where
  "timestamp_to_local_system_time ck ts =
     (let ns = d_trunc (ns_since_sync ck ts);
          d = ns + ck_utc_offset_ns ck;
          r = ck_system_time ck + d
      in if int64_ok ns \<and> int64_ok d \<and> int64_ok r then Some r else None)"

definition read_timestamp_ns :: "clock \<Rightarrow> u64 \<Rightarrow> double" where
  "read_timestamp_ns ck tsc = d_mult (ck_ns_per_tick ck) (d_of_int (uint tsc))"

text \<open>What the clocks show during one initialisation or resynchronisation, in the order of the readings:
  the counter at the first \<open>read_timestamp_ns\<close>, the two broken-down times, the counter at the second,
  and the system time between two readings of the counter.\<close>

record clock_reads =
  cr_tsc_a :: u64
  cr_local :: tm
  cr_utc :: tm
  cr_tsc_b :: u64
  cr_tsc1 :: u64
  cr_now :: int
  cr_tsc2 :: u64

text \<open>\<open>Clock::init\<close>, given what \<open>get_tsc_ns_per_tick\<close> stores or that it returns \<open>false\<close>.\<close>

definition init_clock :: "double option \<Rightarrow> clock_reads \<Rightarrow> clock \<Rightarrow> (bool \<times> clock) option" where
  "init_clock tick cr ck =
     (case tick of
        None \<Rightarrow> Some (False, ck)
      | Some ns \<Rightarrow>
          map_option (Pair True)
            (sync_to_system_clock (cr_tsc1 cr) (cr_now cr) (cr_tsc2 cr)
              (recalculate_utc_offset (cr_local cr) (cr_utc cr) (ck\<lparr>ck_ns_per_tick := ns\<rparr>))))"

section \<open>Resynchronisation\<close>

text \<open>The backend's periodic resynchronisation (\<open>try_resync_clock\<close> in core.h) with the variables it keeps.\<close>

record resync_state =
  rc_clock :: clock
  rc_last_utc_offset :: double
  rc_last_system_clock :: double

definition initial_resync :: "clock \<Rightarrow> resync_state" where
  "initial_resync ck = \<lparr>rc_clock = ck, rc_last_utc_offset = (0, 0), rc_last_system_clock = (0, 0)\<rparr>"

definition resync_due :: "double \<Rightarrow> double \<Rightarrow> double \<Rightarrow> bool" where
  "resync_due now prev interval = d_less interval (d_add now (d_neg prev))"

definition utc_offset_interval_ns :: double where
  "utc_offset_interval_ns = d_mult (d_of_int 1000000) (d_of_int 1000)"

definition system_clock_interval_ns :: double where
  "system_clock_interval_ns = d_mult (d_of_int 1000000) (d_of_int 100)"

definition try_resync_clock :: "clock_reads \<Rightarrow> resync_state \<Rightarrow> resync_state option" where
  "try_resync_clock cr rc =
     (let now_a = read_timestamp_ns (rc_clock rc) (cr_tsc_a cr);
          rc1 = (if resync_due now_a (rc_last_utc_offset rc) utc_offset_interval_ns
                 then rc\<lparr>rc_clock := recalculate_utc_offset (cr_local cr) (cr_utc cr) (rc_clock rc),
                         rc_last_utc_offset := now_a\<rparr>
                 else rc);
          now_b = read_timestamp_ns (rc_clock rc1) (cr_tsc_b cr)
      in if resync_due now_b (rc_last_system_clock rc1) system_clock_interval_ns
         then map_option (\<lambda>ck. rc1\<lparr>rc_clock := ck, rc_last_system_clock := now_b\<rparr>)
                (sync_to_system_clock (cr_tsc1 cr) (cr_now cr) (cr_tsc2 cr) (rc_clock rc1))
         else Some rc1)"

section \<open>Broken-down time\<close>

text \<open>What \<open>gmtime\<close> and \<open>localtime\<close> give for a number of seconds: a calendar tells the year and the day
  in the year of a day number, and days follow each other as days do.\<close>

definition tm_of :: "(int \<Rightarrow> int \<times> int) \<Rightarrow> int \<Rightarrow> tm" where
  "tm_of cal s =
     \<lparr>tm_sec = s mod 60, tm_min = s div 60 mod 60, tm_hour = s div 3600 mod 24,
      tm_yday = snd (cal (s div 86400)), tm_year = fst (cal (s div 86400))\<rparr>"

definition calendar_ok :: "(int \<Rightarrow> int \<times> int) \<Rightarrow> bool" where
  "calendar_ok cal \<longleftrightarrow>
     (\<forall>d. cal (d + 1) = (fst (cal d), snd (cal d) + 1) \<or> cal (d + 1) = (fst (cal d) + 1, 0))"

lemma tm_seconds:
  "tm_hour (tm_of cal s) * 3600 + tm_min (tm_of cal s) * 60 + tm_sec (tm_of cal s) = s mod 86400"
proof -
  have parts: "s = s div 60 * 60 + s mod 60" "s div 60 = s div 60 div 60 * 60 + s div 60 mod 60"
    "s div 60 div 60 = s div 60 div 60 div 24 * 24 + s div 60 div 60 mod 24" "s = s div 86400 * 86400 + s mod 86400"
    by (simp_all only: div_mult_mod_eq)
  have hours: "s div 3600 = s div 60 div 60" using zdiv_zmult2_eq [of 60 s 60] by simp
  have days: "s div 86400 = s div 60 div 60 div 24" using zdiv_zmult2_eq [of 24 s 3600] hours by simp
  then show ?thesis unfolding tm_of_def tm.simps hours using parts unfolding days by linarith
qed

lemma calendar_day_diff:
  assumes "calendar_ok cal" and "- 1 \<le> d - e" and "d - e \<le> 1"
  shows "(if fst (cal d) \<noteq> fst (cal e) then (if fst (cal e) < fst (cal d) then 1 else -1)
    else snd (cal d) - snd (cal e)) = d - e"
proof -
  have succ: "cal (x + 1) = (fst (cal x), snd (cal x) + 1) \<or> cal (x + 1) = (fst (cal x) + 1, 0)" for x
    using assms(1) by (simp add: calendar_ok_def)
  consider "d = e" | "d = e + 1" | "e = d + 1" using assms(2,3) by linarith
  then show ?thesis
  proof cases
    case 2
    obtain y yd y' yd' where c: "cal e = (y, yd)" "cal d = (y', yd')" by fastforce
    then have "y' = y \<and> yd' = yd + 1 \<or> y' = y + 1 \<and> yd' = 0" using succ [of e] 2 by simp
    then show ?thesis using c 2 by auto
  next
    case 3
    obtain y yd y' yd' where c: "cal e = (y, yd)" "cal d = (y', yd')" by fastforce
    then have "y = y' \<and> yd = yd' + 1 \<or> y = y' + 1 \<and> yd = 0" using succ [of d] 3 by simp
    then show ?thesis using c 3 by auto
  qed simp
qed

lemma seconds_apart:
  fixes D E off t :: int
  assumes "h * 3600 + m * 60 + s = x" and "h' * 3600 + m' * 60 + s' = y"
    and "D * 86400 + x = t + off" and "E * 86400 + y = t"
  shows "(D - E) * 86400 + (h - h') * 3600 + (m - m') * 60 + (s - s') = off"
  using assms by (simp add: algebra_simps)

lemma utc_offset_of:
  assumes "calendar_ok cal" and "\<bar>off\<bar> < 86400"
  shows "ck_utc_offset_ns (recalculate_utc_offset (tm_of cal (t + off)) (tm_of cal t) ck) = off * 1000000000"
proof -
  let ?l = "tm_of cal (t + off)" and ?u = "tm_of cal t"
  let ?D = "(t + off) div 86400" and ?E = "t div 86400"
  have days: "?D * 86400 + (t + off) mod 86400 = t + off" "?E * 86400 + t mod 86400 = t"
    by simp_all
  moreover have "0 \<le> (t + off) mod 86400" "(t + off) mod 86400 < 86400" "0 \<le> t mod 86400" "t mod 86400 < 86400"
    by simp_all
  ultimately have near: "- 1 \<le> ?D - ?E" "?D - ?E \<le> 1" using assms(2) by linarith+
  have "(if tm_year ?l \<noteq> tm_year ?u then (if tm_year ?u < tm_year ?l then 1 else -1)
      else tm_yday ?l - tm_yday ?u) = ?D - ?E"
    using calendar_day_diff [OF assms(1) near] unfolding tm_of_def tm.simps .
  then have "ck_utc_offset_ns (recalculate_utc_offset ?l ?u ck) =
      1000000000 * ((?D - ?E) * 86400 + (tm_hour ?l - tm_hour ?u) * 3600 +
        (tm_min ?l - tm_min ?u) * 60 + (tm_sec ?l - tm_sec ?u))"
    unfolding recalculate_utc_offset_def Let_def by simp
  also have "(?D - ?E) * 86400 + (tm_hour ?l - tm_hour ?u) * 3600 + (tm_min ?l - tm_min ?u) * 60 +
      (tm_sec ?l - tm_sec ?u) = off"
    by (rule seconds_apart [OF tm_seconds tm_seconds days])
  finally show ?thesis by simp
qed

section \<open>From ticks to time\<close>

lemma sint_diff:
  fixes a b :: u64
  assumes "- (2 ^ 63) \<le> uint a - uint b" and "uint a - uint b < 2 ^ 63"
  shows "sint (a - b) = uint a - uint b"
proof -
  have "a - b = word_of_int (uint a - uint b)" by simp
  then have "sint (a - b) = signed_take_bit 63 (uint a - uint b)" by (simp only: sint_sbintrunc') simp
  then show ?thesis using assms by (simp add: signed_take_bit_int_eq_self)
qed

lemma local_time_eq:
  "timestamp_to_local_system_time ck ts = Some r \<Longrightarrow>
     r = ck_system_time ck + (d_trunc (ns_since_sync ck ts) + ck_utc_offset_ns ck)"
  by (simp add: timestamp_to_local_system_time_def Let_def split: if_splits)

lemma ns_since_sync_error:
  assumes "\<bar>sint (ts - ck_ts ck)\<bar> < 2 ^ 53"
  shows "2 ^ 53 * \<bar>d_real (ns_since_sync ck ts) - d_real (ck_ns_per_tick ck) * sint (ts - ck_ts ck)\<bar> \<le>
    \<bar>d_real (ck_ns_per_tick ck) * sint (ts - ck_ts ck)\<bar>"
proof -
  obtain m e where tick: "ck_ns_per_tick ck = (m, e)" by fastforce
  let ?i = "sint (ts - ck_ts ck)"
  have "ns_since_sync ck ts = d_norm (m * ?i, e)"
    using d_of_int_small [OF assms] by (simp add: ns_since_sync_def d_mult_def tick)
  moreover have "d_real (m * ?i, e) = d_real (m, e) * ?i" by (simp add: d_real_def)
  ultimately show ?thesis using d_norm_error [of "(m * ?i, e)"] by (simp add: tick)
qed

lemma average_tsc_exact:
  assumes "uint tsc1 \<le> uint tsc2" and "uint tsc2 < 2 ^ 52"
  shows "average_tsc tsc1 tsc2 = (uint tsc1 + uint tsc2) div 2"
proof -
  have diff: "uint (tsc2 - tsc1) = uint tsc2 - uint tsc1" using assms(1) by (simp add: uint_sub_lem [THEN iffD1])
  have pos: "0 \<le> uint tsc1" "uint tsc2 < 4503599627370496" using assms(2) by simp_all
  have sum: "0 \<le> uint tsc1 + uint tsc2" "uint tsc1 + uint tsc2 < 9007199254740992" using assms(1) pos by linarith+
  have a: "d_of_int (uint tsc1) = (uint tsc1, 0)" by (rule d_of_int_small) (use assms pos in simp)
  have b: "d_of_int (uint tsc2 - uint tsc1) = (uint tsc2 - uint tsc1, 0)"
  proof (rule d_of_int_small)
    have "\<bar>uint tsc2 - uint tsc1\<bar> < 9007199254740992" using assms(1) pos by linarith
    then show "\<bar>uint tsc2 - uint tsc1\<bar> < 2 ^ 53" by simp
  qed
  have c: "d_norm (uint tsc1 + uint tsc2, - 1) = (uint tsc1 + uint tsc2, - 1)"
  proof -
    have "bits (nat (uint tsc1 + uint tsc2)) \<le> 53"
      using sum by (subst bits_less_iff [symmetric]) (simp add: nat_less_iff)
    then show ?thesis using sum(1) mult_sgn_abs [of "uint tsc1 + uint tsc2"] by (simp add: d_norm_def round_norm_def)
  qed
  have "uint tsc1 * 2 + (uint tsc2 - uint tsc1) = uint tsc1 + uint tsc2" by simp
  then have "d_add (uint tsc1, 0) (uint tsc2 - uint tsc1, - 1) = (uint tsc1 + uint tsc2, - 1)"
    using c by (simp add: d_add_def)
  then have "average_tsc tsc1 tsc2 = d_trunc (uint tsc1 + uint tsc2, - 1)"
    by (simp add: average_tsc_def diff a b d_half_def)
  also have "\<dots> = (uint tsc1 + uint tsc2) div 2" using sum by (simp add: d_trunc_def sgn_if)
  finally show ?thesis .
qed

lemma sync_to_system_clock_exact:
  assumes "uint tsc1 \<le> uint tsc2" and "uint tsc2 < 2 ^ 52"
  shows "sync_to_system_clock tsc1 t tsc2 ck =
    Some (ck\<lparr>ck_ts := word_of_int ((uint tsc1 + uint tsc2) div 2), ck_system_time := t\<rparr>)"
proof -
  have "0 \<le> uint tsc1" "uint tsc2 < 4503599627370496" using assms(2) by simp_all
  then have "0 \<le> (uint tsc1 + uint tsc2) div 2" "(uint tsc1 + uint tsc2) div 2 < 18446744073709551616"
    using assms(1) by linarith+
  then show ?thesis by (simp add: sync_to_system_clock_def average_tsc_exact [OF assms] Let_def)
qed

text \<open>The average is a \<open>uint64_t\<close> whenever the counter has not passed \<open>2 ^ 63\<close>, so synchronising is defined.\<close>

lemma average_tsc_range:
  assumes "uint tsc1 \<le> uint tsc2" and "uint tsc2 < 2 ^ 63"
  shows "0 \<le> average_tsc tsc1 tsc2 \<and> average_tsc tsc1 tsc2 < 2 ^ 64"
proof -
  let ?x = "d_of_int (uint tsc1)" and ?y = "d_of_int (uint (tsc2 - tsc1))"
  have diff: "uint (tsc2 - tsc1) = uint tsc2 - uint tsc1" using assms(1) by (simp add: uint_sub_lem [THEN iffD1])
  have sum: "real_of_int (uint tsc1) + real_of_int (uint (tsc2 - tsc1)) < 9223372036854775808"
  proof -
    have "uint tsc1 + uint (tsc2 - tsc1) < 9223372036854775808" using assms(2) unfolding diff by simp
    then have "real_of_int (uint tsc1 + uint (tsc2 - tsc1)) < real_of_int 9223372036854775808"
      by (simp only: of_int_less_iff)
    then show ?thesis by (simp only: of_int_add of_int_numeral)
  qed
  have x: "0 \<le> d_real ?x" "d_real ?x \<le> real_of_int (uint tsc1) * (1 + 1 / 2 ^ 53)"
    using d_of_int_nonneg [of "uint tsc1"] by simp_all
  have y: "0 \<le> d_real ?y" "d_real ?y \<le> real_of_int (uint (tsc2 - tsc1)) * (1 + 1 / 2 ^ 53)"
    using d_of_int_nonneg [of "uint (tsc2 - tsc1)"] by simp_all
  obtain c where c: "d_add ?x (d_half ?y) = d_norm c" "d_real c = d_real ?x + d_real (d_half ?y)"
    using d_add_real by blast
  have half: "d_real (d_half ?y) = d_real ?y / 2"
    by (simp add: d_half_def d_real_def power_int_diff)
  have "0 \<le> d_real c" using c(2) x(1) y(1) half by simp
  moreover have "d_real c \<le> 9223372036854775808 * (1 + 1 / 2 ^ 53)"
    using x y sum unfolding c(2) half by (simp add: field_simps)
  ultimately have z: "0 \<le> d_real (d_norm c)" "d_real (d_norm c) < 9300000000000000000"
    using d_norm_nonneg [of c] by (simp_all add: field_simps)
  then have "- 1 < real_of_int (d_trunc (d_norm c))" "real_of_int (d_trunc (d_norm c)) < 9300000000000000001"
    using d_trunc_error [of "d_norm c"] by linarith+
  then have "0 \<le> d_trunc (d_norm c)" "d_trunc (d_norm c) < 9300000000000000001" by linarith+
  then show ?thesis by (simp add: average_tsc_def c(1))
qed

definition reads_ok :: "clock_reads \<Rightarrow> bool" where
  "reads_ok cr \<longleftrightarrow> uint (cr_tsc1 cr) \<le> uint (cr_tsc2 cr) \<and> uint (cr_tsc2 cr) < 2 ^ 63"

lemma try_resync_clock_defined: "reads_ok cr \<Longrightarrow> \<exists>rc'. try_resync_clock cr rc = Some rc'"
  using average_tsc_range [of "cr_tsc1 cr" "cr_tsc2 cr"]
  by (simp add: try_resync_clock_def sync_to_system_clock_def reads_ok_def Let_def)

lemma resync_not_due:
  assumes "\<not> resync_due (read_timestamp_ns (rc_clock rc) (cr_tsc_a cr)) (rc_last_utc_offset rc) utc_offset_interval_ns"
    and "\<not> resync_due (read_timestamp_ns (rc_clock rc) (cr_tsc_b cr)) (rc_last_system_clock rc) system_clock_interval_ns"
  shows "try_resync_clock cr rc = Some rc"
  using assms by (simp add: try_resync_clock_def)

section \<open>Properties\<close>

text \<open>C29. The local offset is right whatever the date: for any calendar in which days follow each other,
  new year and leap days included, and any offset of less than a day, computing the
  difference of the two broken-down times field by field gives exactly that offset.\<close>
theorem utc_offset_exact:
  assumes "calendar_ok cal" and "\<bar>off\<bar> < 86400"
  shows "ck_utc_offset_ns (recalculate_utc_offset (tm_of cal (t + off)) (tm_of cal t) ck) = off * 1000000000"
  by (rule utc_offset_of [OF assms])

text \<open>Years of 365 days, each fourth of 366.\<close>

definition julian_year :: "int \<Rightarrow> int" where
  "julian_year r = (if r < 365 then 0 else if r < 730 then 1 else if r < 1095 then 2 else 3)"

definition julian :: "int \<Rightarrow> int \<times> int" where
  "julian d = (4 * (d div 1461) + julian_year (d mod 1461), d mod 1461 - 365 * julian_year (d mod 1461))"

lemma julian_ok: "calendar_ok julian"
  unfolding calendar_ok_def
proof
  fix d :: int
  obtain c r where r: "d div 1461 = c" "d mod 1461 = r" "0 \<le> r" "r < 1461" by simp
  have d: "d = 1461 * c + r" using mult_div_mod_eq [of 1461 d] unfolding r(1,2) by (rule sym)
  have jd: "julian d = (4 * c + julian_year r, r - 365 * julian_year r)" by (simp only: julian_def r)
  show "julian (d + 1) = (fst (julian d), snd (julian d) + 1) \<or> julian (d + 1) = (fst (julian d) + 1, 0)"
  proof (cases "r = 1460")
    case True
    then have "d + 1 = 1461 * (c + 1) + 0" using d by simp
    then have n: "(d + 1) div 1461 = c + 1" "(d + 1) mod 1461 = 0"
      using int_div_pos_eq [of "d + 1" 1461 "c + 1" 0] int_mod_pos_eq [of "d + 1" 1461 "c + 1" 0] by simp_all
    have "julian (d + 1) = (4 * (c + 1), 0)" by (simp add: julian_def n julian_year_def)
    then show ?thesis using True by (simp add: jd julian_year_def)
  next
    case False
    then have "d + 1 = 1461 * c + (r + 1)" "0 \<le> r + 1" "r + 1 < 1461" using d r(3,4) by linarith+
    then have n: "(d + 1) div 1461 = c" "(d + 1) mod 1461 = r + 1"
      using int_div_pos_eq [of "d + 1" 1461 c "r + 1"] int_mod_pos_eq [of "d + 1" 1461 c "r + 1"] by simp_all
    have "julian (d + 1) = (4 * c + julian_year (r + 1), r + 1 - 365 * julian_year (r + 1))"
      by (simp only: julian_def n)
    then show ?thesis using r(3,4) by (auto simp: jd julian_year_def)
  qed
qed

definition demo_clock :: clock where
  "demo_clock = \<lparr>ck_ts = 1000, ck_system_time = 1700000000000000000, ck_utc_offset_ns = 3600000000000,
     ck_ns_per_tick = d_div (10, 0) (33, 0)\<rparr>"

lemma demo_clock_901: "timestamp_to_local_system_time demo_clock 901 = Some 1700003599999999970"
  by (simp add: timestamp_to_local_system_time_def ns_since_sync_def demo_clock_def d_div_10_33 double_eval int64_ok_def)

lemma demo_clock_2000: "timestamp_to_local_system_time demo_clock 2000 = Some 1700003600000000303"
  by (simp add: timestamp_to_local_system_time_def ns_since_sync_def demo_clock_def d_div_10_33 double_eval int64_ok_def)

lemma utc_offset_exact_witness:
  "ck_utc_offset_ns (recalculate_utc_offset (tm_of julian (1461 * 86400 - 1 + 7200)) (tm_of julian (1461 * 86400 - 1))
     demo_clock) = 7200000000000 \<and>
   tm_year (tm_of julian (1461 * 86400 - 1 + 7200)) \<noteq> tm_year (tm_of julian (1461 * 86400 - 1))"
  using utc_offset_exact [OF julian_ok, of 7200 "1461 * 86400 - 1" demo_clock]
  by (simp add: tm_of_def julian_def julian_year_def)

text \<open>C27. Time does not run backwards between two synchronisations: of two events the one with the later
  tick count does not get an earlier local time, in spite of the two roundings to double precision and
  the truncation, and also when the counter has wrapped since the synchronisation.\<close>
theorem timestamps_monotonic:
  assumes "0 \<le> fst (ck_ns_per_tick ck)" and "sint (ts - ck_ts ck) \<le> sint (ts' - ck_ts ck)"
    and "timestamp_to_local_system_time ck ts = Some r" and "timestamp_to_local_system_time ck ts' = Some r'"
  shows "r \<le> r'"
proof -
  obtain m e where tick: "ck_ns_per_tick ck = (m, e)" by fastforce
  have "d_trunc (ns_since_sync ck ts) \<le> d_trunc (ns_since_sync ck ts')"
    using trunc_mult_of_int_mono [OF _ assms(2)] assms(1) by (simp add: ns_since_sync_def tick)
  then show ?thesis using local_time_eq [OF assms(3)] local_time_eq [OF assms(4)] by linarith
qed

lemma timestamps_monotonic_witness:
  "timestamp_to_local_system_time demo_clock 901 = Some 1700003599999999970 \<and>
     timestamp_to_local_system_time demo_clock 2000 = Some 1700003600000000303 \<and>
     (1700003599999999970 :: int) \<le> 1700003600000000303"
proof -
  have a: "timestamp_to_local_system_time demo_clock 901 = Some 1700003599999999970" by (rule demo_clock_901)
  have b: "timestamp_to_local_system_time demo_clock 2000 = Some 1700003600000000303" by (rule demo_clock_2000)
  have "0 \<le> fst (ck_ns_per_tick demo_clock)" "sint (901 - ck_ts demo_clock) \<le> sint (2000 - ck_ts demo_clock)"
    by (simp_all add: demo_clock_def d_div_10_33)
  from timestamps_monotonic [OF this a b] show ?thesis using a b by simp
qed

text \<open>C28. How exact a printed time is: within \<open>2 ^ 53\<close> ticks of the synchronisation (a month and more)
  it differs from the exact linear extrapolation by less than one nanosecond, for the truncation, plus
  \<open>2 ^ -53\<close> of the distance, for the rounding of the product.\<close>
theorem timestamp_accuracy:
  assumes "timestamp_to_local_system_time ck ts = Some r" and "\<bar>sint (ts - ck_ts ck)\<bar> < 2 ^ 53"
  shows "\<bar>real_of_int r - (real_of_int (ck_system_time ck + ck_utc_offset_ns ck) +
      d_real (ck_ns_per_tick ck) * sint (ts - ck_ts ck))\<bar> <
    1 + \<bar>d_real (ck_ns_per_tick ck) * sint (ts - ck_ts ck)\<bar> / 2 ^ 53"
proof -
  let ?ns = "ns_since_sync ck ts" and ?x = "d_real (ck_ns_per_tick ck) * sint (ts - ck_ts ck)"
  have "\<bar>d_real ?ns - ?x\<bar> \<le> \<bar>?x\<bar> / 2 ^ 53" using ns_since_sync_error [OF assms(2)] by (simp add: field_simps)
  moreover have "\<bar>real_of_int (d_trunc ?ns) - d_real ?ns\<bar> < 1" by (rule d_trunc_error)
  moreover have "real_of_int r = real_of_int (ck_system_time ck + ck_utc_offset_ns ck) + real_of_int (d_trunc ?ns)"
    using local_time_eq [OF assms(1)] by simp
  ultimately show ?thesis by linarith
qed

lemma timestamp_accuracy_witness:
  "\<bar>1700003600000000303 - (real_of_int (ck_system_time demo_clock + ck_utc_offset_ns demo_clock) +
      d_real (ck_ns_per_tick demo_clock) * sint (2000 - ck_ts demo_clock))\<bar> <
    1 + \<bar>d_real (ck_ns_per_tick demo_clock) * sint (2000 - ck_ts demo_clock)\<bar> / 2 ^ 53"
proof -
  have a: "timestamp_to_local_system_time demo_clock 2000 = Some 1700003600000000303" by (rule demo_clock_2000)
  have b: "\<bar>sint (2000 - ck_ts demo_clock)\<bar> < 2 ^ 53" by (simp add: demo_clock_def)
  show ?thesis using timestamp_accuracy [OF a b] by simp
qed

end
