(* ===== verification/Main_Loop.thy ===== *)
theory Main_Loop
  imports Backend Clock "HOL-Library.Stream"
begin

text \<open>
  The body of the backend thread in \<open>include/papper/detail/core.h\<close>: the turns of the main loop, with the
  switches of sink and formatter, the resynchronisation of the clock, one pass over the threads and
  the back-off, and the loop that drains all queues at shutdown. What the clocks show is an
  argument, one \<open>clock_reads\<close> per call of \<open>try_resync_clock\<close>; an event is printed with the clock as it
  is when the event is processed (\<open>with_clock\<close>).
\<close>

section \<open>The loops of the backend thread\<close>

record backend =
  bk_mem :: backend_mem
  bk_resync :: resync_state
  bk_backoff_us :: u32

definition max_backoff_us :: u32 where "max_backoff_us = 200"

definition next_backoff :: "bool \<Rightarrow> u32 \<Rightarrow> u32" where
  "next_backoff were_events b = (if were_events then 1 else min (b * 2) max_backoff_us)"

definition with_clock :: "resync_state \<Rightarrow> environment \<Rightarrow> environment" where
  "with_clock rc en = en\<lparr>en_to_local := timestamp_to_local_system_time (rc_clock rc)\<rparr>"

definition backend_turn :: "environment \<Rightarrow> clock_reads \<Rightarrow> backend \<Rightarrow> backend option" where
  "backend_turn en cr bk =
     (let (rg, o1) = bk_mem bk;
          o2 = o1\<lparr>o_sink := poll_for_pending_sink_switch (o_sink o1)\<rparr>;
          o3 = o2\<lparr>o_formatter := poll_for_pending_formatter_switch (o_formatter o2)\<rparr>
      in case try_resync_clock cr (bk_resync bk) of
           None \<Rightarrow> None
         | Some rc \<Rightarrow>
             map_option (\<lambda>(any, bm). \<lparr>bk_mem = bm, bk_resync = rc,
                                      bk_backoff_us = next_backoff any (bk_backoff_us bk)\<rparr>)
               (poll_threads (with_clock rc en) (rg, o3)))"

text \<open>The loop after \<open>_running\<close> has been cleared.\<close>

partial_function (option) drain_loop ::
  "environment \<Rightarrow> clock_reads stream \<Rightarrow> resync_state \<Rightarrow> backend_mem \<Rightarrow> (resync_state \<times> backend_mem) option"
where
  "drain_loop en reads rc bm =
     (if rg_head (fst bm) = None then Some (rc, bm)
      else (case try_resync_clock (shd reads) rc of
              None \<Rightarrow> None
            | Some rc' \<Rightarrow>
                (case poll_threads (with_clock rc' en) bm of
                   None \<Rightarrow> None
                 | Some (any, bm') \<Rightarrow> drain_loop en (stl reads) rc' bm')))"

section \<open>The clock under a pass\<close>

lemma with_clock_simps [simp]:
  "en_vformat (with_clock rc en) = en_vformat en" "en_hms (with_clock rc en) = en_hms en"
  "en_sites (with_clock rc en) = en_sites en"
  by (simp_all add: with_clock_def)

lemma event_typed_with_clock [simp]: "event_typed (with_clock rc en) = event_typed en"
  by (simp add: event_typed_def fun_eq_iff)

lemma views_typed_with_clock [simp]: "views_typed (with_clock rc en) ts = views_typed en ts"
  by (simp add: views_typed_def)

lemma outputs_ready_with_clock [simp]: "outputs_ready (with_clock rc en) mf ml toks o1 = outputs_ready en mf ml toks o1"
  by (simp add: outputs_ready_def)

text \<open>The states of the clock after a number of resynchronisations.\<close>

fun resync_run :: "clock_reads list \<Rightarrow> resync_state \<Rightarrow> resync_state option" where
  "resync_run [] rc = Some rc"
| "resync_run (cr # crs) rc = (case try_resync_clock cr rc of None \<Rightarrow> None | Some rc' \<Rightarrow> resync_run crs rc')"

text \<open>Every reading of the clocks succeeds and every event can be printed with the time it gives.\<close>

definition clock_prints :: "environment \<Rightarrow> thread_view list \<Rightarrow> clock_reads stream \<Rightarrow> resync_state \<Rightarrow> bool" where
  "clock_prints en ts reads rc \<longleftrightarrow>
     (\<forall>n. \<exists>rc'. resync_run (stake n reads) rc = Some rc' \<and> views_printable (with_clock rc' en) ts)"

lemma clock_prints_step:
  assumes "clock_prints en ts reads rc"
  obtains rc' where "try_resync_clock (shd reads) rc = Some rc'" "clock_prints en ts (stl reads) rc'"
    "views_printable (with_clock rc' en) ts"
proof -
  have all: "\<exists>rc'. resync_run (stake (Suc n) reads) rc = Some rc' \<and> views_printable (with_clock rc' en) ts" for n
    using assms unfolding clock_prints_def by blast
  obtain rc' where rc': "try_resync_clock (shd reads) rc = Some rc'"
    using all [of 0] by (auto split: option.splits)
  have "clock_prints en ts (stl reads) rc'" using all rc' by (simp add: clock_prints_def)
  moreover have "views_printable (with_clock rc' en) ts" using all [of 0] rc' by simp
  ultimately show ?thesis using that rc' by blast
qed

lemma clock_prints_rest: "clock_prints en ts reads rc \<Longrightarrow> clock_prints en (pass_rest ts) reads rc"
  unfolding clock_prints_def using views_printable_rest by blast

section \<open>Draining at shutdown\<close>

definition work_left :: "thread_view list \<Rightarrow> nat" where
  "work_left ts = sum_list (map (\<lambda>t. Suc (length (tv_events t))) ts)"

lemma pass_work:
  "list_all (\<lambda>t. \<not> tv_alive t) ts \<Longrightarrow>
     list_all (\<lambda>t. \<not> tv_alive t) (pass_rest ts) \<and> work_left (pass_rest ts) + length ts = work_left ts"
proof (induction ts)
  case (Cons t ts)
  then show ?case by (cases "tv_events t") (auto simp: pass_thread_def work_left_def)
qed (simp add: work_left_def)

lemma pass_subseq:
  "t \<in> set ts \<Longrightarrow> tv_events t = e # es \<Longrightarrow> t\<lparr>tv_events := es\<rparr> \<in> set (pass_rest ts) \<and> e \<in> set (pass_events ts)"
  by (induction ts) (auto simp: pass_thread_def)

text \<open>The output of a sequence of events, each with the clock in force when it was processed.\<close>

definition prints_clocked ::
  "environment \<Rightarrow> (fmt_arg \<Rightarrow> string) \<Rightarrow> token list \<Rightarrow> outputs \<Rightarrow> (resync_state \<times> log_event) list \<Rightarrow> outputs \<Rightarrow> bool"
where
  "prints_clocked en sh toks o1 ces o2 \<longleftrightarrow>
     o_min_level o2 = o_min_level o1 \<and> sk_file (o_sink o2) = sk_file (o_sink o1) \<and>
     file_output (sk_file (o_sink o1)) (sk_io (o_sink o2)) =
       file_output (sk_file (o_sink o1)) (sk_io (o_sink o1)) @
       concat (map (\<lambda>(rc, e). event_line (with_clock rc en) sh toks (o_min_level o1) e) ces)"

lemma prints_clocked_refl: "prints_clocked en sh toks o1 [] o1"
  by (simp add: prints_clocked_def)

lemma prints_clocked_trans:
  "prints (with_clock rc en) sh toks o1 es o2 \<Longrightarrow> prints_clocked en sh toks o2 ces o3 \<Longrightarrow>
     prints_clocked en sh toks o1 (map (Pair rc) es @ ces) o3"
  by (simp add: prints_clocked_def prints_def comp_def)

definition clock_seen :: "clock_reads stream \<Rightarrow> resync_state \<Rightarrow> resync_state \<Rightarrow> bool" where
  "clock_seen reads rc c \<longleftrightarrow> (\<exists>n. resync_run (stake n reads) rc = Some c)"

lemma clock_seen_step:
  assumes "try_resync_clock (shd reads) rc = Some rc'"
  shows "clock_seen reads rc rc'" and "clock_seen (stl reads) rc' c \<Longrightarrow> clock_seen reads rc c"
proof -
  have "resync_run (stake 1 reads) rc = Some rc'" using assms by simp
  then show "clock_seen reads rc rc'" unfolding clock_seen_def by blast
  assume "clock_seen (stl reads) rc' c"
  then obtain n where "resync_run (stake n (stl reads)) rc' = Some c" unfolding clock_seen_def by blast
  then have "resync_run (stake (Suc n) reads) rc = Some c" using assms by simp
  then show "clock_seen reads rc c" unfolding clock_seen_def by blast
qed

lemma drain_loop_flushes:
  assumes "fmt_renders sh (en_vformat en)"
  shows "outputs_ready en mf ml toks o1 \<Longrightarrow> views rg ts \<Longrightarrow> clock_prints en ts reads rc \<Longrightarrow>
    list_all (\<lambda>t. \<not> tv_alive t) ts \<Longrightarrow>
    \<exists>rc' rg' o2 ces. drain_loop en reads rc (rg, o1) = Some (rc', rg', o2) \<and> rg_head rg' = None \<and>
      prints_clocked en sh toks o1 ces o2 \<and> mset (map snd ces) = all_events ts \<and>
      (\<forall>t \<in> set ts. subseq (tv_events t) (map snd ces)) \<and> (\<forall>c \<in> set (map fst ces). clock_seen reads rc c)"
proof (induction "work_left ts" arbitrary: ts rg o1 rc reads rule: less_induct)
  case less
  show ?case
  proof (cases ts)
    case Nil
    then have "rg_head rg = None" using less.prems(2) by (simp add: views_def rg_holds_def)
    then have "drain_loop en reads rc (rg, o1) = Some (rc, rg, o1)" by (subst drain_loop.simps) simp
    then show ?thesis using Nil prints_clocked_refl \<open>rg_head rg = None\<close> by force
  next
    case (Cons t us)
    then have head: "rg_head rg \<noteq> None" using less.prems(2) by (simp add: views_def rg_holds_def)
    obtain rc1 where rc1: "try_resync_clock (shd reads) rc = Some rc1" "clock_prints en ts (stl reads) rc1"
        "views_printable (with_clock rc1 en) ts"
      using clock_prints_step [OF less.prems(3)] .
    have ready: "outputs_ready (with_clock rc1 en) mf ml toks o1" using less.prems(1) by simp
    have fmt: "fmt_renders sh (en_vformat (with_clock rc1 en))" using assms by simp
    obtain o2 where o2: "pass_model (with_clock rc1 en) ts o1 = Some (pass_events ts \<noteq> [], pass_rest ts, o2)"
        "outputs_ready (with_clock rc1 en) mf ml toks o2" "prints (with_clock rc1 en) sh toks o1 (pass_events ts) o2"
      using pass_model_prints [OF fmt ready rc1(3)] by blast
    obtain rg1 where rg1: "poll_threads (with_clock rc1 en) (rg, o1) = Some (pass_events ts \<noteq> [], rg1, o2)"
        "views rg1 (pass_rest ts)"
      using poll_threads_pass [OF less.prems(2) views_printable_typed [OF rc1(3)], of o1] o2(1)
      by (auto simp: pass_agrees_def)
    note work = pass_work [OF less.prems(4)]
    have fewer: "work_left (pass_rest ts) < work_left ts"
      using conjunct2 [OF work] Cons by (cases us) simp_all
    have ready2: "outputs_ready en mf ml toks o2" using o2(2) by simp
    from less.hyps [OF fewer ready2 rg1(2) clock_prints_rest [OF rc1(2)] conjunct1 [OF work]]
    obtain rc' rg' o3 ces where rec: "drain_loop en (stl reads) rc1 (rg1, o2) = Some (rc', rg', o3)" "rg_head rg' = None"
        "prints_clocked en sh toks o2 ces o3" "mset (map snd ces) = all_events (pass_rest ts)"
        "\<forall>t \<in> set (pass_rest ts). subseq (tv_events t) (map snd ces)"
        "\<forall>c \<in> set (map fst ces). clock_seen (stl reads) rc1 c"
      by blast
    let ?ces = "map (Pair rc1) (pass_events ts) @ ces"
    have "drain_loop en reads rc (rg, o1) = Some (rc', rg', o3)"
      using head rc1(1) rg1(1) rec(1) by (subst drain_loop.simps) auto
    moreover have snds: "map snd ?ces = pass_events ts @ map snd ces" by (simp add: comp_def)
    moreover have "mset (map snd ?ces) = all_events ts" unfolding snds using rec(4) pass_conserves [of ts] by simp
    moreover have "subseq (tv_events t) (map snd ?ces)" if t: "t \<in> set ts" for t
      unfolding snds
    proof (cases "tv_events t")
      case (Cons e fs)
      note in_rest = pass_subseq [OF t Cons]
      have "subseq fs (map snd ces)" using bspec [OF rec(5) conjunct1 [OF in_rest]] by simp
      then have "subseq ([e] @ fs) (pass_events ts @ map snd ces)"
        by (rule list_emb_append_mono [OF conjunct2 [OF in_rest, folded subseq_singleton_left]])
      then show "subseq (tv_events t) (pass_events ts @ map snd ces)" using Cons by simp
    qed simp
    moreover have "\<forall>c \<in> set (map fst ?ces). clock_seen reads rc c"
      using rec(6) clock_seen_step [OF rc1(1)] by auto
    ultimately show ?thesis using rec(2) prints_clocked_trans [OF o2(3) rec(3)] by blast
  qed
qed

section \<open>What draining keeps and needs\<close>

lemma drain_loop_same:
  assumes "drain_loop en reads rc bm = Some r"
  shows "same_outputs (snd bm) (snd (snd r))"
proof (rule drain_loop.raw_induct [where P = "\<lambda>en reads rc bm r. same_outputs (snd bm) (snd (snd r))", OF _ assms])
  fix loop en reads rc bm r
  assume IH: "\<And>en reads rc bm r. loop en reads rc bm = Some r \<Longrightarrow> same_outputs (snd bm) (snd (snd r))"
    and body: "(if rg_head (fst bm) = None then Some (rc, bm)
       else (case try_resync_clock (shd reads) rc of
               None \<Rightarrow> None
             | Some rc' \<Rightarrow>
                 (case poll_threads (with_clock rc' en) bm of
                    None \<Rightarrow> None
                  | Some (any, bm') \<Rightarrow> loop en (stl reads) rc' bm'))) = Some r"
  show "same_outputs (snd bm) (snd (snd r))"
  proof (cases "rg_head (fst bm) = None")
    case True
    then show ?thesis using body by (auto simp: same_outputs_refl)
  next
    case False
    then obtain rc1 any bm1 where step: "poll_threads (with_clock rc1 en) bm = Some (any, bm1)"
        "loop en (stl reads) rc1 bm1 = Some r"
      using body by (auto split: option.splits prod.splits)
    have "same_outputs (snd bm) (snd bm1)"
      using poll_loop_same [of "with_clock rc1 en" "rg_head (fst bm)" False bm] step(1) by (simp add: poll_threads_def)
    then show ?thesis using IH [OF step(2)] by (rule same_outputs_trans)
  qed
qed

lemma drain_loop_dead:
  assumes "drain_loop en reads rc bm = Some r"
  shows "\<forall>ts. views (fst bm) ts \<longrightarrow> views_typed en ts \<longrightarrow> list_all (\<lambda>t. \<not> tv_alive t) ts"
proof (rule drain_loop.raw_induct [where P = "\<lambda>en reads rc bm r.
    \<forall>ts. views (fst bm) ts \<longrightarrow> views_typed en ts \<longrightarrow> list_all (\<lambda>t. \<not> tv_alive t) ts", OF _ assms])
  fix loop en reads rc bm r
  assume IH: "\<And>en reads rc bm r. loop en reads rc bm = Some r \<Longrightarrow>
      \<forall>ts. views (fst bm) ts \<longrightarrow> views_typed en ts \<longrightarrow> list_all (\<lambda>t. \<not> tv_alive t) ts"
    and body: "(if rg_head (fst bm) = None then Some (rc, bm)
       else (case try_resync_clock (shd reads) rc of
               None \<Rightarrow> None
             | Some rc' \<Rightarrow>
                 (case poll_threads (with_clock rc' en) bm of
                    None \<Rightarrow> None
                  | Some (any, bm') \<Rightarrow> loop en (stl reads) rc' bm'))) = Some r"
  show "\<forall>ts. views (fst bm) ts \<longrightarrow> views_typed en ts \<longrightarrow> list_all (\<lambda>t. \<not> tv_alive t) ts"
  proof (intro allI impI)
    fix ts assume v: "views (fst bm) ts" and typed: "views_typed en ts"
    show "list_all (\<lambda>t. \<not> tv_alive t) ts"
    proof (cases "rg_head (fst bm) = None")
      case True
      then have "ts = []" using v by (cases ts) (simp_all add: views_def rg_holds_def)
      then show ?thesis by simp
    next
      case False
      then obtain rc1 any bm1 where step: "poll_threads (with_clock rc1 en) bm = Some (any, bm1)"
          "loop en (stl reads) rc1 bm1 = Some r"
        using body by (auto split: option.splits prod.splits)
      have typed1: "views_typed (with_clock rc1 en) ts" using typed by simp
      obtain ts' o2 where ts': "pass_model (with_clock rc1 en) ts (snd bm) = Some (any, ts', o2)" "views (fst bm1) ts'"
        using poll_threads_pass [OF v typed1, of "snd bm"] step(1)
        by (auto simp: pass_agrees_def split: option.splits)
      have "views_typed en ts'" using pass_model_typed [OF ts'(1) typed1] by simp
      then have "list_all (\<lambda>t. \<not> tv_alive t) ts'" using IH [OF step(2)] ts'(2) by blast
      then show ?thesis using pass_model_alive [OF ts'(1)] by (auto simp: list_all_iff)
    qed
  qed
qed

section \<open>Properties\<close>

text \<open>C3. Shutdown loses nothing: once all logging threads have ended, the drain loop terminates with an
  empty list, and what it has added to the sink's file is the line of every event that was still in
  any queue, each once, those of one thread in the order of its calls, each with its time by the
  clock as resynchronised up to then. (Assumed: the readings of the clock are in range, so that every
  time can be computed.)\<close>
theorem shutdown_flushes_all_queues:
  assumes "fmt_renders sh (en_vformat en)" and "outputs_ready en mf ml toks o1"
    and "views rg ts" and "clock_prints en ts reads rc" and "list_all (\<lambda>t. \<not> tv_alive t) ts"
  shows "\<exists>rc' rg' o2 ces. drain_loop en reads rc (rg, o1) = Some (rc', rg', o2) \<and> rg_head rg' = None \<and>
    file_output (sk_file (o_sink o1)) (sk_io (o_sink o2)) =
      file_output (sk_file (o_sink o1)) (sk_io (o_sink o1)) @
      concat (map (\<lambda>(c, e). event_line (with_clock c en) sh toks (o_min_level o1) e) ces) \<and>
    mset (map snd ces) = all_events ts \<and> (\<forall>t \<in> set ts. subseq (tv_events t) (map snd ces)) \<and>
    (\<forall>c \<in> set (map fst ces). clock_seen reads rc c)"
  using drain_loop_flushes [OF assms] unfolding prints_clocked_def by blast

definition demo_resync :: resync_state where
  "demo_resync = initial_resync \<lparr>ck_ts = 0, ck_system_time = 0, ck_utc_offset_ns = 0, ck_ns_per_tick = (1, 0)\<rparr>"

definition demo_tm :: tm where
  "demo_tm = \<lparr>tm_sec = 0, tm_min = 0, tm_hour = 0, tm_yday = 0, tm_year = 70\<rparr>"

definition demo_reads :: clock_reads where
  "demo_reads = \<lparr>cr_tsc_a = 0, cr_local = demo_tm, cr_utc = demo_tm, cr_tsc_b = 0, cr_tsc1 = 0, cr_now = 0, cr_tsc2 = 0\<rparr>"

lemma demo_resync_idle: "try_resync_clock demo_reads demo_resync = Some demo_resync"
  by (rule resync_not_due)
    (simp_all add: demo_reads_def demo_resync_def initial_resync_def resync_due_def read_timestamp_ns_def
      utc_offset_interval_ns_def system_clock_interval_ns_def d_add_def d_neg_def d_less_def double_eval)

lemma demo_resync_run: "resync_run (stake n (sconst demo_reads)) demo_resync = Some demo_resync"
proof (induction n)
  case (Suc n)
  have "stake (Suc n) (sconst demo_reads) = demo_reads # stake n (sconst demo_reads)"
    by (simp only: stake.simps siterate.simps id_apply)
  then show ?case using Suc demo_resync_idle by (simp only: resync_run.simps option.case)
qed (simp only: stake.simps resync_run.simps)

lemma demo_local_time: "timestamp_to_local_system_time (rc_clock demo_resync) 58089000071000 = Some 58089000071000"
  by (simp add: timestamp_to_local_system_time_def ns_since_sync_def demo_resync_def initial_resync_def
      double_eval int64_ok_def)

lemma demo_clock_data: "event_data (with_clock demo_resync demo_env) demo_event = event_data demo_env demo_event"
  using demo_local_time by (simp add: event_data_def with_clock_def demo_env_def demo_event_def)

lemma demo_clock_line:
  "event_line (with_clock demo_resync demo_env) show_ref default_tokens (level_code Info) demo_event =
     ''[16:08:09.000071] (WARN) (x.cpp:42) n=42 hi'' @ [CHR 0x0A]"
  using demo_event_line unfolding event_line_def demo_clock_data with_clock_simps .

lemma demo_clock_printable: "views_printable (with_clock demo_resync demo_env) (demo_views alive)"
  using demo_views_printable [of alive] by (simp add: views_printable_def demo_views_def event_printable_def demo_clock_data)

lemma demo_clock_prints: "clock_prints demo_env (demo_views alive) (sconst demo_reads) demo_resync"
  unfolding clock_prints_def demo_resync_run using demo_clock_printable by blast

lemma demo_clock_seen: "clock_seen (sconst demo_reads) demo_resync c \<Longrightarrow> c = demo_resync"
  unfolding clock_seen_def demo_resync_run by blast

lemma shutdown_flushes_all_queues_witness:
  "\<exists>q1 q2 rc' rg' o2. q_holds q1 [] \<and> q_holds q2 [event_bytes demo_event] \<and>
     drain_loop demo_env (sconst demo_reads) demo_resync (demo_registry False q1 q2, demo_outputs) = Some (rc', rg', o2) \<and>
     rg_head rg' = None \<and>
     file_output Stdout (sk_io (o_sink o2)) = ''[16:08:09.000071] (WARN) (x.cpp:42) n=42 hi'' @ [CHR 0x0A]"
proof -
  obtain q1 q2 where q: "q_holds q1 []" "q_holds q2 [event_bytes demo_event]" using demo_queues by metis
  have fmt: "fmt_renders show_ref (en_vformat demo_env)" by (simp add: demo_env_def fmt_renders_ref)
  have dead: "list_all (\<lambda>t. \<not> tv_alive t) (demo_views False)" by (simp add: demo_views_def)
  obtain rc' rg' o2 ces where r: "drain_loop demo_env (sconst demo_reads) demo_resync (demo_registry False q1 q2, demo_outputs) =
        Some (rc', rg', o2)" "rg_head rg' = None"
      "file_output (sk_file (o_sink demo_outputs)) (sk_io (o_sink o2)) =
         file_output (sk_file (o_sink demo_outputs)) (sk_io (o_sink demo_outputs)) @
         concat (map (\<lambda>(c, e). event_line (with_clock c demo_env) show_ref default_tokens (o_min_level demo_outputs) e) ces)"
      "mset (map snd ces) = all_events (demo_views False)"
      "\<forall>c \<in> set (map fst ces). clock_seen (sconst demo_reads) demo_resync c"
    using shutdown_flushes_all_queues [OF fmt demo_outputs_ready demo_views_ok [OF q] demo_clock_prints dead]
    by blast
  have "map snd ces = [demo_event]" using r(4) by (simp add: demo_views_def flip: mset_map)
  then obtain c where ces: "ces = [(c, demo_event)]" by (cases ces) auto
  then have "c = demo_resync" using r(5) demo_clock_seen by simp
  moreover have "sk_file (o_sink demo_outputs) = Stdout" "sk_io (o_sink demo_outputs) = []"
      "o_min_level demo_outputs = level_code Info"
    by (simp_all add: demo_outputs_def new_sink_handler_def)
  ultimately have "file_output Stdout (sk_io (o_sink o2)) =
      ''[16:08:09.000071] (WARN) (x.cpp:42) n=42 hi'' @ [CHR 0x0A]"
    using r(3) demo_clock_line ces by simp
  then show ?thesis using q r(1,2) by (intro exI conjI)
qed

text \<open>Shutdown waits for every logging thread: as long as one registered thread has not ended, the
  drain loop does not return (a detached thread that never ends keeps the process from exiting).\<close>
theorem shutdown_waits_for_live_threads:
  assumes "views rg ts" and "views_typed en ts" and "t \<in> set ts" and "tv_alive t"
  shows "drain_loop en reads rc (rg, o1) = None"
proof (rule ccontr)
  assume "drain_loop en reads rc (rg, o1) \<noteq> None"
  then obtain r where "drain_loop en reads rc (rg, o1) = Some r" by blast
  from drain_loop_dead [OF this] show False using assms by (auto simp: list_all_iff)
qed

lemma shutdown_waits_for_live_threads_witness:
  "\<exists>q1 q2. q_holds q1 [] \<and> q_holds q2 [event_bytes demo_event] \<and>
     drain_loop demo_env (sconst demo_reads) demo_resync (demo_registry True q1 q2, demo_outputs) = None"
proof -
  obtain q1 q2 where q: "q_holds q1 []" "q_holds q2 [event_bytes demo_event]" using demo_queues by metis
  have "hd (demo_views True) \<in> set (demo_views True)" "tv_alive (hd (demo_views True))"
    by (simp_all add: demo_views_def)
  from shutdown_waits_for_live_threads [OF demo_views_ok [OF q] views_printable_typed [OF demo_views_printable] this]
  show ?thesis using q by blast
qed

text \<open>A sink or pattern that is set right before the end is not used: the drain loop does not poll
  for switches, so everything it writes goes to the old sink with the old pattern; the new file is
  still pending afterwards and has received nothing.\<close>
theorem shutdown_ignores_pending_switches:
  assumes "drain_loop en reads rc (rg, o1) = Some (rc', rg', o2)"
  shows "sk_file (o_sink o2) = sk_file (o_sink o1) \<and> sk_pending (o_sink o2) = sk_pending (o_sink o1) \<and>
    fh_formatter (o_formatter o2) = fh_formatter (o_formatter o1) \<and>
    fh_pending (o_formatter o2) = fh_pending (o_formatter o1) \<and>
    (f \<noteq> sk_file (o_sink o1) \<longrightarrow> file_output f (sk_io (o_sink o2)) = file_output f (sk_io (o_sink o1)))"
  using drain_loop_same [OF assms] by (simp add: same_outputs_def)

definition late_sink_outputs :: outputs where
  "late_sink_outputs = demo_outputs\<lparr>o_sink := queue_new_sink (Some (Disk 7)) 1 8192 (o_sink demo_outputs)\<rparr>"

lemma late_sink_drain:
  "\<exists>q1 q2 rc' rg' o2. q_holds q1 [] \<and> q_holds q2 [event_bytes demo_event] \<and>
     drain_loop demo_env (sconst demo_reads) demo_resync (demo_registry False q1 q2, late_sink_outputs) = Some (rc', rg', o2)"
proof -
  obtain q1 q2 where q: "q_holds q1 []" "q_holds q2 [event_bytes demo_event]" using demo_queues by metis
  have fmt: "fmt_renders show_ref (en_vformat demo_env)" by (simp add: demo_env_def fmt_renders_ref)
  have ready: "outputs_ready demo_env 16 1000 default_tokens late_sink_outputs"
    using demo_outputs_ready by (simp add: outputs_ready_def late_sink_outputs_def)
  have dead: "list_all (\<lambda>t. \<not> tv_alive t) (demo_views False)" by (simp add: demo_views_def)
  from drain_loop_flushes [OF fmt ready demo_views_ok [OF q] demo_clock_prints dead] show ?thesis
    using q by blast
qed

lemma shutdown_ignores_pending_switches_witness:
  "\<exists>rg rc' rg' o2. drain_loop demo_env (sconst demo_reads) demo_resync (rg, late_sink_outputs) = Some (rc', rg', o2) \<and>
     rg_head rg \<noteq> None \<and>
     sk_pending (o_sink o2) = Some \<lparr>sd_file = Disk 7, sd_mode = 1, sd_size = 8192\<rparr> \<and>
     file_output (Disk 7) (sk_io (o_sink o2)) = []"
proof -
  obtain q1 q2 rc' rg' o2 where r: "drain_loop demo_env (sconst demo_reads) demo_resync
      (demo_registry False q1 q2, late_sink_outputs) = Some (rc', rg', o2)"
    using late_sink_drain by blast
  from shutdown_ignores_pending_switches [OF r, of "Disk 7"] show ?thesis
    using r
    by (intro exI [of _ "demo_registry False q1 q2"] exI [of _ rc'] exI [of _ rg'] exI [of _ o2])
      (simp add: late_sink_outputs_def demo_outputs_def new_sink_handler_def queue_new_sink_def demo_registry_def)
qed

section \<open>A turn of the main loop\<close>

definition switched :: "outputs \<Rightarrow> outputs" where
  "switched o1 = o1\<lparr>o_sink := poll_for_pending_sink_switch (o_sink o1),
     o_formatter := poll_for_pending_formatter_switch (o_formatter o1)\<rparr>"

definition next_file :: "sink \<Rightarrow> cfile" where
  "next_file s = (case sk_pending s of None \<Rightarrow> sk_file s | Some d \<Rightarrow> sd_file d)"

definition next_formatter :: "formatter_handler \<Rightarrow> formatter" where
  "next_formatter h = (case fh_pending h of None \<Rightarrow> fh_formatter h | Some f \<Rightarrow> f)"

lemma switched_simps:
  "sk_file (o_sink (switched o1)) = next_file (o_sink o1)" "sk_pending (o_sink (switched o1)) = None"
  "fh_formatter (o_formatter (switched o1)) = next_formatter (o_formatter o1)" "fh_pending (o_formatter (switched o1)) = None"
  "o_min_level (switched o1) = o_min_level o1" "o_caches (switched o1) = o_caches o1"
  "file_output f (sk_io (o_sink (switched o1))) = file_output f (sk_io (o_sink o1))"
  by (simp_all add: switched_def next_file_def next_formatter_def sink_defs handler_defs Let_def split: option.split)

lemma backend_turn_output:
  assumes "fmt_renders sh (en_vformat en)" and "views rg ts" and "try_resync_clock cr (bk_resync bk) = Some rc"
    and "views_printable (with_clock rc en) ts" and "bk_mem bk = (rg, o1)" and "caches_ok (en_hms en) (o_caches o1)"
    and "accepted mf ml toks" and "fo_pattern (next_formatter (o_formatter o1)) = pattern_of toks"
  shows "\<exists>rg' o2. outputs_ready en mf ml toks o2 \<and> o_min_level o2 = o_min_level o1 \<and> backend_turn en cr bk = Some \<lparr>bk_mem = (rg', o2), bk_resync = rc,
      bk_backoff_us = next_backoff (pass_events ts \<noteq> []) (bk_backoff_us bk)\<rparr> \<and> views rg' (pass_rest ts) \<and>
    sk_file (o_sink o2) = next_file (o_sink o1) \<and> sk_pending (o_sink o2) = None \<and>
    fh_formatter (o_formatter o2) = next_formatter (o_formatter o1) \<and> fh_pending (o_formatter o2) = None \<and>
    file_output f (sk_io (o_sink o2)) = file_output f (sk_io (o_sink o1)) @
      (if f = next_file (o_sink o1)
       then concat (map (event_line (with_clock rc en) sh toks (o_min_level o1)) (pass_events ts)) else [])"
proof -
  let ?en = "with_clock rc en"
  have fmt: "fmt_renders sh (en_vformat ?en)" using assms(1) by simp
  have ready: "outputs_ready ?en mf ml toks (switched o1)"
    using assms(6-8) by (simp add: outputs_ready_def switched_simps)
  obtain o2 where o2: "pass_model ?en ts (switched o1) = Some (pass_events ts \<noteq> [], pass_rest ts, o2)"
      "outputs_ready ?en mf ml toks o2" "prints ?en sh toks (switched o1) (pass_events ts) o2"
    using pass_model_prints [OF fmt ready assms(4)] by blast
  obtain rg' where rg': "poll_threads ?en (rg, switched o1) = Some (pass_events ts \<noteq> [], rg', o2)" "views rg' (pass_rest ts)"
    using poll_threads_pass [OF assms(2) views_printable_typed [OF assms(4)], of "switched o1"] o2(1)
    by (auto simp: pass_agrees_def)
  have "same_outputs (switched o1) o2"
    using poll_loop_same [of ?en "rg_head rg" False "(rg, switched o1)"] rg'(1) by (simp add: poll_threads_def)
  moreover have "backend_turn en cr bk = Some \<lparr>bk_mem = (rg', o2), bk_resync = rc,
      bk_backoff_us = next_backoff (pass_events ts \<noteq> []) (bk_backoff_us bk)\<rparr>"
    using assms(3,5) rg'(1) by (simp add: backend_turn_def switched_def)
  ultimately show ?thesis
    using rg'(2) o2(2,3) by (auto simp: same_outputs_def prints_def switched_simps)
qed

text \<open>C10. One turn of the backend, all its parts together: a sink and a pattern that are pending when the
  turn starts are in force for every event of this very turn; the clock is resynchronised before;
  then the oldest event of each thread is printed to that sink, with that pattern and that clock, in
  the order of the list; nothing is written elsewhere; the back-off is reset exactly if there was an
  event.\<close>
theorem backend_turn_prints:
  assumes "fmt_renders sh (en_vformat en)" and "views rg ts" and "try_resync_clock cr (bk_resync bk) = Some rc"
    and "views_printable (with_clock rc en) ts" and "bk_mem bk = (rg, o1)" and "caches_ok (en_hms en) (o_caches o1)"
    and "accepted mf ml toks" and "fo_pattern (next_formatter (o_formatter o1)) = pattern_of toks"
  shows "\<exists>rg' o2. backend_turn en cr bk = Some \<lparr>bk_mem = (rg', o2), bk_resync = rc,
      bk_backoff_us = next_backoff (pass_events ts \<noteq> []) (bk_backoff_us bk)\<rparr> \<and> views rg' (pass_rest ts) \<and>
    sk_file (o_sink o2) = next_file (o_sink o1) \<and> sk_pending (o_sink o2) = None \<and>
    fh_formatter (o_formatter o2) = next_formatter (o_formatter o1) \<and> fh_pending (o_formatter o2) = None \<and>
    file_output f (sk_io (o_sink o2)) = file_output f (sk_io (o_sink o1)) @
      (if f = next_file (o_sink o1)
       then concat (map (event_line (with_clock rc en) sh toks (o_min_level o1)) (pass_events ts)) else [])"
  using backend_turn_output [OF assms, of f] by blast

lemma backend_turn_prints_witness:
  "\<exists>q1 q2 rg' o2. backend_turn demo_env demo_reads
       \<lparr>bk_mem = (demo_registry True q1 q2, late_sink_outputs), bk_resync = demo_resync, bk_backoff_us = 64\<rparr> =
     Some \<lparr>bk_mem = (rg', o2), bk_resync = demo_resync, bk_backoff_us = 1\<rparr> \<and>
     file_output (Disk 7) (sk_io (o_sink o2)) = ''[16:08:09.000071] (WARN) (x.cpp:42) n=42 hi'' @ [CHR 0x0A]"
proof -
  obtain q1 q2 where q: "q_holds q1 []" "q_holds q2 [event_bytes demo_event]" using demo_queues by metis
  let ?bk = "\<lparr>bk_mem = (demo_registry True q1 q2, late_sink_outputs), bk_resync = demo_resync, bk_backoff_us = 64\<rparr>"
  have fmt: "fmt_renders show_ref (en_vformat demo_env)" by (simp add: demo_env_def fmt_renders_ref)
  have sync: "try_resync_clock demo_reads (bk_resync ?bk) = Some demo_resync" using demo_resync_idle by simp
  have mem: "bk_mem ?bk = (demo_registry True q1 q2, late_sink_outputs)" by simp
  have late: "o_caches late_sink_outputs = o_caches demo_outputs" "o_formatter late_sink_outputs = o_formatter demo_outputs"
      "o_min_level late_sink_outputs = level_code Info"
    by (simp_all add: late_sink_outputs_def demo_outputs_def)
  have ready: "caches_ok (en_hms demo_env) (o_caches late_sink_outputs)" "accepted 16 1000 default_tokens"
      "fo_pattern (next_formatter (o_formatter late_sink_outputs)) = pattern_of default_tokens"
    using demo_outputs_ready unfolding late
    by (simp_all add: outputs_ready_def next_formatter_def demo_outputs_def new_formatter_handler_def)
  have target: "next_file (o_sink late_sink_outputs) = Disk 7" "sk_io (o_sink late_sink_outputs) = []"
    by (simp_all add: next_file_def late_sink_outputs_def queue_new_sink_def demo_outputs_def new_sink_handler_def)
  have events: "pass_events (demo_views True) = [demo_event]" by (simp add: demo_views_def)
  obtain rg' o2 where r: "backend_turn demo_env demo_reads ?bk = Some \<lparr>bk_mem = (rg', o2), bk_resync = demo_resync,
        bk_backoff_us = next_backoff (pass_events (demo_views True) \<noteq> []) (bk_backoff_us ?bk)\<rparr>"
      "file_output (Disk 7) (sk_io (o_sink o2)) = file_output (Disk 7) (sk_io (o_sink late_sink_outputs)) @
        (if Disk 7 = next_file (o_sink late_sink_outputs)
         then concat (map (event_line (with_clock demo_resync demo_env) show_ref default_tokens
           (o_min_level late_sink_outputs)) (pass_events (demo_views True))) else [])"
    using backend_turn_prints [OF fmt demo_views_ok [OF q] sync demo_clock_printable mem ready, of "Disk 7"] by blast
  have "file_output (Disk 7) (sk_io (o_sink o2)) = ''[16:08:09.000071] (WARN) (x.cpp:42) n=42 hi'' @ [CHR 0x0A]"
    using r(2) demo_clock_line unfolding target late events by simp
  moreover have "backend_turn demo_env demo_reads ?bk = Some \<lparr>bk_mem = (rg', o2), bk_resync = demo_resync, bk_backoff_us = 1\<rparr>"
    using r(1) unfolding events by (simp add: next_backoff_def)
  ultimately show ?thesis by (intro exI conjI)
qed

lemma next_backoff_idle: "unat (next_backoff False b) = min (2 * unat b) 200" if "unat b \<le> 200"
proof -
  have "unat (b * 2) = 2 * unat b" using that by (simp add: unat_mult_lem [THEN iffD1] mult.commute)
  then show ?thesis by (simp add: next_backoff_def max_backoff_us_def min_def word_le_nat_alt)
qed

text \<open>The back-off is bounded and doubles: after \<open>k\<close> idle turns in a row the backend sleeps
  \<open>min (2 ^ k) 200\<close> microseconds, without wrap-around, and whatever the turns were it is between 1
  and 200.\<close>
theorem backoff_doubles_up_to_limit:
  "unat ((next_backoff False ^^ k) 1) = min (2 ^ k) 200 \<and>
    1 \<le> unat (fold next_backoff turns 1) \<and> unat (fold next_backoff turns 1) \<le> 200"
proof -
  have idle: "unat ((next_backoff False ^^ k) 1) = min (2 ^ k) 200"
  proof (induction k)
    case (Suc k)
    then show ?case by (simp add: next_backoff_idle min_def)
  qed simp
  have "1 \<le> unat (fold next_backoff turns b) \<and> unat (fold next_backoff turns b) \<le> 200"
    if "1 \<le> unat b" "unat b \<le> 200" for b
    using that
  proof (induction turns arbitrary: b)
    case (Cons any turns)
    have "1 \<le> unat (next_backoff any b)" "unat (next_backoff any b) \<le> 200"
      using next_backoff_idle [of b] Cons.prems by (cases any; simp add: next_backoff_def [of True])+
    then show ?case using Cons.IH by simp
  qed simp
  then show ?thesis using idle by simp
qed

end
