(* ===== verification/Cpu_Id.thy ===== *)
theory Cpu_Id
  imports Soft_Double
begin

text \<open>
  The first half of \<open>include/papper/detail/time.h\<close>: whether the CPU has an invariant tick counter and how
  long a tick is, from the answers of the \<open>cpuid\<close> instruction. The instruction is a parameter
  \<open>cpuid leaf subleaf\<close>; the ticks counted while waiting for ten milliseconds are an argument.

  \<open>None\<close> is an access outside the 256 byte buffer, the brand string or (for a division by zero and the
  special forms of \<open>strtod\<close>) the finite doubles. What a function prints on \<open>std::cout\<close> is part of its result.
\<close>

unbundle bit_operations_syntax

section \<open>The instruction\<close>

record cpuid_t =
  r_eax :: u32
  r_ebx :: u32
  r_ecx :: u32
  r_edx :: u32

type_synonym cpuid_instr = "u32 \<Rightarrow> u32 \<Rightarrow> cpuid_t"

definition u32_bytes :: "u32 \<Rightarrow> byte list" where
  "u32_bytes w = le_bytes 4 (unat w)"

definition cpuid_bytes :: "cpuid_t \<Rightarrow> byte list" where
  "cpuid_bytes r = u32_bytes (r_eax r) @ u32_bytes (r_ebx r) @ u32_bytes (r_ecx r) @ u32_bytes (r_edx r)"

text \<open>\<open>std::string\<close> of a \<open>char*\<close>: the bytes before the first NUL.\<close>

definition c_string :: "memory \<Rightarrow> string" where
  "c_string m = map (\<lambda>b. char_of (unat b)) (takeWhile (\<lambda>b. b \<noteq> 0) m)"

definition c_strlen :: "memory \<Rightarrow> nat option" where
  "c_strlen m = (let n = length (takeWhile (\<lambda>b. b \<noteq> 0) m) in if n < length m then Some n else None)"

section \<open>Vendor and model name\<close>

definition cpu_brand_name :: "cpuid_instr \<Rightarrow> string" where
  "cpu_brand_name cpuid =
     (let r = cpuid 0 0
      in c_string (u32_bytes (r_ebx r) @ u32_bytes (r_edx r) @ u32_bytes (r_ecx r) @ [0]))"

definition on_intel :: "cpuid_instr \<Rightarrow> bool" where
  "on_intel cpuid \<longleftrightarrow> cpu_brand_name cpuid = ''GenuineIntel''"

definition on_amd :: "cpuid_instr \<Rightarrow> bool" where
  "on_amd cpuid \<longleftrightarrow> cpu_brand_name cpuid = ''AuthenticAMD''"

function read_leaves :: "cpuid_instr \<Rightarrow> nat \<Rightarrow> nat \<Rightarrow> memory \<Rightarrow> memory option" where
  "read_leaves cpuid ids i brand =
     (if i < ids
      then (case mem_write (i * 16) (cpuid_bytes (cpuid (of_nat i + 0x80000002) 0)) brand of
              None \<Rightarrow> None
            | Some brand' \<Rightarrow> read_leaves cpuid ids (Suc i) brand')
      else Some brand)"
  by pat_completeness auto
termination
  by (relation "measure (\<lambda>(cpuid, ids, i, brand). ids - i)") auto

declare read_leaves.simps [simp del]

text \<open>The loop over \<open>end\<close>; it stops at the first character, which it does not look at.\<close>

fun trim_trailing :: "nat \<Rightarrow> memory \<Rightarrow> memory" where
  "trim_trailing 0 m = m"
| "trim_trailing (Suc e) m = (if m ! Suc e = 32 then trim_trailing e (m[Suc e := 0]) else m)"

definition brand_ids :: "cpuid_instr \<Rightarrow> int option" where
  "brand_ids cpuid =
     (if on_amd cpuid then Some 3
      else if on_intel cpuid then Some (sint (r_eax (cpuid 0x80000000 0) XOR 0x80000000))
      else None)"

definition cpu_model_name :: "cpuid_instr \<Rightarrow> string option" where
  "cpu_model_name cpuid =
     (case brand_ids cpuid of
        None \<Rightarrow> Some (cpu_brand_name cpuid)
      | Some ids \<Rightarrow>
          (case read_leaves cpuid (nat ids) 0 (replicate 256 0) of
             None \<Rightarrow> None
           | Some brand \<Rightarrow>
               (case c_strlen brand of
                  None \<Rightarrow> None
                | Some n \<Rightarrow> Some (c_string (dropWhile (\<lambda>b. b = 32) (trim_trailing (n - 1) brand))))))"

fun find_substring :: "string \<Rightarrow> string \<Rightarrow> bool" where
  "find_substring pat [] \<longleftrightarrow> pat = []"
| "find_substring pat (c # s) \<longleftrightarrow> take (length pat) (c # s) = pat \<or> find_substring pat s"

definition on_apple_rosetta :: "cpuid_instr \<Rightarrow> bool option" where
  "on_apple_rosetta cpuid = map_option (find_substring ''Apple'') (cpu_model_name cpuid)"

section \<open>The length of a tick\<close>

definition extract_tick_time_from_leaf_15h :: "cpuid_instr \<Rightarrow> double option" where
  "extract_tick_time_from_leaf_15h cpuid =
     (if r_eax (cpuid 0 0) < 0x15 then None
      else
        let r = cpuid 0x15 0
        in if r_ebx r = 0 \<or> r_ecx r = 0 then None
           else
             let core_crystal_freq = d_of_int (uint (r_ecx r))
             in Some (d_div (d_mult (d_of_int 1000000000) (d_of_int (uint (r_eax r))))
                            (d_mult (d_of_int (uint (r_ebx r))) core_crystal_freq)))"

text \<open>\<open>strtod\<close> of the C library on decimal numbers: white space, a sign, digits with an optional point, an
  optional exponent; the value is rounded once. Hexadecimal numbers, infinities and NaNs are
  \<open>None\<close>; no number is 0.\<close>

definition is_digit :: "char \<Rightarrow> bool" where
  "is_digit c \<longleftrightarrow> 48 \<le> (of_char c :: nat) \<and> (of_char c :: nat) \<le> 57"

definition is_space :: "char \<Rightarrow> bool" where
  "is_space c \<longleftrightarrow> c = CHR '' '' \<or> 9 \<le> (of_char c :: nat) \<and> (of_char c :: nat) \<le> 13"

definition digits_value :: "string \<Rightarrow> nat" where
  "digits_value ds = foldl (\<lambda>n c. 10 * n + (of_char c - 48)) 0 ds"

fun split_sign :: "string \<Rightarrow> bool \<times> string" where
  "split_sign (c # s) = (if c = CHR ''-'' then (True, s) else if c = CHR ''+'' then (False, s) else (False, c # s))"
| "split_sign [] = (False, [])"

definition split_fraction :: "string \<Rightarrow> string \<times> string" where
  "split_fraction s =
     (if s \<noteq> [] \<and> hd s = CHR ''.'' then (takeWhile is_digit (tl s), dropWhile is_digit (tl s)) else ([], s))"

definition read_exponent :: "string \<Rightarrow> int" where
  "read_exponent s =
     (if s \<noteq> [] \<and> hd s \<in> {CHR ''e'', CHR ''E''} then
        let (neg, r) = split_sign (tl s); n = int (digits_value (takeWhile is_digit r))
        in if neg then - n else n
      else 0)"

definition d_decimal :: "nat \<Rightarrow> int \<Rightarrow> double" where
  "d_decimal m k = (if 0 \<le> k then d_norm (int m * 10 ^ nat k, 0) else d_div (int m, 0) (10 ^ nat (- k), 0))"

definition strtod :: "string \<Rightarrow> double option" where
  "strtod s =
     (let (neg, r) = split_sign (dropWhile is_space s);
          ds = takeWhile is_digit r; r1 = dropWhile is_digit r;
          (frac, r2) = split_fraction r1
      in if ds = [] \<and> frac = [] then
           (if r \<noteq> [] \<and> hd r \<in> {CHR ''i'', CHR ''I'', CHR ''n'', CHR ''N''} then None else Some (0, 0))
         else if ds = ''0'' \<and> r1 \<noteq> [] \<and> hd r1 \<in> {CHR ''x'', CHR ''X''} then None
         else
           let d = d_decimal (digits_value (ds @ frac)) (read_exponent r2 - int (length frac))
           in Some (if neg then d_neg d else d))"

definition multiplier_of :: "char \<Rightarrow> int option" where
  "multiplier_of c =
     (if c = CHR ''M'' then Some (1000 * 1000)
      else if c = CHR ''G'' then Some (1000 * 1000 * 1000)
      else if c = CHR ''T'' then Some (1000 * 1000 * 1000 * 1000)
      else None)"

text \<open>The search for the blank before the number; it reads the character before it checks that it is still
  in the string.\<close>

fun back_to_blank :: "string \<Rightarrow> nat \<Rightarrow> nat option" where
  "back_to_blank s 0 = (if s ! 0 = CHR '' '' then Some 0 else None)"
| "back_to_blank s (Suc e) = (if s ! Suc e = CHR '' '' then Some (Suc e) else back_to_blank s e)"

definition extract_tick_time_from_name :: "cpuid_instr \<Rightarrow> (string list \<times> double option) option" where
  "extract_tick_time_from_name cpuid =
     (case cpu_model_name cpuid of
        None \<Rightarrow> None
      | Some brand \<Rightarrow>
          if length brand < 3 then None
          else
            (case multiplier_of (brand ! (length brand - 3)) of
               None \<Rightarrow> Some ([''FALSE''], None)
             | Some multiplier \<Rightarrow>
                 (case back_to_blank brand (length brand - 3) of
                    None \<Rightarrow> None
                  | Some e \<Rightarrow>
                      (case strtod (drop (e + 1) brand) of
                         None \<Rightarrow> None
                       | Some freq \<Rightarrow>
                           if fst freq = 0 then Some ([''frequency is 0''], None)
                           else Some ([], Some (d_div (d_of_int 1000000000) (d_mult freq (d_of_int multiplier))))))))"

definition measure_tsc_tick :: "u64 \<Rightarrow> u64 \<Rightarrow> double option" where
  "measure_tsc_tick start_tick end_tick =
     (let elapsed = end_tick - start_tick
      in if elapsed = 0 then None else Some (d_div (d_of_int 10000000) (d_of_int (uint elapsed))))"

definition has_invariant_tsc :: "cpuid_instr \<Rightarrow> bool" where
  "has_invariant_tsc cpuid \<longleftrightarrow>
     \<not> r_eax (cpuid 0x80000000 0) < 0x80000007 \<and> r_edx (cpuid 0x80000007 0) AND 2 ^ 8 \<noteq> 0"

text \<open>\<open>get_tsc_ns_per_tick\<close> on x86; \<open>measured\<close> is what \<open>measure_tsc_tick\<close> would return.\<close>

definition get_tsc_ns_per_tick :: "cpuid_instr \<Rightarrow> double option \<Rightarrow> (string list \<times> double option) option" where
  "get_tsc_ns_per_tick cpuid measured =
     (let fall_back = (\<lambda>out. map_option (\<lambda>t. (out, Some t)) measured)
      in if r_eax (cpuid 0x80000000 0) < 0x80000007 then Some ([''cannot give invariant tsc status''], None)
         else if r_edx (cpuid 0x80000007 0) AND 2 ^ 8 = 0 then Some ([''does not have invariant tsc''], None)
         else
           (case extract_tick_time_from_leaf_15h cpuid of
              Some res \<Rightarrow> Some ([''extracted from leaf''], Some res)
            | None \<Rightarrow>
                if on_intel cpuid then
                  (case on_apple_rosetta cpuid of
                     None \<Rightarrow> None
                   | Some True \<Rightarrow> fall_back []
                   | Some False \<Rightarrow>
                       (case extract_tick_time_from_name cpuid of
                          None \<Rightarrow> None
                        | Some (out, Some res) \<Rightarrow> Some (out @ [''extracted from name''], Some res)
                        | Some (out, None) \<Rightarrow> fall_back out))
                else fall_back []))"

text \<open>The ARM variant: \<open>freq\<close> is the register \<open>cntfrq_el0\<close>.\<close>

definition arm_get_tsc_ns_per_tick :: "u64 \<Rightarrow> double option" where
  "arm_get_tsc_ns_per_tick freq = (if freq = 0 then None else Some (d_div (d_of_int 1000000000) (d_of_int (uint freq))))"

section \<open>The model name is the stripped brand string\<close>

definition strip :: "byte list \<Rightarrow> byte list" where
  "strip s = rev (dropWhile (\<lambda>b. b = 32) (rev (dropWhile (\<lambda>b. b = 32) s)))"

definition brand_leaves :: "cpuid_instr \<Rightarrow> nat \<Rightarrow> byte list" where
  "brand_leaves cpuid n = concat (map (\<lambda>i. cpuid_bytes (cpuid (of_nat i + 0x80000002) 0)) [0..<n])"

lemma cpuid_bytes_length [simp]: "length (cpuid_bytes r) = 16"
  by (simp add: cpuid_bytes_def u32_bytes_def)

lemma brand_leaves_length [simp]: "length (brand_leaves cpuid n) = 16 * n"
  by (induction n) (simp_all add: brand_leaves_def)

lemma brand_leaves_Suc:
  "brand_leaves cpuid (Suc n) = brand_leaves cpuid n @ cpuid_bytes (cpuid (of_nat n + 0x80000002) 0)"
  by (simp add: brand_leaves_def)

lemma read_leaves_from:
  "i \<le> n \<Longrightarrow> 16 * i \<le> 256 \<Longrightarrow>
     read_leaves cpuid n i (brand_leaves cpuid i @ replicate (256 - 16 * i) 0) =
       (if 16 * n \<le> 256 then Some (brand_leaves cpuid n @ replicate (256 - 16 * n) 0) else None)"
proof (induction "n - i" arbitrary: i)
  case 0
  then show ?case by (subst read_leaves.simps) simp
next
  case (Suc k)
  let ?bs = "cpuid_bytes (cpuid (of_nat i + 0x80000002) 0)"
  let ?m = "brand_leaves cpuid i @ replicate (256 - 16 * i) 0"
  have i: "i < n" using Suc.hyps(2) by simp
  show ?case
  proof (cases "16 * Suc i \<le> 256")
    case True
    have "mem_write (i * 16) ?bs ?m = Some (brand_leaves cpuid (Suc i) @ replicate (256 - 16 * Suc i) 0)"
      using True by (simp add: mem_write_def brand_leaves_Suc mult.commute)
    moreover have "read_leaves cpuid n (Suc i) (brand_leaves cpuid (Suc i) @ replicate (256 - 16 * Suc i) 0) =
        (if 16 * n \<le> 256 then Some (brand_leaves cpuid n @ replicate (256 - 16 * n) 0) else None)"
      using Suc.hyps(1) [of "Suc i"] Suc.hyps(2) i True by simp
    ultimately show ?thesis using i by (subst read_leaves.simps) simp
  next
    case False
    then have "mem_write (i * 16) ?bs ?m = None" using Suc.prems(2) by (simp add: mem_write_def)
    then show ?thesis using i False by (subst read_leaves.simps) simp
  qed
qed

lemma strip_snoc_blank: "strip (s @ [32]) = strip s"
  by (cases "\<forall>b \<in> set s. b = 32") (auto simp: strip_def dropWhile_append dropWhile_eq_Nil_conv dest: set_dropWhileD)

lemma takeWhile_nonzero_append: "0 \<notin> set s \<Longrightarrow> takeWhile (\<lambda>b. b \<noteq> 0) (s @ 0 # rest) = (s :: byte list)"
  by (induction s) auto

lemma trim_strips:
  "0 \<notin> set s \<Longrightarrow>
     takeWhile (\<lambda>b. b \<noteq> 0) (dropWhile (\<lambda>b. b = 32) (trim_trailing (length s - 1) (s @ 0 # rest))) = strip s"
proof (induction s arbitrary: rest rule: rev_induct)
  case Nil
  then show ?case by (simp add: strip_def)
next
  case (snoc b s)
  have b: "b \<noteq> 0" "0 \<notin> set s" using snoc.prems by auto
  show ?case
  proof (cases "s = []")
    case True
    then show ?thesis using b by (simp add: strip_def)
  next
    case False
    then obtain e where e: "length s = Suc e" by (cases s) auto
    have at: "((s @ [b]) @ 0 # rest) ! Suc e = b" using e by (simp add: nth_append)
    show ?thesis
    proof (cases "b = 32")
      case True
      have "((s @ [b]) @ 0 # rest)[Suc e := 0] = s @ 0 # 0 # rest" using e by (simp add: list_update_append)
      then have "trim_trailing (length (s @ [b]) - 1) ((s @ [b]) @ 0 # rest) = trim_trailing e (s @ 0 # 0 # rest)"
        using e at True by simp
      also have "e = length s - 1" using e by simp
      finally show ?thesis using snoc.IH [OF b(2), of "0 # rest"] True by (simp add: strip_snoc_blank)
    next
      case nonblank: False
      have trim: "trim_trailing (length (s @ [b]) - 1) ((s @ [b]) @ 0 # rest) = (s @ [b]) @ 0 # rest"
        using e at nonblank by simp
      have drop: "dropWhile (\<lambda>b. b = 32) ((s @ [b]) @ 0 # rest) = dropWhile (\<lambda>b. b = 32) (s @ [b]) @ 0 # rest"
        using nonblank by (simp add: dropWhile_append)
      have "0 \<notin> set (dropWhile (\<lambda>b. b = 32) (s @ [b]))" using snoc.prems set_dropWhileD by fastforce
      then have "takeWhile (\<lambda>b. b \<noteq> 0) (dropWhile (\<lambda>b. b = 32) ((s @ [b]) @ 0 # rest)) = dropWhile (\<lambda>b. b = 32) (s @ [b])"
        unfolding drop by (rule takeWhile_nonzero_append)
      moreover have "strip (s @ [b]) = dropWhile (\<lambda>b. b = 32) (s @ [b])"
        using nonblank by (simp add: strip_def dropWhile_append)
      ultimately show ?thesis using trim by simp
    qed
  qed
qed

section \<open>Rounding in the length of a tick\<close>

lemma d_of_int_u32: "d_of_int (uint (w :: u32)) = (uint w, 0)"
proof (rule d_of_int_small)
  have "uint w < 2 ^ 32" using uint_bounded [of w] by simp
  then have "uint w < 9007199254740992" by simp
  then show "\<bar>uint w\<bar> < 2 ^ 53" by simp
qed

lemma uint_pos: "w \<noteq> 0 \<Longrightarrow> 0 < real_of_int (uint (w :: u32))"
  unfolding of_int_0_less_iff using uint_0_iff [of w] uint_ge_0 [of w] by linarith

lemma scaled_abs: "0 \<le> c \<Longrightarrow> c * \<bar>x\<bar> \<le> d \<longleftrightarrow> c * x \<le> d \<and> - (c * x) \<le> d" for c d x :: real
  using abs_le_iff [of "c * x" d] by (simp add: abs_mult)

lemma chain_errors:
  fixes p P w v :: real
  assumes "9007199254740992 * \<bar>P - p\<bar> \<le> p" and "4503599627370496 * \<bar>w - P\<bar> \<le> P"
    and "9007199254740992 * \<bar>w - v\<bar> \<le> v" and "0 < p"
  shows "1125899906842624 * \<bar>v - p\<bar> \<le> p"
proof -
  have "9007199254740992 * (P - p) \<le> p" "- (9007199254740992 * (P - p)) \<le> p"
    "4503599627370496 * (w - P) \<le> P" "- (4503599627370496 * (w - P)) \<le> P"
    "9007199254740992 * (w - v) \<le> v" "- (9007199254740992 * (w - v)) \<le> v"
    using assms(1-3) by (simp_all only: scaled_abs zero_le_numeral)
  then have "9007199254740992 * P \<le> 9007199254740993 * p" "9007199254740991 * p \<le> 9007199254740992 * P"
    "4503599627370496 * w \<le> 4503599627370497 * P" "4503599627370495 * P \<le> 4503599627370496 * w"
    "9007199254740991 * v \<le> 9007199254740992 * w" "9007199254740992 * w \<le> 9007199254740993 * v"
    by (simp_all add: algebra_simps)
  then have "1125899906842624 * v \<le> 1125899906842625 * p" "1125899906842623 * p \<le> 1125899906842624 * v"
    using assms(4) by linarith+
  then have "1125899906842624 * (v - p) \<le> p" "- (1125899906842624 * (v - p)) \<le> p" by (simp_all add: algebra_simps)
  then show ?thesis by (simp only: scaled_abs zero_le_numeral simp_thms)
qed

lemma quotient_of_rounded:
  fixes p q P Q z :: real
  assumes pos: "0 < p" "0 < q" and P: "2 ^ 53 * \<bar>P - p\<bar> \<le> p" and Q: "2 ^ 53 * \<bar>Q - q\<bar> \<le> q"
    and z: "0 < P \<Longrightarrow> 0 < Q \<Longrightarrow> 2 ^ 52 * \<bar>z - P / Q\<bar> \<le> P / Q"
  shows "2 ^ 50 * \<bar>z - p / q\<bar> \<le> p / q"
proof -
  have PQ: "0 < P" "0 < Q" using P Q pos by (auto simp: abs_if split: if_splits)
  have "2 ^ 52 * \<bar>z - P / Q\<bar> * Q \<le> P / Q * Q" using z [OF PQ] PQ by (intro mult_right_mono) simp_all
  moreover have "\<bar>z - P / Q\<bar> * Q = \<bar>(z - P / Q) * Q\<bar>" using PQ by (simp add: abs_mult)
  moreover have "(z - P / Q) * Q = z * Q - P" using PQ by (simp add: left_diff_distrib)
  ultimately have zQ: "2 ^ 52 * \<bar>z * Q - P\<bar> \<le> P" using PQ by simp
  then have "0 \<le> z * Q" using PQ by (simp add: abs_if split: if_splits)
  then have z0: "0 \<le> z" using PQ by (simp add: zero_le_mult_iff)
  have "2 ^ 53 * \<bar>Q - q\<bar> * z \<le> q * z" using Q z0 by (rule mult_right_mono)
  moreover have "\<bar>Q - q\<bar> * z = \<bar>(Q - q) * z\<bar>" using z0 by (simp add: abs_mult)
  moreover have "(Q - q) * z = z * Q - z * q" by (simp add: algebra_simps)
  ultimately have zq: "2 ^ 53 * \<bar>z * Q - z * q\<bar> \<le> z * q" by (simp add: mult.commute)
  have "2 ^ 50 * \<bar>z * q - p\<bar> \<le> p" using chain_errors [of P p "z * Q" "z * q"] P zQ zq pos by simp
  then have "2 ^ 50 * \<bar>z * q - p\<bar> / q \<le> p / q" using pos by (simp add: divide_right_mono)
  moreover have "z - p / q = (z * q - p) / q" using pos by (simp add: diff_divide_distrib)
  moreover have "\<bar>(z * q - p) / q\<bar> = \<bar>z * q - p\<bar> / q" using pos(2) by (simp add: abs_divide)
  ultimately show ?thesis by (metis times_divide_eq_right)
qed

section \<open>The outcomes of the detection\<close>

text \<open>Unless it runs into undefined behaviour, the detection reports failure exactly if the CPU does not
  announce an invariant counter.\<close>

lemma get_tsc_ns_per_tick_fails_iff:
  "get_tsc_ns_per_tick cpuid measured = Some (out, r) \<Longrightarrow> r = None \<longleftrightarrow> \<not> has_invariant_tsc cpuid"
proof -
  assume result: "get_tsc_ns_per_tick cpuid measured = Some (out, r)"
  show ?thesis
  proof (cases "extract_tick_time_from_leaf_15h cpuid")
    case (Some t)
    then show ?thesis using result by (simp add: get_tsc_ns_per_tick_def has_invariant_tsc_def split: if_splits) (metis surj_pair)
  next
    case None
    then show ?thesis
      using result
      by (auto simp: get_tsc_ns_per_tick_def has_invariant_tsc_def Let_def split: if_splits option.splits bool.splits)
  qed
qed

text \<open>A ratio with a zero denominator is taken for an answer: the tick length is then zero.\<close>

lemma leaf_15h_zero_ratio:
  assumes "r_eax (cpuid 0x15 0) = 0" and "extract_tick_time_from_leaf_15h cpuid = Some t"
  shows "d_real t = 0"
proof -
  have zero: "fst (d_norm (0, e)) = 0" for e by (simp add: d_norm_def split: prod.split)
  have "fst (d_of_int 0) = 0" by (simp add: d_of_int_def zero)
  then have "fst (d_mult a (d_of_int 0)) = 0" for a by (simp add: d_mult_def zero)
  then have div: "fst (d_div (d_mult a (d_of_int 0)) b) = 0" for a b by (simp add: d_div_def Let_def zero)
  have "t = d_div (d_mult (d_of_int 1000000000) (d_of_int 0))
      (d_mult (d_of_int (uint (r_ebx (cpuid 0x15 0)))) (d_of_int (uint (r_ecx (cpuid 0x15 0)))))"
    using assms by (auto simp: extract_tick_time_from_leaf_15h_def Let_def split: if_splits)
  then show ?thesis using div unfolding d_real_def by simp
qed

text \<open>A name without a blank before its number makes the search run off its start, and one of less than
  three characters is read before its start at once.\<close>

lemma back_to_blank_none: "\<forall>i \<le> e. s ! i \<noteq> CHR '' '' \<Longrightarrow> back_to_blank s e = None"
  by (induction e) auto

lemma name_without_blank_undefined:
  assumes "cpu_model_name cpuid = Some brand" and "CHR '' '' \<notin> set brand"
    and "length brand < 3 \<or> multiplier_of (brand ! (length brand - 3)) \<noteq> None"
  shows "extract_tick_time_from_name cpuid = None"
proof (cases "length brand < 3")
  case False
  have "\<forall>i \<le> length brand - 3. brand ! i \<noteq> CHR '' ''"
  proof (intro allI impI)
    fix i assume "i \<le> length brand - 3"
    then have "brand ! i \<in> set brand" using False by simp
    then show "brand ! i \<noteq> CHR '' ''" using assms(2) by metis
  qed
  from back_to_blank_none [OF this] show ?thesis
    using assms(1,3) False by (auto simp: extract_tick_time_from_name_def)
qed (simp add: extract_tick_time_from_name_def assms(1))

section \<open>Properties\<close>


text \<open>An Intel CPU whose brand string starts and ends with blanks.\<close>

definition demo_cpuid :: cpuid_instr where
  "demo_cpuid leaf subleaf =
     (if leaf = 0 then \<lparr>r_eax = 0x16, r_ebx = 0x756e6547, r_ecx = 0x6c65746e, r_edx = 0x49656e69\<rparr>
      else if leaf = 0x15 then \<lparr>r_eax = 2, r_ebx = 250, r_ecx = 24000000, r_edx = 0\<rparr>
      else if leaf = 0x80000000 then \<lparr>r_eax = 0x80000008, r_ebx = 0, r_ecx = 0, r_edx = 0\<rparr>
      else if leaf = 0x80000002 then \<lparr>r_eax = 0x6e492020, r_ebx = 0x206c6574, r_ecx = 0x20555043, r_edx = 0x2e332040\<rparr>
      else if leaf = 0x80000003 then \<lparr>r_eax = 0x48473030, r_ebx = 0x20207a, r_ecx = 0x0, r_edx = 0x0\<rparr>
      else if leaf = 0x80000007 then \<lparr>r_eax = 0, r_ebx = 0, r_ecx = 0, r_edx = 0x100\<rparr>
      else \<lparr>r_eax = 0, r_ebx = 0, r_ecx = 0, r_edx = 0\<rparr>)"

lemma u32_bytes_eval:
  "u32_bytes w = [of_nat (unat w mod 256), of_nat (unat w div 256 mod 256),
     of_nat (unat w div 65536 mod 256), of_nat (unat w div 16777216 mod 256)]"
proof -
  have four: "(4 :: nat) = Suc (Suc (Suc (Suc 0)))" by simp
  show ?thesis unfolding u32_bytes_def four le_bytes.simps by (simp flip: div_mult2_eq)
qed

lemma demo_cpuid_vendor: "cpu_brand_name demo_cpuid = ''GenuineIntel''"
  by (simp add: cpu_brand_name_def demo_cpuid_def u32_bytes_eval c_string_def char_of_eq_iff)

lemma demo_cpuid_ids: "brand_ids demo_cpuid = Some 8"
  by (simp add: brand_ids_def on_amd_def on_intel_def demo_cpuid_vendor demo_cpuid_def)

lemma demo_brand_leaves:
  "cpuid_bytes (demo_cpuid 0x80000002 0) = [32, 32, 73, 110, 116, 101, 108, 32, 67, 80, 85, 32, 64, 32, 51, 46]"
  "cpuid_bytes (demo_cpuid 0x80000003 0) = [48, 48, 71, 72, 122, 32, 32, 0, 0, 0, 0, 0, 0, 0, 0, 0]"
  by (simp_all add: demo_cpuid_def cpuid_bytes_def u32_bytes_eval)

lemma demo_brand_bytes:
  "takeWhile (\<lambda>b. b \<noteq> 0) (brand_leaves demo_cpuid 8) =
     [32, 32, 73, 110, 116, 101, 108, 32, 67, 80, 85, 32, 64, 32, 51, 46, 48, 48, 71, 72, 122, 32, 32]"
proof -
  have range: "[0..<8] = 0 # 1 # [2..<8]" by (simp add: upt_rec)
  have "brand_leaves demo_cpuid 8 = cpuid_bytes (demo_cpuid 0x80000002 0) @ cpuid_bytes (demo_cpuid 0x80000003 0) @
      concat (map (\<lambda>i. cpuid_bytes (demo_cpuid (of_nat i + 0x80000002) 0)) [2..<8])"
    unfolding brand_leaves_def range by simp
  then show ?thesis unfolding demo_brand_leaves by simp
qed


text \<open>C31. The tick length from leaf 15H is accurate: when the CPU enumerates the ratio and the crystal
  frequency, the double that is computed is within \<open>2 ^ -50\<close>, relatively, of the exact
  \<open>10 ^ 9 * EAX / (EBX * ECX)\<close> nanoseconds, after four roundings.\<close>
theorem leaf_15h_accuracy:
  assumes "extract_tick_time_from_leaf_15h cpuid = Some t" and "r_eax (cpuid 0x15 0) \<noteq> 0"
  defines "p \<equiv> 1000000000 * real_of_int (uint (r_eax (cpuid 0x15 0)))"
    and "q \<equiv> real_of_int (uint (r_ebx (cpuid 0x15 0))) * real_of_int (uint (r_ecx (cpuid 0x15 0)))"
  shows "0 < q \<and> 2 ^ 50 * \<bar>d_real t - p / q\<bar> \<le> p / q"
proof -
  let ?r = "cpuid 0x15 0"
  let ?P = "d_mult (d_of_int 1000000000) (d_of_int (uint (r_eax ?r)))"
    and ?Q = "d_mult (d_of_int (uint (r_ebx ?r))) (d_of_int (uint (r_ecx ?r)))"
  have t: "t = d_div ?P ?Q" and nz: "r_ebx ?r \<noteq> 0" "r_ecx ?r \<noteq> 0"
    using assms(1) by (auto simp: extract_tick_time_from_leaf_15h_def Let_def split: if_splits)
  have pos: "0 < p" "0 < q" unfolding p_def q_def using assms(2) nz by (intro mult_pos_pos uint_pos; simp)+
  have P: "2 ^ 53 * \<bar>d_real ?P - p\<bar> \<le> p" and Q: "2 ^ 53 * \<bar>d_real ?Q - q\<bar> \<le> q"
    using d_norm_error [of "(1000000000 * uint (r_eax ?r), 0)"] d_norm_error [of "(uint (r_ebx ?r) * uint (r_ecx ?r), 0)"] pos
    by (simp_all add: d_mult_def d_of_int_u32 d_of_int_small d_real_of_int p_def q_def)
  show ?thesis
    unfolding t using quotient_of_rounded [OF pos P Q d_div_error] pos by simp
qed

lemma leaf_15h_accuracy_witness:
  "\<exists>t. extract_tick_time_from_leaf_15h demo_cpuid = Some t \<and> 2 ^ 50 * \<bar>d_real t - 1 / 3\<bar> \<le> 1 / 3"
proof -
  obtain t where t: "extract_tick_time_from_leaf_15h demo_cpuid = Some t"
    by (simp add: extract_tick_time_from_leaf_15h_def demo_cpuid_def Let_def)
  then show ?thesis using leaf_15h_accuracy [OF t] by (simp add: demo_cpuid_def)
qed

end
