(* ===== verification/Api.thy ===== *)
theory Api
  imports Main_Loop Cpu_Id
begin

text \<open>
  \<open>include/papper/papper.h\<close> and the parts of \<open>core.h\<close> it calls: the one instance of the backend, the
  thread-local \<open>ThreadContextHandler\<close> that registers a thread at its first call and marks its context
  when the thread ends, and the functions and macros of the interface. The state is that of the
  process (\<open>papper\<close>); a thread is a number, a thread-local variable a map over the threads.

  \<open>Throws\<close> is a C++ exception that reaches the caller; \<open>None\<close> is undefined behaviour, or (in
  \<open>register_thread\<close>) a loop that has not ended within the attempts given. Fresh addresses come from
  \<open>operator new\<close> and are arguments.
\<close>

section \<open>The process\<close>

datatype 'a outcome = Returns 'a | Throws string

text \<open>A \<open>thread_local\<close> object: not constructed yet, alive, or destroyed at the end of its thread; the
  address is that of the \<open>ThreadContext\<close>.\<close>

datatype handler = Not_Made | Made nat | Destroyed nat

text \<open>\<open>ps_cached\<close> is the \<open>thread_local\<close> pair of \<open>push_log_event\<close>, one per thread and instantiation of the
  template.\<close>

record papper =
  ps_queue_size :: u64
  ps_unnamed :: u32
  ps_backend :: "backend option"
  ps_handlers :: "nat \<Rightarrow> handler"
  ps_cached :: "nat \<times> nat \<Rightarrow> nat option"

definition initial_papper :: papper where
  "initial_papper = \<lparr>ps_queue_size = 1048576, ps_unnamed = 0, ps_backend = None,
     ps_handlers = (\<lambda>tid. Not_Made), ps_cached = (\<lambda>k. None)\<rparr>"

text \<open>What the host gives: the outcome of the tick detection, the clocks at the start, the memory the
  members are constructed in.\<close>

record startup =
  su_tick :: "double option"
  su_reads :: clock_reads
  su_clock :: clock
  su_formatter :: nat

record allocation =
  al_context :: nat
  al_node :: nat
  al_attempts :: "bool list"

section \<open>The backend object\<close>

definition no_tsc_message :: string where
  "no_tsc_message =
     ''CPU does not have an invariant TSC. A fallback is no implemented, so papper can't run on this machine yet.''"

definition new_backend :: "startup \<Rightarrow> backend outcome option" where
  "new_backend su =
     (case init_clock (su_tick su) (su_reads su) (su_clock su) of
        None \<Rightarrow> None
      | Some (False, ck) \<Rightarrow> Some (Throws no_tsc_message)
      | Some (True, ck) \<Rightarrow>
          Some (Returns
            \<lparr>bk_mem = (empty_registry,
                \<lparr>o_sink = new_sink_handler, o_formatter = new_formatter_handler (su_formatter su),
                 o_caches = initial_caches, o_min_level = level_code Trace\<rparr>),
             bk_resync = initial_resync ck, bk_backoff_us = 1\<rparr>))"

definition get_or_create_instance :: "startup \<Rightarrow> papper \<Rightarrow> (backend outcome \<times> papper) option" where
  "get_or_create_instance su ps =
     (case ps_backend ps of
        Some bk \<Rightarrow> Some (Returns bk, ps)
      | None \<Rightarrow>
          (case new_backend su of
             None \<Rightarrow> None
           | Some (Throws e) \<Rightarrow> Some (Throws e, ps)
           | Some (Returns bk) \<Rightarrow> Some (Returns bk, ps\<lparr>ps_backend := Some bk\<rparr>)))"

definition backend_queue_new_sink :: "cfile option \<Rightarrow> int \<Rightarrow> u64 \<Rightarrow> backend \<Rightarrow> backend" where
  "backend_queue_new_sink file buffering_mode buffer_size bk =
     bk\<lparr>bk_mem := map_prod id (\<lambda>o1. o1\<lparr>o_sink := queue_new_sink file buffering_mode buffer_size (o_sink o1)\<rparr>) (bk_mem bk)\<rparr>"

definition queue_new_pattern_formatter :: "formatter option \<Rightarrow> backend \<Rightarrow> backend" where
  "queue_new_pattern_formatter fo bk =
     bk\<lparr>bk_mem := map_prod id (\<lambda>o1. o1\<lparr>o_formatter := queue_new_formatter fo (o_formatter o1)\<rparr>) (bk_mem bk)\<rparr>"

definition set_new_minimum_log_level :: "log_level \<Rightarrow> backend \<Rightarrow> backend" where
  "set_new_minimum_log_level lvl bk = bk\<lparr>bk_mem := map_prod id (\<lambda>o1. o1\<lparr>o_min_level := level_code lvl\<rparr>) (bk_mem bk)\<rparr>"

text \<open>The loop of \<open>register_thread\<close>: one flag per attempt says whether it fails spuriously.\<close>

fun register_loop :: "bool list \<Rightarrow> nat \<Rightarrow> registry \<Rightarrow> registry option" where
  "register_loop [] n rg = None"
| "register_loop (spurious # attempts) n rg =
     (case register_cas spurious n rg of
        None \<Rightarrow> None
      | Some (True, rg') \<Rightarrow> Some rg'
      | Some (False, rg') \<Rightarrow> register_loop attempts n rg')"

definition register_thread :: "allocation \<Rightarrow> registry \<Rightarrow> registry option" where
  "register_thread al rg = register_loop (al_attempts al) (al_node al) (register_begin (al_node al) (al_context al) rg)"

text \<open>The destructor: the backend thread drains the queues and is joined, then the members are destroyed,
  the formatter handler before the sink handler.\<close>

definition backend_dtor :: "environment \<Rightarrow> clock_reads stream \<Rightarrow> backend \<Rightarrow> outputs option" where
  "backend_dtor en reads bk =
     (case drain_loop en reads (bk_resync bk) (bk_mem bk) of
        None \<Rightarrow> None
      | Some (rc, rg, o1) \<Rightarrow>
          let o2 = o1\<lparr>o_formatter := formatter_handler_dtor (o_formatter o1)\<rparr>
          in Some (o2\<lparr>o_sink := sink_dtor (o_sink o2)\<rparr>))"

section \<open>The handler of a thread\<close>

definition thread_context_handler ::
  "startup \<Rightarrow> allocation \<Rightarrow> string \<Rightarrow> u64 \<Rightarrow> papper \<Rightarrow> (nat outcome \<times> papper) option"
where
  "thread_context_handler su al thread_name queue_size ps =
     (case new_thread_context thread_name queue_size (ps_unnamed ps) of
        None \<Rightarrow> None
      | Some (ctx, unnamed) \<Rightarrow>
          (case get_or_create_instance su (ps\<lparr>ps_unnamed := unnamed\<rparr>) of
             None \<Rightarrow> None
           | Some (Throws e, ps1) \<Rightarrow> Some (Throws e, ps1)
           | Some (Returns bk, ps1) \<Rightarrow>
               (case register_thread al (add_context (al_context al) ctx (fst (bk_mem bk))) of
                  None \<Rightarrow> None
                | Some rg \<Rightarrow>
                    Some (Returns (al_context al),
                      ps1\<lparr>ps_backend := Some (bk\<lparr>bk_mem := (rg, snd (bk_mem bk))\<rparr>)\<rparr>))))"

text \<open>The \<open>static thread_local\<close> handler: constructed by the first call of the thread, whose arguments are
  the only ones that count. The result stands for the name and the queue of the context.\<close>

definition get_or_create_thread_queue ::
  "startup \<Rightarrow> allocation \<Rightarrow> nat \<Rightarrow> string \<Rightarrow> u64 \<Rightarrow> papper \<Rightarrow> (nat outcome \<times> papper) option"
where
  "get_or_create_thread_queue su al tid thread_name queue_size ps =
     (case ps_handlers ps tid of
        Made c \<Rightarrow> Some (Returns c, ps)
      | Destroyed c \<Rightarrow> None
      | Not_Made \<Rightarrow>
          (case thread_context_handler su al thread_name queue_size ps of
             None \<Rightarrow> None
           | Some (Throws e, ps1) \<Rightarrow> Some (Throws e, ps1)
           | Some (Returns c, ps1) \<Rightarrow>
               Some (Returns c, ps1\<lparr>ps_handlers := (ps_handlers ps1)(tid := Made c)\<rparr>)))"

definition context_kill :: "nat \<Rightarrow> registry \<Rightarrow> registry option" where
  "context_kill c rg =
     map_option (\<lambda>ctx. rg\<lparr>rg_contexts := (rg_contexts rg)(c \<mapsto> kill ctx)\<rparr>) (rg_contexts rg c)"

text \<open>The end of a thread destroys its handler, if it has one.\<close>

definition exit_thread :: "nat \<Rightarrow> papper \<Rightarrow> papper option" where
  "exit_thread tid ps =
     (case ps_handlers ps tid of
        Made c \<Rightarrow>
          (case ps_backend ps of
             None \<Rightarrow> None
           | Some bk \<Rightarrow>
               map_option (\<lambda>rg. ps\<lparr>ps_backend := Some (bk\<lparr>bk_mem := (rg, snd (bk_mem bk))\<rparr>),
                                   ps_handlers := (ps_handlers ps)(tid := Destroyed c)\<rparr>)
                 (context_kill c (fst (bk_mem bk))))
      | _ \<Rightarrow> Some ps)"

definition context_log :: "nat \<Rightarrow> log_event \<Rightarrow> registry \<Rightarrow> (bool \<times> registry) option" where
  "context_log c e rg =
     (case rg_contexts rg c of
        None \<Rightarrow> None
      | Some ctx \<Rightarrow>
          map_option (\<lambda>(stored, q). (stored, rg\<lparr>rg_contexts := (rg_contexts rg)(c \<mapsto> ctx\<lparr>tc_q := q\<rparr>)\<rparr>))
            (push_event e (tc_q ctx)))"

section \<open>The interface\<close>

datatype flush_on = LineEnd | BufferFull

text \<open>\<open>_IOLBF\<close> and \<open>_IOFBF\<close> of the C library (glibc).\<close>

fun flush_mode :: "flush_on \<Rightarrow> int" where
  "flush_mode LineEnd = 1"
| "flush_mode BufferFull = 0"

definition with_backend :: "startup \<Rightarrow> (backend \<Rightarrow> backend) \<Rightarrow> papper \<Rightarrow> (unit outcome \<times> papper) option" where
  "with_backend su f ps =
     (case get_or_create_instance su ps of
        None \<Rightarrow> None
      | Some (Throws e, ps1) \<Rightarrow> Some (Throws e, ps1)
      | Some (Returns bk, ps1) \<Rightarrow> Some (Returns (), ps1\<lparr>ps_backend := Some (f bk)\<rparr>))"

definition set_sink :: "startup \<Rightarrow> cfile option \<Rightarrow> flush_on \<Rightarrow> u64 \<Rightarrow> papper \<Rightarrow> (unit outcome \<times> papper) option" where
  "set_sink su file flush buffer_size ps =
     with_backend su (backend_queue_new_sink file (flush_mode flush) buffer_size) ps"

text \<open>The overload for a file name; \<open>fopen\<close> is the C library's, with \<open>errno\<close> if it fails.\<close>

definition set_sink_filename ::
  "startup \<Rightarrow> (string \<Rightarrow> string \<Rightarrow> int + cfile) \<Rightarrow> string \<Rightarrow> bool \<Rightarrow> flush_on \<Rightarrow> u64 \<Rightarrow> papper \<Rightarrow>
   (int outcome \<times> papper) option"
where
  "set_sink_filename su fopen filename trunc flush buffer_size ps =
     (case fopen filename (if trunc then ''w'' else ''a'') of
        Inl errno \<Rightarrow> Some (Returns errno, ps)
      | Inr new_sink \<Rightarrow>
          (case set_sink su (Some new_sink) flush buffer_size ps of
             None \<Rightarrow> None
           | Some (Throws e, ps1) \<Rightarrow> Some (Throws e, ps1)
           | Some (Returns u, ps1) \<Rightarrow> Some (Returns 0, ps1)))"

definition set_default_queue_size :: "u64 \<Rightarrow> papper \<Rightarrow> papper" where
  "set_default_queue_size queue_size ps = ps\<lparr>ps_queue_size := queue_size\<rparr>"

definition init_thread ::
  "startup \<Rightarrow> allocation \<Rightarrow> nat \<Rightarrow> string \<Rightarrow> u64 \<Rightarrow> papper \<Rightarrow> (unit outcome \<times> papper) option"
where
  "init_thread su al tid thread_name queue_size ps =
     (case get_or_create_thread_queue su al tid thread_name queue_size ps of
        None \<Rightarrow> None
      | Some (Throws e, ps1) \<Rightarrow> Some (Throws e, ps1)
      | Some (Returns c, ps1) \<Rightarrow> Some (Returns (), ps1))"

definition set_level :: "startup \<Rightarrow> log_level \<Rightarrow> papper \<Rightarrow> (unit outcome \<times> papper) option" where
  "set_level su lvl ps = with_backend su (set_new_minimum_log_level lvl) ps"

text \<open>\<open>PAPPER_SET_PATTERN\<close> and \<open>PAPPER_SET_LONG_PATTERN\<close>: a pattern with an error does not compile, which is
  \<open>None\<close>.\<close>

definition set_long_pattern ::
  "startup \<Rightarrow> nat \<Rightarrow> nat \<Rightarrow> nat \<Rightarrow> string \<Rightarrow> papper \<Rightarrow> (unit outcome \<times> papper) option"
where
  "set_long_pattern su addr max_fields max_len pattern ps =
     (case parse_pattern max_fields max_len (static_string (pattern @ [CHR 0x00])) of
        None \<Rightarrow> None
      | Some p \<Rightarrow>
          if static_assertion (pp_error p) \<noteq> None then None
          else with_backend su (queue_new_pattern_formatter (Some \<lparr>fo_address = addr, fo_pattern = p\<rparr>)) ps)"

definition set_pattern :: "startup \<Rightarrow> nat \<Rightarrow> string \<Rightarrow> papper \<Rightarrow> (unit outcome \<times> papper) option" where
  "set_pattern su addr pattern ps = set_long_pattern su addr 16 1000 pattern ps"

text \<open>The logging macros on thread \<open>tid\<close> at a call site whose instantiation of \<open>push_log_event\<close> is \<open>inst\<close>;
  \<open>name_ptr\<close> gives the address of a context's name.\<close>

definition log_call ::
  "startup \<Rightarrow> (nat \<Rightarrow> u64) \<Rightarrow> allocation \<Rightarrow> nat \<Rightarrow> nat \<Rightarrow> u64 \<Rightarrow> u64 \<Rightarrow> (ctype \<times> cval) list \<Rightarrow> papper \<Rightarrow>
   (unit outcome \<times> papper) option"
where
  "log_call su name_ptr al tid inst site timestamp args ps =
     (case (case ps_cached ps (tid, inst) of
              Some c \<Rightarrow> Some (Returns c, ps)
            | None \<Rightarrow> get_or_create_thread_queue su al tid '''' (ps_queue_size ps) ps) of
        None \<Rightarrow> None
      | Some (Throws e, ps1) \<Rightarrow> Some (Throws e, ps1)
      | Some (Returns c, ps1) \<Rightarrow>
          (case ps_backend ps1 of
             None \<Rightarrow> None
           | Some bk \<Rightarrow>
               map_option (\<lambda>(stored, rg). (Returns (),
                   ps1\<lparr>ps_backend := Some (bk\<lparr>bk_mem := (rg, snd (bk_mem bk))\<rparr>),
                       ps_cached := (ps_cached ps1)((tid, inst) \<mapsto> c)\<rparr>))
                 (context_log c \<lparr>ev_site = site, ev_name = name_ptr c, ev_time = timestamp, ev_args = args\<rparr>
                   (fst (bk_mem bk)))))"

text \<open>The static data \<open>PAPPER_LOG_IMPL\<close> creates at a call site: the decoding function, \<open>decode_and_format<Args...>\<close>
  with the types of the arguments of this very call, is given by these types.\<close>

definition get_decoding_function :: "(ctype \<times> cval) list \<Rightarrow> ctype list" where
  "get_decoding_function args = map fst args"

definition log_impl_static_data ::
  "log_level \<Rightarrow> string \<Rightarrow> (ctype \<times> cval) list \<Rightarrow> string \<Rightarrow> string \<Rightarrow> u32 \<Rightarrow> call_site"
where
  "log_impl_static_data lvl fmt_str args file_name function_name line =
     \<lparr>cs_level = level_code lvl, cs_fmt_str = fmt_str, cs_arg_types = get_decoding_function args,
      cs_file_name = file_name, cs_function_name = function_name, cs_line = line\<rparr>"

text \<open>The macros of the five levels, with the short names if they are asked for.\<close>

definition macro_table :: "(string \<times> log_level) list" where
  "macro_table = [(''TRACE'', Trace), (''INFO'', Info), (''DEBUG'', Debug), (''WARN'', Warn), (''ERROR'', Error)]"

definition macro_level :: "bool \<Rightarrow> bool \<Rightarrow> string \<Rightarrow> log_level option" where
  "macro_level short_names very_short_names macro =
     map_of (map (map_prod ((@) ''PAPPER_'') id) macro_table @
       (if short_names then map (map_prod ((@) ''LOG_'') id) macro_table else []) @
       (if very_short_names then macro_table else [])) macro"

section \<open>Contexts across the operations\<close>

text \<open>The context at \<open>c\<close> belongs to a registered thread that has not ended.\<close>

definition live_ctx :: "registry \<Rightarrow> thread_view list \<Rightarrow> nat \<Rightarrow> bool" where
  "live_ctx rg ts c \<longleftrightarrow> (\<exists>t \<in> set ts. tv_alive t \<and> ctx_of rg (tv_node t) = Some c)"

lemma live_ctx_split:
  assumes "live_ctx rg ts c"
  obtains ds t us where "ts = ds @ t # us" "tv_alive t" "ctx_of rg (tv_node t) = Some c"
  using assms by (auto simp: live_ctx_def in_set_conv_decomp)

lemma views_node_ctx:
  assumes "views rg (ds @ t # ts)" and "ctx_of rg (tv_node t) = Some c"
  obtains nd ctx where "rg_nodes rg (tv_node t) = Some nd" "nd_context nd = c" "rg_contexts rg c = Some ctx"
    "tc_is_alive ctx = tv_alive t" "q_holds (tc_q ctx) (map event_bytes (tv_events t))"
proof -
  obtain nd ctx where n: "rg_nodes rg (tv_node t) = Some nd" "rg_contexts rg (nd_context nd) = Some ctx"
      "tc_is_alive ctx = tv_alive t" "q_holds (tc_q ctx) (map event_bytes (tv_events t))"
    using views_node [OF assms(1)] by metis
  have "nd_context nd = c" using n(1) assms(2) by (simp add: ctx_of_def)
  then show ?thesis using that n by blast
qed

text \<open>Replacing a node's view by one with the same node keeps the contexts alive.\<close>

lemma live_ctx_replace:
  assumes "live_ctx rg (ds @ t # us) c'" and "ctx_of rg' = ctx_of rg" and "tv_node t' = tv_node t"
    and "tv_alive t' \<or> ctx_of rg (tv_node t) \<noteq> Some c'"
  shows "live_ctx rg' (ds @ t' # us) c'"
  using assms by (auto simp: live_ctx_def)

lemma context_log_views:
  assumes v: "views rg ts" and typed: "views_typed en ts" and e: "event_typed en e" and c: "live_ctx rg ts c"
  shows "\<exists>stored rg' ts'. context_log c e rg = Some (stored, rg') \<and> views rg' ts' \<and> views_typed en ts' \<and>
    (\<forall>c'. live_ctx rg ts c' \<longrightarrow> live_ctx rg' ts' c')"
proof -
  obtain ds t us where ts: "ts = ds @ t # us" "tv_alive t" "ctx_of rg (tv_node t) = Some c" using live_ctx_split [OF c] .
  obtain nd ctx where n: "rg_nodes rg (tv_node t) = Some nd" "nd_context nd = c" "rg_contexts rg c = Some ctx"
      "q_holds (tc_q ctx) (map event_bytes (tv_events t))"
    using views_node_ctx [OF v [unfolded ts(1)] ts(3)] by metis
  have ok: "event_ok e" using e by (simp add: event_typed_def)
  let ?es = "if event_fits (q_cap (tc_q ctx)) (tv_events t) e then tv_events t @ [e] else tv_events t"
  obtain stored q where q: "push_event e (tc_q ctx) = Some (stored, q)" "q_holds q (map event_bytes ?es)"
    using push_event_law [OF ok n(4)] by blast
  let ?rg = "rg\<lparr>rg_contexts := (rg_contexts rg)(c \<mapsto> ctx\<lparr>tc_q := q\<rparr>)\<rparr>" and ?ts = "ds @ t\<lparr>tv_events := ?es\<rparr> # us"
  have "context_log c e rg = Some (stored, ?rg)" using q(1) n(3) by (simp add: context_log_def)
  moreover have "views ?rg ?ts"
    using views_set_queue [OF v [unfolded ts(1)] n(1) _ q(2)] n(2,3) by simp
  moreover have "views_typed en ?ts" using typed e by (auto simp: ts(1) views_typed_def)
  moreover have "live_ctx ?rg ?ts c'" if "live_ctx rg ts c'" for c'
    using that unfolding ts(1) by (rule live_ctx_replace) (simp_all add: ctx_of_def fun_eq_iff ts(2))
  ultimately show ?thesis by blast
qed

lemma context_kill_views:
  assumes v: "views rg ts" and typed: "views_typed en ts" and c: "live_ctx rg ts c"
  shows "\<exists>rg' ts'. context_kill c rg = Some rg' \<and> views rg' ts' \<and> views_typed en ts' \<and>
    (\<forall>c'. c' \<noteq> c \<longrightarrow> live_ctx rg ts c' \<longrightarrow> live_ctx rg' ts' c')"
proof -
  obtain ds t us where ts: "ts = ds @ t # us" "tv_alive t" "ctx_of rg (tv_node t) = Some c" using live_ctx_split [OF c] .
  obtain nd ctx where n: "rg_nodes rg (tv_node t) = Some nd" "nd_context nd = c" "rg_contexts rg c = Some ctx"
    using views_node_ctx [OF v [unfolded ts(1)] ts(3)] by metis
  let ?rg = "rg\<lparr>rg_contexts := (rg_contexts rg)(c \<mapsto> kill ctx)\<rparr>" and ?ts = "ds @ t\<lparr>tv_alive := False\<rparr> # us"
  have "thread_exit (tv_node t) rg = Some ?rg" using n by (simp add: thread_exit_def)
  then have "views ?rg ?ts" using views_kill [OF v [unfolded ts(1)]] by auto
  moreover have "context_kill c rg = Some ?rg" using n(3) by (simp add: context_kill_def)
  moreover have "views_typed en ?ts" using typed by (simp add: ts(1) views_typed_def)
  moreover have same: "ctx_of ?rg = ctx_of rg" by (simp add: ctx_of_def fun_eq_iff)
  moreover have "live_ctx ?rg ?ts c'" if "c' \<noteq> c" "live_ctx rg ts c'" for c'
    using that(2) unfolding ts(1) by (rule live_ctx_replace) (use that(1) ts(3) same in simp_all)
  ultimately show ?thesis by blast
qed

lemma register_loop_result:
  "register_loop attempts n rg = Some rg' \<Longrightarrow> rg_nodes rg n = Some nd \<Longrightarrow>
     rg' = rg\<lparr>rg_head := Some n, rg_nodes := (rg_nodes rg)(n \<mapsto> nd\<lparr>nd_next := rg_head rg\<rparr>)\<rparr>"
proof (induction attempts arbitrary: rg nd)
  case (Cons sp attempts)
  show ?case
  proof (cases "nd_next nd = rg_head rg \<and> \<not> sp")
    case True
    then have "nd\<lparr>nd_next := rg_head rg\<rparr> = nd" by (cases nd) simp
    then have "(rg_nodes rg)(n \<mapsto> nd\<lparr>nd_next := rg_head rg\<rparr>) = rg_nodes rg" using Cons.prems(2) by (simp add: fun_upd_idem)
    then show ?thesis using True Cons.prems by (auto simp: register_cas_def)
  next
    case False
    then have "register_loop attempts n (rg\<lparr>rg_nodes := (rg_nodes rg)(n \<mapsto> nd\<lparr>nd_next := rg_head rg\<rparr>)\<rparr>) = Some rg'"
      using Cons.prems by (auto simp: register_cas_def)
    from Cons.IH [OF this] show ?thesis by (simp cong: if_cong)
  qed
qed simp

lemma register_loop_returns:
  "False \<in> set attempts \<Longrightarrow> rg_nodes rg n = Some nd \<Longrightarrow> nd_next nd = rg_head rg \<Longrightarrow> \<exists>rg'. register_loop attempts n rg = Some rg'"
  by (induction attempts arbitrary: rg nd) (auto simp: register_cas_def)

lemma register_thread_views:
  assumes v: "views rg ts" and fresh: "rg_nodes rg (al_node al) = None" "rg_contexts rg (al_context al) = None"
    and ctx: "q_holds (tc_q ctx) []" "tc_is_alive ctx"
    and reg: "register_thread al (add_context (al_context al) ctx rg) = Some rg'"
  shows "views rg' (\<lparr>tv_node = al_node al, tv_alive = True, tv_events = []\<rparr> # ts) \<and>
    ctx_of rg' = (ctx_of rg)(al_node al \<mapsto> al_context al) \<and> rg_contexts rg' = (rg_contexts rg)(al_context al \<mapsto> ctx)"
proof -
  let ?n = "al_node al" and ?c = "al_context al"
  let ?rg1 = "register_begin ?n ?c (add_context ?c ctx rg)"
  have holds: "rg_holds rg (map tv_node ts)" using v by (simp add: views_def)
  then have lk: "linked (rg_nodes rg) (rg_head rg) (map tv_node ts)" and ok: "ctx_ok rg" by (auto simp: rg_holds_def)
  have out: "?n \<notin> tv_node ` set ts" using linked_alloc [OF lk, of ?n] fresh(1) by (simp only: set_map not_None_eq) blast
  have nd: "rg_nodes ?rg1 ?n = Some \<lparr>nd_context = ?c, nd_next = rg_head rg\<rparr>"
    by (simp add: register_begin_def add_context_def)
  have head: "rg_head ?rg1 = rg_head rg" by (simp add: register_begin_def add_context_def)
  have rg': "rg' = ?rg1\<lparr>rg_head := Some ?n\<rparr>"
    using register_loop_result [OF reg [unfolded register_thread_def] nd] nd
    by (simp add: head fun_upd_idem)
  have ctx': "ctx_of rg' = (ctx_of rg)(?n \<mapsto> ?c)"
    by (simp add: rg' ctx_of_def register_begin_def add_context_def fun_eq_iff)
  have ctxs: "rg_contexts rg' = (rg_contexts rg)(?c \<mapsto> ctx)" by (simp add: rg' register_begin_def add_context_def)
  have "linked (rg_nodes rg') (Some ?n) (?n # map tv_node ts)"
    using lk out by (simp add: rg' register_begin_def add_context_def linked_update_other)
  moreover have "ctx_ok rg'" using ctx_ok_begin [OF ok fresh(2)] by (simp add: rg' ctx_ok_def ctx_of_def)
  moreover have "distinct (?n # map tv_node ts)" using holds out by (simp add: rg_holds_def)
  ultimately have "rg_holds rg' (?n # map tv_node ts)" by (simp add: rg_holds_def rg')
  moreover have "view_ok rg' t" if t: "t \<in> set ts" for t
  proof -
    have "view_ok rg t" using v t by (simp add: views_def list_all_iff)
    then obtain c ctx0 where c: "ctx_of rg (tv_node t) = Some c" "rg_contexts rg c = Some ctx0"
        "tc_is_alive ctx0 = tv_alive t" "q_holds (tc_q ctx0) (map event_bytes (tv_events t))"
      by (auto simp: view_ok_def)
    have "tv_node t \<noteq> ?n" using out imageI [OF t, of tv_node] by metis
    moreover have "c \<noteq> ?c" using c(2) fresh(2) by auto
    ultimately have "ctx_of rg' (tv_node t) = Some c" "rg_contexts rg' c = Some ctx0" using c(1,2) by (simp_all add: ctx' ctxs)
    then show ?thesis using c(3,4) unfolding view_ok_def by blast
  qed
  ultimately show ?thesis
    using ctx ctx' ctxs by (simp add: views_def list_all_iff view_ok_def)
qed

text \<open>A pass only ever removes nodes, so the nodes that are left keep their contexts.\<close>

definition ctx_kept :: "registry \<Rightarrow> registry \<Rightarrow> bool" where
  "ctx_kept rg rg' \<longleftrightarrow> (\<forall>m c. ctx_of rg' m = Some c \<longrightarrow> ctx_of rg m = Some c)"

lemma ctx_kept_refl: "ctx_kept rg rg"
  by (simp add: ctx_kept_def)

lemma ctx_kept_trans: "ctx_kept rg rg1 \<Longrightarrow> ctx_kept rg1 rg2 \<Longrightarrow> ctx_kept rg rg2"
  by (simp add: ctx_kept_def)

lemma remove_and_delete_node_kept: "remove_and_delete_node p rg = Some rg' \<Longrightarrow> ctx_kept rg rg'"
  by (auto simp: remove_and_delete_node_def remove_cas_def remove_unlink_def delete_node_def ctx_kept_def ctx_of_def
      split: option.splits if_splits)

lemma poll_read_kept: "poll_read en n bm = Some (any, rg', o2) \<Longrightarrow> ctx_kept (fst bm) rg'"
  by (auto simp: poll_read_def ctx_kept_def ctx_of_def split: prod.splits option.splits)

lemma poll_reap_kept: "poll_reap n rg = Some rg' \<Longrightarrow> ctx_kept rg rg'"
  by (auto simp: poll_reap_def ctx_kept_refl split: option.splits if_splits dest: remove_and_delete_node_kept)

text \<open>What every read and every removal of a pass does to the registry, the whole pass does.\<close>

lemma poll_loop_relates:
  assumes "poll_loop en node any0 bm = Some r" and refl: "\<And>rg. R rg rg"
    and trans: "\<And>rg rg1 rg2. R rg rg1 \<Longrightarrow> R rg1 rg2 \<Longrightarrow> R rg rg2"
    and read: "\<And>en n bm any rg o2. poll_read en n bm = Some (any, rg, o2) \<Longrightarrow> R (fst bm) rg"
    and reap: "\<And>n rg rg'. poll_reap n rg = Some rg' \<Longrightarrow> R rg rg'"
  shows "R (fst bm) (fst (snd r))"
proof (rule poll_loop.raw_induct [where P = "\<lambda>en node any0 bm r. R (fst bm) (fst (snd r))", OF _ assms(1)])
  fix loop en node any0 bm r
  assume IH: "\<And>en node any0 bm r. loop en node any0 bm = Some r \<Longrightarrow> R (fst bm) (fst (snd r))"
    and body: "(case node of
         None \<Rightarrow> Some (any0, bm)
       | Some n \<Rightarrow>
           (case rg_nodes (fst bm) n of
              None \<Rightarrow> None
            | Some nd \<Rightarrow>
                (case poll_read en n bm of
                   None \<Rightarrow> None
                 | Some (any, rg, o2) \<Rightarrow>
                     if any then loop en (nd_next nd) True (rg, o2)
                     else (case poll_reap n rg of
                             None \<Rightarrow> None
                           | Some rg' \<Rightarrow> loop en (nd_next nd) any0 (rg', o2))))) = Some r"
  show "R (fst bm) (fst (snd r))"
  proof (cases node)
    case None
    then show ?thesis using body by (auto simp: refl)
  next
    case (Some n)
    then obtain any1 rg1 o1 where read1: "poll_read en n bm = Some (any1, rg1, o1)"
      using body by (auto split: option.splits)
    obtain node2 any2 rg2 where rec: "loop en node2 any2 (rg2, o1) = Some r" "R rg1 rg2"
      using body Some read1 by (auto simp: refl split: option.splits if_splits dest: reap)
    show ?thesis using trans [OF read [OF read1] trans [OF rec(2) IH [OF rec(1), unfolded fst_conv]]] .
  qed
qed

lemma poll_loop_kept: "poll_loop en node any0 bm = Some r \<Longrightarrow> ctx_kept (fst bm) (fst (snd r))"
  by (erule poll_loop_relates [where R = ctx_kept])
    (use ctx_kept_refl ctx_kept_trans poll_read_kept poll_reap_kept in blast)+

text \<open>A pass creates no nodes and no contexts, and no queue changes its capacity.\<close>

definition caps_kept :: "registry \<Rightarrow> registry \<Rightarrow> bool" where
  "caps_kept rg rg' \<longleftrightarrow> (\<forall>n. rg_nodes rg n = None \<longrightarrow> rg_nodes rg' n = None) \<and>
     (\<forall>c ctx'. rg_contexts rg' c = Some ctx' \<longrightarrow>
        (\<exists>ctx. rg_contexts rg c = Some ctx \<and> q_cap (tc_q ctx) = q_cap (tc_q ctx')))"

lemma caps_kept_refl: "caps_kept rg rg"
  by (simp add: caps_kept_def)

lemma caps_kept_trans: "caps_kept rg rg1 \<Longrightarrow> caps_kept rg1 rg2 \<Longrightarrow> caps_kept rg rg2"
  unfolding caps_kept_def by metis

lemma caps_kept_fresh:
  assumes "caps_kept rg rg'"
  shows "rg_nodes rg n = None \<Longrightarrow> rg_nodes rg' n = None" and "rg_contexts rg c = None \<Longrightarrow> rg_contexts rg' c = None"
  using assms unfolding caps_kept_def by (simp, metis option.exhaust option.distinct(1))

lemma poll_queue_cap: "poll_queue en q o1 = Some (any, q', o2) \<Longrightarrow> q_cap q' = q_cap q"
  by (auto simp: poll_queue_def reserve_read_def reserve_read_obs_def is_empty_obs_def commit_read_def q_cap_def
      Let_def split: prod.splits option.splits if_splits bool.splits)

lemma poll_read_caps: "poll_read en n bm = Some (any, rg', o2) \<Longrightarrow> caps_kept (fst bm) rg'"
  by (auto simp: poll_read_def caps_kept_def poll_queue_cap split: prod.splits option.splits if_splits)

lemma remove_and_delete_node_caps: "remove_and_delete_node p rg = Some rg' \<Longrightarrow> caps_kept rg rg'"
  by (auto simp: remove_and_delete_node_def remove_cas_def remove_unlink_def delete_node_def caps_kept_def
      split: option.splits if_splits)

lemma poll_reap_caps: "poll_reap n rg = Some rg' \<Longrightarrow> caps_kept rg rg'"
  by (auto simp: poll_reap_def caps_kept_refl split: option.splits if_splits dest: remove_and_delete_node_caps)

lemma poll_loop_caps: "poll_loop en node any0 bm = Some r \<Longrightarrow> caps_kept (fst bm) (fst (snd r))"
  by (erule poll_loop_relates [where R = caps_kept])
    (use caps_kept_refl caps_kept_trans poll_read_caps poll_reap_caps in blast)+

lemma pass_model_keeps_alive:
  "pass_model en ts o1 = Some (any, ts', o2) \<Longrightarrow> t \<in> set ts \<Longrightarrow> tv_alive t \<Longrightarrow>
     \<exists>t' \<in> set ts'. tv_alive t' \<and> tv_node t' = tv_node t"
proof (induction ts arbitrary: o1 any ts')
  case (Cons u ts)
  show ?case
  proof (cases "tv_events u")
    case Nil
    then show ?thesis using Cons by (cases "tv_alive u") auto
  next
    case (Cons e es)
    then obtain o3 any3 ts3 where "pass_model en ts o3 = Some (any3, ts3, o2)" "ts' = u\<lparr>tv_events := es\<rparr> # ts3"
      using Cons.prems(1) by (auto split: option.splits)
    then show ?thesis using Cons.IH Cons.prems(2,3) by auto
  qed
qed simp

lemma poll_threads_views:
  assumes v: "views rg ts" and typed: "views_typed en ts" and poll: "poll_threads en (rg, o1) = Some (any, rg', o2)"
  shows "\<exists>ts'. views rg' ts' \<and> views_typed en ts' \<and> (\<forall>c. live_ctx rg ts c \<longrightarrow> live_ctx rg' ts' c)"
proof -
  obtain ts' where ts': "pass_model en ts o1 = Some (any, ts', o2)" "views rg' ts'"
    using poll_threads_pass [OF v typed, of o1] poll by (auto simp: pass_agrees_def split: option.splits)
  have kept: "ctx_kept rg rg'" using poll_loop_kept poll unfolding poll_threads_def by fastforce
  have "live_ctx rg' ts' c" if c: "live_ctx rg ts c" for c
  proof -
    obtain t where t: "t \<in> set ts" "tv_alive t" "ctx_of rg (tv_node t) = Some c" using c by (auto simp: live_ctx_def)
    obtain t' where t': "t' \<in> set ts'" "tv_alive t'" "tv_node t' = tv_node t"
      using pass_model_keeps_alive [OF ts'(1) t(1,2)] by blast
    then have "view_ok rg' t'" using ts'(2) by (simp add: views_def list_all_iff)
    then obtain c' where "ctx_of rg' (tv_node t') = Some c'" by (auto simp: view_ok_def)
    moreover from this have "c' = c" using kept t(3) t'(3) unfolding ctx_kept_def by fastforce
    ultimately show ?thesis using t'(1,2) unfolding live_ctx_def by blast
  qed
  then show ?thesis using ts' pass_model_typed [OF ts'(1) typed] by blast
qed

section \<open>The invariant of the process\<close>

definition papper_ok :: "environment \<Rightarrow> papper \<Rightarrow> bool" where
  "papper_ok en ps \<longleftrightarrow>
     unat (ps_queue_size ps) \<le> 2 ^ 62 \<and>
     (\<forall>k c. ps_cached ps k = Some c \<longrightarrow> ps_handlers ps (fst k) \<in> {Made c, Destroyed c}) \<and>
     (\<forall>t t' c. ps_handlers ps t = Made c \<longrightarrow> ps_handlers ps t' = Made c \<longrightarrow> t = t') \<and>
     (case ps_backend ps of
        None \<Rightarrow> \<forall>tid. ps_handlers ps tid = Not_Made
      | Some bk \<Rightarrow> \<exists>ts. views (fst (bk_mem bk)) ts \<and> views_typed en ts \<and>
          (\<forall>tid c. ps_handlers ps tid = Made c \<longrightarrow> live_ctx (fst (bk_mem bk)) ts c))"

definition al_fresh :: "allocation \<Rightarrow> papper \<Rightarrow> bool" where
  "al_fresh al ps \<longleftrightarrow>
     (case ps_backend ps of
        None \<Rightarrow> True
      | Some bk \<Rightarrow> rg_nodes (fst (bk_mem bk)) (al_node al) = None \<and> rg_contexts (fst (bk_mem bk)) (al_context al) = None)"

text \<open>A call site passes arguments of the types its decoding function is generated for.\<close>

definition call_typed :: "environment \<Rightarrow> u64 \<Rightarrow> (ctype \<times> cval) list \<Rightarrow> bool" where
  "call_typed en site args \<longleftrightarrow> event_typed en \<lparr>ev_site = site, ev_name = 0, ev_time = 0, ev_args = args\<rparr>"

text \<open>The steps of the process: any call of the interface by any thread, the end of a thread, a turn of the
  backend. A thread does not log after its thread-local objects are gone.\<close>

inductive papper_step :: "environment \<Rightarrow> startup \<Rightarrow> (nat \<Rightarrow> u64) \<Rightarrow> papper \<Rightarrow> papper \<Rightarrow> bool"
  for en su name_ptr
where
  step_sink: "set_sink su f flush n ps = Some (out, ps') \<Longrightarrow> papper_step en su name_ptr ps ps'"
| step_sink_filename: "set_sink_filename su fopen fname trunc flush n ps = Some (code, ps') \<Longrightarrow>
    papper_step en su name_ptr ps ps'"
| step_queue_size: "unat n \<le> 2 ^ 62 \<Longrightarrow> papper_step en su name_ptr ps (set_default_queue_size n ps)"
| step_level: "set_level su lvl ps = Some (out, ps') \<Longrightarrow> papper_step en su name_ptr ps ps'"
| step_pattern: "set_long_pattern su addr mf ml pattern ps = Some (out, ps') \<Longrightarrow> papper_step en su name_ptr ps ps'"
| step_init: "al_fresh al ps \<Longrightarrow> unat n \<le> 2 ^ 62 \<Longrightarrow> init_thread su al tid nm n ps = Some (out, ps') \<Longrightarrow>
    papper_step en su name_ptr ps ps'"
| step_log: "al_fresh al ps \<Longrightarrow> (\<And>c. ps_handlers ps tid \<noteq> Destroyed c) \<Longrightarrow> call_typed en site args \<Longrightarrow>
    log_call su name_ptr al tid inst site timestamp args ps = Some (out, ps') \<Longrightarrow> papper_step en su name_ptr ps ps'"
| step_exit: "exit_thread tid ps = Some ps' \<Longrightarrow> papper_step en su name_ptr ps ps'"
| step_turn: "ps_backend ps = Some bk \<Longrightarrow> backend_turn en cr bk = Some bk' \<Longrightarrow>
    papper_step en su name_ptr ps (ps\<lparr>ps_backend := Some bk'\<rparr>)"

inductive papper_reachable :: "environment \<Rightarrow> startup \<Rightarrow> (nat \<Rightarrow> u64) \<Rightarrow> papper \<Rightarrow> bool"
  for en su name_ptr
where
  start: "papper_reachable en su name_ptr initial_papper"
| more: "papper_reachable en su name_ptr ps \<Longrightarrow> papper_step en su name_ptr ps ps' \<Longrightarrow> papper_reachable en su name_ptr ps'"

lemma call_typed_event:
  "call_typed en site args \<Longrightarrow> event_typed en \<lparr>ev_site = site, ev_name = p, ev_time = t, ev_args = args\<rparr>"
  by (simp add: call_typed_def event_typed_def event_ok_def event_payload_def)

lemma log_impl_call_typed:
  assumes "en_sites en site = Some (log_impl_static_data lvl fmt_str args file_name function_name line)"
    and "\<forall>(t, v) \<in> set args. cval_ok t v" and "length (concat (map (\<lambda>(t, v). cval_repr t v) args)) + 32 < 2 ^ 64"
  shows "call_typed en site args"
  using assms by (simp add: call_typed_def event_typed_def event_ok_def event_payload_def log_impl_static_data_def get_decoding_function_def)

lemma papper_okI:
  assumes "unat (ps_queue_size ps) \<le> 2 ^ 62"
    and "\<And>k c. ps_cached ps k = Some c \<Longrightarrow> ps_handlers ps (fst k) \<in> {Made c, Destroyed c}"
    and "\<And>t t' c. ps_handlers ps t = Made c \<Longrightarrow> ps_handlers ps t' = Made c \<Longrightarrow> t = t'"
    and "ps_backend ps = Some bk" and "views (fst (bk_mem bk)) ts" and "views_typed en ts"
    and "\<And>tid c. ps_handlers ps tid = Made c \<Longrightarrow> live_ctx (fst (bk_mem bk)) ts c"
  shows "papper_ok en ps"
  using assms unfolding papper_ok_def by (simp only: option.case) blast

lemma papper_okE:
  assumes "papper_ok en ps" and "ps_backend ps = Some bk"
  obtains ts where "views (fst (bk_mem bk)) ts" "views_typed en ts"
    "\<And>tid c. ps_handlers ps tid = Made c \<Longrightarrow> live_ctx (fst (bk_mem bk)) ts c"
  using assms by (auto simp: papper_ok_def)

lemma papper_ok_frame:
  assumes "papper_ok en ps"
  shows "unat (ps_queue_size ps) \<le> 2 ^ 62"
    and "ps_cached ps k = Some c \<Longrightarrow> ps_handlers ps (fst k) \<in> {Made c, Destroyed c}"
    and "ps_handlers ps t = Made c \<Longrightarrow> ps_handlers ps t' = Made c \<Longrightarrow> t = t'"
    and "ps_backend ps = None \<Longrightarrow> ps_handlers ps tid = Not_Made"
  using assms unfolding papper_ok_def by (blast, blast, blast, auto)

lemma views_empty: "views empty_registry []" "views_typed en []"
  by (simp_all add: views_def views_typed_def rg_holds_def empty_registry_def ctx_ok_def ctx_of_def)

lemma new_backend_registry: "new_backend su = Some (Returns bk) \<Longrightarrow> fst (bk_mem bk) = empty_registry"
  by (auto simp: new_backend_def split: option.splits bool.splits)

lemma get_or_create_instance_ok:
  assumes ok: "papper_ok en ps" and get: "get_or_create_instance su ps = Some (out, ps1)"
  shows "papper_ok en ps1 \<and> ps_handlers ps1 = ps_handlers ps \<and> ps_cached ps1 = ps_cached ps \<and>
    (\<forall>bk. out = Returns bk \<longrightarrow> ps_backend ps1 = Some bk) \<and> (al_fresh al ps \<longrightarrow> al_fresh al ps1)"
proof (cases "ps_backend ps")
  case None
  show ?thesis
  proof (cases "\<exists>bk. new_backend su = Some (Returns bk)")
    case True
    then obtain bk where bk: "new_backend su = Some (Returns bk)" by blast
    then have r: "out = Returns bk" "ps1 = ps\<lparr>ps_backend := Some bk\<rparr>"
      using get None by (simp_all add: get_or_create_instance_def)
    note frame = papper_ok_frame [OF ok]
    have "papper_ok en ps1"
      unfolding r(2)
      by (rule papper_okI [where bk = bk and ts = "[]"])
        (use frame None new_backend_registry [OF bk] views_empty in simp_all)
    then show ?thesis
      using r new_backend_registry [OF bk] by (simp add: al_fresh_def empty_registry_def)
  next
    case False
    then have "ps1 = ps" "\<forall>bk. out \<noteq> Returns bk"
      using get None by (auto simp: get_or_create_instance_def split: option.splits outcome.splits)
    then show ?thesis using ok by simp
  qed
next
  case (Some bk)
  then show ?thesis using get ok by (auto simp: get_or_create_instance_def)
qed

lemma with_backend_ok:
  assumes ok: "papper_ok en ps" and f: "\<And>bk. fst (bk_mem (f bk)) = fst (bk_mem bk)"
    and call: "with_backend su f ps = Some (out, ps')"
  shows "papper_ok en ps'"
proof -
  obtain r ps1 where get: "get_or_create_instance su ps = Some (r, ps1)"
    using call by (auto simp: with_backend_def split: option.splits)
  have ok1: "papper_ok en ps1" and created: "\<And>bk. r = Returns bk \<Longrightarrow> ps_backend ps1 = Some bk"
    using get_or_create_instance_ok [OF ok get] by blast+
  show ?thesis
  proof (cases r)
    case (Returns bk)
    then have ps': "ps' = ps1\<lparr>ps_backend := Some (f bk)\<rparr>" using call get by (simp add: with_backend_def)
    obtain ts where "views (fst (bk_mem bk)) ts" "views_typed en ts"
        "\<And>tid c. ps_handlers ps1 tid = Made c \<Longrightarrow> live_ctx (fst (bk_mem bk)) ts c"
      using papper_okE [OF ok1 created [OF Returns]] by blast
    then show ?thesis
      unfolding ps' by (intro papper_okI [where bk = "f bk" and ts = ts]) (use papper_ok_frame [OF ok1] f in simp_all)
  next
    case (Throws e)
    then show ?thesis using call get ok1 by (simp add: with_backend_def)
  qed
qed

section \<open>Every step keeps the invariant\<close>

lemma new_thread_context_ok:
  assumes "unat n \<le> 2 ^ 62" and "new_thread_context nm n u = Some (ctx, u')"
  shows "q_holds (tc_q ctx) [] \<and> tc_is_alive ctx \<and> unat n \<le> q_cap (tc_q ctx) \<and> (nm \<noteq> [] \<longrightarrow> tc_name ctx = nm)"
proof -
  obtain q where q: "new_queue n = Some q" "q_holds q []" "unat n \<le> q_cap q" using new_queue_holds [OF assms(1)] .
  then show ?thesis using assms(2) by (auto simp: new_thread_context_def Let_def split: if_splits)
qed

lemma thread_context_handler_ok:
  assumes ok: "papper_ok en ps" and none: "ps_handlers ps tid = Not_Made" and fresh: "al_fresh al ps"
    and n: "unat n \<le> 2 ^ 62" and call: "thread_context_handler su al nm n ps = Some (Returns c, ps1)"
  shows "papper_ok en (ps1\<lparr>ps_handlers := (ps_handlers ps1)(tid := Made c)\<rparr>) \<and> ps_handlers ps1 = ps_handlers ps \<and>
    c = al_context al \<and>
    (\<exists>bk ctx. ps_backend ps1 = Some bk \<and> rg_contexts (fst (bk_mem bk)) c = Some ctx \<and>
      (nm \<noteq> [] \<longrightarrow> tc_name ctx = nm) \<and> unat n \<le> q_cap (tc_q ctx))"
proof -
  obtain ctx u where ctx: "new_thread_context nm n (ps_unnamed ps) = Some (ctx, u)"
    using call by (auto simp: thread_context_handler_def split: option.splits)
  let ?ps0 = "ps\<lparr>ps_unnamed := u\<rparr>"
  obtain bk ps2 where get: "get_or_create_instance su ?ps0 = Some (Returns bk, ps2)"
    using call ctx by (auto simp: thread_context_handler_def split: option.splits outcome.splits)
  obtain rg where reg: "register_thread al (add_context (al_context al) ctx (fst (bk_mem bk))) = Some rg"
      and c: "c = al_context al" and ps1: "ps1 = ps2\<lparr>ps_backend := Some (bk\<lparr>bk_mem := (rg, snd (bk_mem bk))\<rparr>)\<rparr>"
    using call ctx get by (auto simp: thread_context_handler_def split: option.splits)
  have ok0: "papper_ok en ?ps0" and fresh0: "al_fresh al ?ps0" using ok fresh
    by (simp_all add: papper_ok_def al_fresh_def cong: option.case_cong)
  have ok2: "papper_ok en ps2" and same: "ps_handlers ps2 = ps_handlers ps" "ps_cached ps2 = ps_cached ps"
    and bk2: "ps_backend ps2 = Some bk" and fresh2: "al_fresh al ps2"
    using get_or_create_instance_ok [OF ok0 get] fresh0 by simp_all
  obtain ts where ts: "views (fst (bk_mem bk)) ts" "views_typed en ts"
      "\<And>t c. ps_handlers ps2 t = Made c \<Longrightarrow> live_ctx (fst (bk_mem bk)) ts c"
    using papper_okE [OF ok2 bk2] by blast
  have free: "rg_nodes (fst (bk_mem bk)) (al_node al) = None" "rg_contexts (fst (bk_mem bk)) c = None"
    using fresh2 by (simp_all add: al_fresh_def bk2 c)
  note ctx_ok = new_thread_context_ok [OF n ctx]
  let ?t = "\<lparr>tv_node = al_node al, tv_alive = True, tv_events = []\<rparr>"
  have v: "views rg (?t # ts)" and ctxs: "ctx_of rg = (ctx_of (fst (bk_mem bk)))(al_node al \<mapsto> c)"
    and new_ctx: "rg_contexts rg c = Some ctx"
    using register_thread_views [OF ts(1) free(1) _ _ _ reg] free(2) ctx_ok c by auto
  have out: "tv_node t \<noteq> al_node al" if "t \<in> set ts" for t
  proof -
    have "al_node al \<notin> tv_node ` set ts" using v by (simp add: views_def rg_holds_def)
    then show ?thesis using that by (metis imageI)
  qed
  have live: "live_ctx rg (?t # ts) c'" if "live_ctx (fst (bk_mem bk)) ts c'" for c'
    using that out unfolding live_ctx_def ctxs by fastforce
  have new: "live_ctx rg (?t # ts) c" by (simp add: live_ctx_def ctxs)
  have others: "c' \<noteq> c" if "ps_handlers ps2 t = Made c'" for t c'
  proof -
    have "live_ctx (fst (bk_mem bk)) ts c'" using that by (rule ts(3))
    then obtain u where "u \<in> set ts" "ctx_of (fst (bk_mem bk)) (tv_node u) = Some c'" by (auto simp: live_ctx_def)
    moreover from this have "view_ok (fst (bk_mem bk)) u" using ts(1) by (simp add: views_def list_all_iff)
    ultimately show ?thesis using free(2) by (auto simp: view_ok_def)
  qed
  let ?ps = "ps1\<lparr>ps_handlers := (ps_handlers ps1)(tid := Made c)\<rparr>"
  note frame = papper_ok_frame [OF ok2]
  have "papper_ok en ?ps"
  proof (rule papper_okI [where bk = "bk\<lparr>bk_mem := (rg, snd (bk_mem bk))\<rparr>" and ts = "?t # ts"])
    show "ps_handlers ?ps (fst k) \<in> {Made c', Destroyed c'}" if "ps_cached ?ps k = Some c'" for k c'
      using frame(2) [of k c'] that none same by (auto simp: ps1)
    show "t = t'" if "ps_handlers ?ps t = Made c'" "ps_handlers ?ps t' = Made c'" for t t' c'
      using that frame(3) [of t c' t'] others [of t c'] others [of t' c'] by (auto simp: ps1 split: if_splits)
    show "live_ctx (fst (bk_mem (bk\<lparr>bk_mem := (rg, snd (bk_mem bk))\<rparr>))) (?t # ts) c'"
      if "ps_handlers ?ps t = Made c'" for t c'
      using that new live ts(3) by (auto simp: ps1 split: if_splits)
  qed (use frame(1) v ts(2) in \<open>simp_all add: ps1 views_typed_def\<close>)
  then show ?thesis using same ctx_ok c new_ctx by (simp add: ps1)
qed

lemma thread_context_handler_throws:
  assumes ok: "papper_ok en ps" and call: "thread_context_handler su al nm n ps = Some (Throws e, ps1)"
  shows "papper_ok en ps1"
proof -
  obtain ctx u where ctx: "new_thread_context nm n (ps_unnamed ps) = Some (ctx, u)"
    using call by (auto simp: thread_context_handler_def split: option.splits)
  obtain r where get: "get_or_create_instance su (ps\<lparr>ps_unnamed := u\<rparr>) = Some (r, ps1)"
    using call ctx by (auto simp: thread_context_handler_def split: option.splits outcome.splits)
  have "papper_ok en (ps\<lparr>ps_unnamed := u\<rparr>)" using ok by (simp add: papper_ok_def cong: option.case_cong)
  from get_or_create_instance_ok [OF this get] show ?thesis by blast
qed

lemma get_or_create_thread_queue_ok:
  assumes ok: "papper_ok en ps" and fresh: "al_fresh al ps" and n: "unat n \<le> 2 ^ 62"
    and call: "get_or_create_thread_queue su al tid nm n ps = Some (r, ps1)"
  shows "papper_ok en ps1 \<and> (\<forall>c. r = Returns c \<longrightarrow> ps_handlers ps1 tid = Made c)"
proof (cases "ps_handlers ps tid")
  case Not_Made
  show ?thesis
  proof (cases r)
    case (Returns c)
    obtain ps0 where h: "thread_context_handler su al nm n ps = Some (Returns c, ps0)"
        "ps1 = ps0\<lparr>ps_handlers := (ps_handlers ps0)(tid := Made c)\<rparr>"
      using call Not_Made Returns by (auto simp: get_or_create_thread_queue_def split: option.splits outcome.splits)
    have "papper_ok en ps1" unfolding h(2) using thread_context_handler_ok [OF ok Not_Made fresh n h(1)] by blast
    then show ?thesis using h(2) Returns by simp
  next
    case (Throws e)
    then have "thread_context_handler su al nm n ps = Some (Throws e, ps1)"
      using call Not_Made by (auto simp: get_or_create_thread_queue_def split: option.splits outcome.splits)
    then show ?thesis using thread_context_handler_throws [OF ok] Throws by simp
  qed
next
  case (Made c)
  then show ?thesis using call ok by (auto simp: get_or_create_thread_queue_def)
next
  case (Destroyed c)
  then show ?thesis using call by (simp add: get_or_create_thread_queue_def)
qed

text \<open>The lookup a log call starts with, through the cached pair or the handler.\<close>

lemma log_lookup_ok:
  assumes ok: "papper_ok en ps" and fresh: "al_fresh al ps" and alive: "\<And>c. ps_handlers ps tid \<noteq> Destroyed c"
    and look: "(case ps_cached ps (tid, inst) of
              Some c \<Rightarrow> Some (Returns c, ps)
            | None \<Rightarrow> get_or_create_thread_queue su al tid '''' (ps_queue_size ps) ps) = Some (r, ps1)"
  shows "papper_ok en ps1 \<and> (\<forall>c. r = Returns c \<longrightarrow> ps_handlers ps1 tid = Made c)"
proof (cases "ps_cached ps (tid, inst)")
  case None
  then show ?thesis using look get_or_create_thread_queue_ok [OF ok fresh papper_ok_frame(1) [OF ok]] by simp
next
  case (Some c)
  then have "ps_handlers ps tid = Made c" using papper_ok_frame(2) [OF ok Some] alive by auto
  then show ?thesis using look Some ok by auto
qed

lemma made_backend:
  assumes "papper_ok en ps" and "ps_handlers ps tid = Made c"
  obtains bk ts where "ps_backend ps = Some bk" "views (fst (bk_mem bk)) ts" "views_typed en ts"
    "live_ctx (fst (bk_mem bk)) ts c" "\<And>t c. ps_handlers ps t = Made c \<Longrightarrow> live_ctx (fst (bk_mem bk)) ts c"
proof -
  obtain bk where bk: "ps_backend ps = Some bk" using papper_ok_frame(4) [OF assms(1), of tid] assms(2)
    by (metis handler.distinct(1) option.exhaust)
  obtain ts where ts: "views (fst (bk_mem bk)) ts" "views_typed en ts"
      "\<And>t c. ps_handlers ps t = Made c \<Longrightarrow> live_ctx (fst (bk_mem bk)) ts c"
    using papper_okE [OF assms(1) bk] by blast
  show ?thesis by (rule that [OF bk ts(1,2) ts(3) [OF assms(2)] ts(3)])
qed

text \<open>A log call of a thread that has not ended returns, and keeps the invariant.\<close>

lemma log_call_runs:
  assumes ok: "papper_ok en ps" and fresh: "al_fresh al ps" and alive: "\<And>c. ps_handlers ps tid \<noteq> Destroyed c"
    and typed: "call_typed en site args"
    and look: "(case ps_cached ps (tid, inst) of
              Some c \<Rightarrow> Some (Returns c, ps)
            | None \<Rightarrow> get_or_create_thread_queue su al tid '''' (ps_queue_size ps) ps) = Some (r, ps1)"
  shows "\<exists>out ps'. log_call su name_ptr al tid inst site timestamp args ps = Some (out, ps') \<and> papper_ok en ps' \<and>
    (\<forall>c. r = Returns c \<longrightarrow> out = Returns ())"
proof (cases r)
  case (Throws e)
  then show ?thesis using look log_lookup_ok [OF ok fresh alive look] by (simp add: log_call_def)
next
  case (Returns c)
  have ok1: "papper_ok en ps1" and made: "ps_handlers ps1 tid = Made c"
    using log_lookup_ok [OF ok fresh alive look] Returns by simp_all
  obtain bk ts where bk: "ps_backend ps1 = Some bk" "views (fst (bk_mem bk)) ts" "views_typed en ts"
      "live_ctx (fst (bk_mem bk)) ts c" "\<And>t c. ps_handlers ps1 t = Made c \<Longrightarrow> live_ctx (fst (bk_mem bk)) ts c"
    using made_backend [OF ok1 made] by blast
  let ?e = "\<lparr>ev_site = site, ev_name = name_ptr c, ev_time = timestamp, ev_args = args\<rparr>"
  obtain stored rg' ts' where rg': "context_log c ?e (fst (bk_mem bk)) = Some (stored, rg')" "views rg' ts'"
      "views_typed en ts'" "\<forall>c'. live_ctx (fst (bk_mem bk)) ts c' \<longrightarrow> live_ctx rg' ts' c'"
    using context_log_views [OF bk(2,3) call_typed_event [OF typed] bk(4)] by blast
  let ?bk = "bk\<lparr>bk_mem := (rg', snd (bk_mem bk))\<rparr>"
  let ?ps = "ps1\<lparr>ps_backend := Some ?bk, ps_cached := (ps_cached ps1)((tid, inst) \<mapsto> c)\<rparr>"
  have "log_call su name_ptr al tid inst site timestamp args ps = Some (Returns (), ?ps)"
    unfolding log_call_def look using Returns bk(1) rg'(1) by simp
  moreover have "papper_ok en ?ps"
  proof (rule papper_okI [where bk = ?bk and ts = ts'])
    show "ps_handlers ?ps (fst k) \<in> {Made c', Destroyed c'}" if "ps_cached ?ps k = Some c'" for k c'
      using that papper_ok_frame(2) [OF ok1, of k c'] made by (auto split: if_splits)
    show "t = t'" if "ps_handlers ?ps t = Made c'" "ps_handlers ?ps t' = Made c'" for t t' c'
      using that papper_ok_frame(3) [OF ok1] by simp
  qed (use papper_ok_frame(1) [OF ok1] rg' bk(5) in simp_all)
  ultimately show ?thesis by simp
qed

lemma exit_thread_ok:
  assumes ok: "papper_ok en ps" and call: "exit_thread tid ps = Some ps'"
  shows "papper_ok en ps'"
proof (cases "ps_handlers ps tid")
  case (Made c)
  obtain bk ts where bk: "ps_backend ps = Some bk" "views (fst (bk_mem bk)) ts" "views_typed en ts"
      "live_ctx (fst (bk_mem bk)) ts c" "\<And>t c. ps_handlers ps t = Made c \<Longrightarrow> live_ctx (fst (bk_mem bk)) ts c"
    using made_backend [OF ok Made] by blast
  obtain rg' ts' where rg': "context_kill c (fst (bk_mem bk)) = Some rg'" "views rg' ts'" "views_typed en ts'"
      "\<forall>c'. c' \<noteq> c \<longrightarrow> live_ctx (fst (bk_mem bk)) ts c' \<longrightarrow> live_ctx rg' ts' c'"
    using context_kill_views [OF bk(2-4)] by blast
  let ?bk = "bk\<lparr>bk_mem := (rg', snd (bk_mem bk))\<rparr>"
  have ps': "ps' = ps\<lparr>ps_backend := Some ?bk, ps_handlers := (ps_handlers ps)(tid := Destroyed c)\<rparr>"
    using call Made bk(1) rg'(1) by (simp add: exit_thread_def)
  note frame = papper_ok_frame [OF ok]
  show ?thesis
    unfolding ps'
  proof (rule papper_okI [where bk = ?bk and ts = ts'])
    let ?ps = "ps\<lparr>ps_backend := Some ?bk, ps_handlers := (ps_handlers ps)(tid := Destroyed c)\<rparr>"
    show "ps_handlers ?ps (fst k) \<in> {Made c', Destroyed c'}" if "ps_cached ?ps k = Some c'" for k c'
      using that frame(2) [of k c'] Made by auto
    show "t = t'" if "ps_handlers ?ps t = Made c'" "ps_handlers ?ps t' = Made c'" for t t' c'
      using that frame(3) [of t c' t'] by (auto split: if_splits)
    show "live_ctx (fst (bk_mem ?bk)) ts' c'" if t: "ps_handlers ?ps t = Made c'" for t c'
    proof -
      have "t \<noteq> tid" "ps_handlers ps t = Made c'" using t by (auto split: if_splits)
      then have "c' \<noteq> c" "live_ctx (fst (bk_mem bk)) ts c'" using frame(3) [of t c tid] Made bk(5) by blast+
      then show ?thesis using rg'(4) by simp
    qed
  qed (use frame(1) rg'(2,3) in simp_all)
qed (use assms in \<open>auto simp: exit_thread_def\<close>)

lemma backend_turn_ok:
  assumes ok: "papper_ok en ps" and bk: "ps_backend ps = Some bk" and turn: "backend_turn en cr bk = Some bk'"
  shows "papper_ok en (ps\<lparr>ps_backend := Some bk'\<rparr>)"
proof -
  obtain ts where ts: "views (fst (bk_mem bk)) ts" "views_typed en ts"
      "\<And>t c. ps_handlers ps t = Made c \<Longrightarrow> live_ctx (fst (bk_mem bk)) ts c"
    using papper_okE [OF ok bk] by blast
  obtain rc o1 any o2 where poll: "poll_threads (with_clock rc en) (fst (bk_mem bk), o1) = Some (any, fst (bk_mem bk'), o2)"
    using turn by (auto simp: backend_turn_def Let_def split: prod.splits option.splits)
  have "views_typed (with_clock rc en) ts" using ts(2) by simp
  from poll_threads_views [OF ts(1) this poll] obtain ts' where
    "views (fst (bk_mem bk')) ts'" "views_typed (with_clock rc en) ts'"
    "\<forall>c. live_ctx (fst (bk_mem bk)) ts c \<longrightarrow> live_ctx (fst (bk_mem bk')) ts' c"
    by blast
  then show ?thesis
    by (intro papper_okI [where bk = bk' and ts = ts']) (use papper_ok_frame [OF ok] ts(3) in simp_all)
qed

lemma init_thread_ok:
  assumes "papper_ok en ps" and "al_fresh al ps" and "unat n \<le> 2 ^ 62"
    and "init_thread su al tid nm n ps = Some (out, ps')"
  shows "papper_ok en ps'"
proof -
  obtain r where "get_or_create_thread_queue su al tid nm n ps = Some (r, ps')"
    using assms(4) by (auto simp: init_thread_def split: option.splits outcome.splits)
  then show ?thesis using get_or_create_thread_queue_ok [OF assms(1-3)] by blast
qed

lemma log_call_ok:
  assumes "papper_ok en ps" and "al_fresh al ps" and "\<And>c. ps_handlers ps tid \<noteq> Destroyed c"
    and "call_typed en site args" and call: "log_call su name_ptr al tid inst site timestamp args ps = Some (out, ps')"
  shows "papper_ok en ps'"
proof -
  obtain r ps1 where look: "(case ps_cached ps (tid, inst) of
        Some c \<Rightarrow> Some (Returns c, ps)
      | None \<Rightarrow> get_or_create_thread_queue su al tid '''' (ps_queue_size ps) ps) = Some (r, ps1)"
    using call by (fastforce simp: log_call_def split: option.splits)
  show ?thesis using log_call_runs [OF assms(1-4) look, of name_ptr timestamp] call by auto
qed

lemma set_sink_ok: "papper_ok en ps \<Longrightarrow> set_sink su f flush n ps = Some (out, ps') \<Longrightarrow> papper_ok en ps'"
  unfolding set_sink_def by (erule with_backend_ok [rotated 2]) (simp_all add: backend_queue_new_sink_def)

lemma papper_step_ok: "papper_step en su name_ptr ps ps' \<Longrightarrow> papper_ok en ps \<Longrightarrow> papper_ok en ps'"
proof (induction rule: papper_step.induct)
  case (step_sink f flush n ps out ps')
  then show ?case using set_sink_ok by blast
next
  case (step_sink_filename fopen fname trunc flush n ps code ps')
  then have "ps' = ps \<or> (\<exists>f out. set_sink su f flush n ps = Some (out, ps'))"
    by (auto simp: set_sink_filename_def split: sum.splits option.splits outcome.splits)
  then show ?case using set_sink_ok step_sink_filename.prems by blast
next
  case (step_queue_size n ps)
  then show ?case by (simp add: papper_ok_def set_default_queue_size_def cong: option.case_cong)
next
  case (step_level lvl ps out ps')
  then show ?case
    using with_backend_ok [OF step_level(2) _ step_level(1) [unfolded set_level_def]]
    by (simp add: set_new_minimum_log_level_def)
next
  case (step_pattern addr mf ml pattern ps out ps')
  then obtain p where p: "with_backend su (queue_new_pattern_formatter (Some \<lparr>fo_address = addr, fo_pattern = p\<rparr>)) ps = Some (out, ps')"
    by (auto simp: set_long_pattern_def split: option.splits if_splits)
  show ?case using with_backend_ok [OF step_pattern(2) _ p] by (simp add: queue_new_pattern_formatter_def)
next
  case (step_init al ps n tid nm out ps')
  then show ?case using init_thread_ok by blast
next
  case (step_log al ps tid site args inst timestamp out ps')
  then show ?case using log_call_ok by blast
next
  case (step_exit tid ps ps')
  then show ?case using exit_thread_ok by blast
next
  case (step_turn ps bk cr bk')
  then show ?case using backend_turn_ok by blast
qed

lemma initial_papper_ok: "papper_ok en initial_papper"
  by (simp add: papper_ok_def initial_papper_def)

lemma papper_reachable_ok: "papper_reachable en su name_ptr ps \<Longrightarrow> papper_ok en ps"
  by (induction rule: papper_reachable.induct) (auto simp: initial_papper_ok intro: papper_step_ok)

lemma get_or_create_instance_defined:
  assumes "new_backend su \<noteq> None"
  shows "\<exists>r ps1. get_or_create_instance su ps = Some (r, ps1)"
proof (cases "ps_backend ps")
  case None
  obtain r where "new_backend su = Some r" using assms by blast
  then show ?thesis using None by (cases r) (simp_all add: get_or_create_instance_def)
qed (simp add: get_or_create_instance_def)

lemma lookup_defined:
  assumes ok: "papper_ok en ps" and fresh: "al_fresh al ps" and alive: "\<And>c. ps_handlers ps tid \<noteq> Destroyed c"
    and n: "unat n \<le> 2 ^ 62" and su: "new_backend su \<noteq> None" and att: "False \<in> set (al_attempts al)"
  shows "\<exists>r ps1. get_or_create_thread_queue su al tid nm n ps = Some (r, ps1) \<and>
    ((\<exists>c. r = Returns c) \<or> su_tick su = None)"
proof (cases "ps_handlers ps tid")
  case Not_Made
  obtain q where "new_queue n = Some q" using new_queue_holds [OF n] by blast
  then obtain ctx u where ctx: "new_thread_context nm n (ps_unnamed ps) = Some (ctx, u)"
    by (cases "nm = []") (simp_all add: new_thread_context_def Let_def)
  obtain r ps1 where get: "get_or_create_instance su (ps\<lparr>ps_unnamed := u\<rparr>) = Some (r, ps1)"
    using get_or_create_instance_defined [OF su] by blast
  show ?thesis
  proof (cases r)
    case (Returns bk)
    let ?rg = "register_begin (al_node al) (al_context al) (add_context (al_context al) ctx (fst (bk_mem bk)))"
    have "rg_nodes ?rg (al_node al) = Some \<lparr>nd_context = al_context al, nd_next = rg_head (fst (bk_mem bk))\<rparr>"
        "rg_head ?rg = rg_head (fst (bk_mem bk))"
      by (simp_all add: register_begin_def add_context_def)
    then obtain rg where "register_thread al (add_context (al_context al) ctx (fst (bk_mem bk))) = Some rg"
      using register_loop_returns [OF att] unfolding register_thread_def by fastforce
    then show ?thesis
      using Not_Made ctx get Returns by (simp add: get_or_create_thread_queue_def thread_context_handler_def)
  next
    case (Throws e)
    have "su_tick su = None"
      using get Throws su
      by (auto simp: get_or_create_instance_def new_backend_def init_clock_def split: option.splits outcome.splits bool.splits)
    then show ?thesis
      using Not_Made ctx get Throws by (simp add: get_or_create_thread_queue_def thread_context_handler_def)
  qed
qed (use alive in \<open>auto simp: get_or_create_thread_queue_def\<close>)

section \<open>The end of the process\<close>

text \<open>When all threads have ended, destroying the backend prints every event that was left and then closes
  what has to be closed; no output is lost by closing.\<close>

lemma sink_dtor_output: "file_output f (sk_io (sink_dtor s)) = file_output f (sk_io s)"
  by (simp add: sink_defs Let_def split: option.split)

lemma backend_dtor_flushes:
  assumes "fmt_renders sh (en_vformat en)" and "bk_mem bk = (rg, o1)" and "outputs_ready en mf ml toks o1"
    and "views rg ts" and "clock_prints en ts reads (bk_resync bk)" and "list_all (\<lambda>t. \<not> tv_alive t) ts"
  shows "\<exists>o2 ces. backend_dtor en reads bk = Some o2 \<and> mset (map snd ces) = all_events ts \<and>
    (\<forall>t \<in> set ts. subseq (tv_events t) (map snd ces)) \<and> (\<forall>c \<in> set (map fst ces). clock_seen reads (bk_resync bk) c) \<and>
    file_output (sk_file (o_sink o1)) (sk_io (o_sink o2)) =
      file_output (sk_file (o_sink o1)) (sk_io (o_sink o1)) @
      concat (map (\<lambda>(c, e). event_line (with_clock c en) sh toks (o_min_level o1) e) ces)"
  using drain_loop_flushes [OF assms(1,3-6)] assms(2)
  by (fastforce simp: backend_dtor_def prints_clocked_def sink_dtor_output)

section \<open>Properties\<close>

text \<open>C9. The whole process stays well formed: whatever the threads call, in any order, wherever the
  backend takes its turns and threads end, the registered threads form a proper list, every queue
  holds whole encoded events of the types their call sites decode, a thread that has not ended has
  its own context in that list, not shared with another thread, and the pointers cached in the log
  macros are those of the thread's handler.\<close>
theorem papper_state_wellformed:
  assumes "papper_reachable en su name_ptr ps"
  shows "papper_ok en ps"
  by (rule papper_reachable_ok [OF assms])

definition demo_startup :: startup where
  "demo_startup = \<lparr>su_tick = Some (1, 0), su_reads = demo_reads, su_clock = rc_clock demo_resync, su_formatter = 0\<rparr>"

definition demo_al :: allocation where
  "demo_al = \<lparr>al_context = 11, al_node = 1, al_attempts = [True, False]\<rparr>"

definition demo_started_backend :: backend where
  "demo_started_backend = \<lparr>bk_mem = (empty_registry,
     \<lparr>o_sink = new_sink_handler, o_formatter = new_formatter_handler 0, o_caches = initial_caches,
      o_min_level = level_code Trace\<rparr>), bk_resync = demo_resync, bk_backoff_us = 1\<rparr>"

lemma demo_new_backend: "new_backend demo_startup = Some (Returns demo_started_backend)"
proof -
  have "average_tsc 0 0 = 0" using average_tsc_exact [of 0 0] by simp
  then show ?thesis
    by (simp add: new_backend_def demo_startup_def init_clock_def sync_to_system_clock_def recalculate_utc_offset_def
        demo_reads_def demo_resync_def initial_resync_def demo_started_backend_def)
qed

lemma demo_backend: "\<exists>bk. new_backend demo_startup = Some (Returns bk)"
  using demo_new_backend by blast

lemma demo_call_typed: "call_typed demo_env 4096 (ev_args demo_event)"
  using demo_event_typed
  by (simp add: call_typed_def event_typed_def event_ok_def event_payload_def demo_event_def)

lemma demo_al_fresh: "al_fresh demo_al initial_papper"
  by (simp add: al_fresh_def initial_papper_def)

lemma demo_init_runs:
  "\<exists>ps. init_thread demo_startup demo_al 1 ''worker'' 4096 initial_papper = Some (Returns (), ps) \<and>
     papper_reachable demo_env demo_startup of_nat ps \<and> ps_handlers ps 1 \<noteq> Not_Made"
proof -
  have alive: "\<And>c. ps_handlers initial_papper 1 \<noteq> Destroyed c" by (simp add: initial_papper_def)
  have su: "new_backend demo_startup \<noteq> None" "su_tick demo_startup \<noteq> None" using demo_backend by (auto simp: demo_startup_def)
  have size: "unat (4096 :: u64) \<le> 2 ^ 62" and att: "False \<in> set (al_attempts demo_al)" by (simp_all add: demo_al_def)
  obtain c ps where look: "get_or_create_thread_queue demo_startup demo_al 1 ''worker'' 4096 initial_papper = Some (Returns c, ps)"
    using lookup_defined [OF initial_papper_ok demo_al_fresh alive size su(1) att, of "''worker''"] su(2) by auto
  have made: "ps_handlers ps 1 = Made c"
    using get_or_create_thread_queue_ok [OF initial_papper_ok demo_al_fresh size look] by simp
  have init: "init_thread demo_startup demo_al 1 ''worker'' 4096 initial_papper = Some (Returns (), ps)"
    using look by (simp add: init_thread_def)
  have "papper_step demo_env demo_startup of_nat initial_papper ps"
    by (rule papper_step.step_init [OF demo_al_fresh size init])
  then have "papper_reachable demo_env demo_startup of_nat ps" by (rule papper_reachable.more [OF papper_reachable.start])
  then show ?thesis using init made by auto
qed

lemma papper_state_wellformed_witness:
  "\<exists>ps. init_thread demo_startup demo_al 1 ''worker'' 4096 initial_papper = Some (Returns (), ps) \<and> papper_ok demo_env ps"
  using demo_init_runs papper_state_wellformed by blast


text \<open>C11. A log call never does anything undefined: in every reachable state, on a thread that has not
  ended, it returns; it throws at most when the backend cannot be started for want of an invariant TSC.
  (The allocator gives fresh memory, the exchange does not fail spuriously for ever, and the clock
  can be read.)\<close>
theorem log_call_never_undefined:
  assumes "papper_reachable en su name_ptr ps" and "\<forall>c. ps_handlers ps tid \<noteq> Destroyed c"
    and "call_typed en site args" and "al_fresh al ps" and "False \<in> set (al_attempts al)" and "new_backend su \<noteq> None"
  shows "\<exists>out ps'. log_call su name_ptr al tid inst site timestamp args ps = Some (out, ps') \<and>
    (out = Returns () \<or> su_tick su = None)"
proof -
  note ok = papper_reachable_ok [OF assms(1)]
  have alive: "\<And>c. ps_handlers ps tid \<noteq> Destroyed c" using assms(2) by blast
  obtain r ps1 where look: "(case ps_cached ps (tid, inst) of
        Some c \<Rightarrow> Some (Returns c, ps)
      | None \<Rightarrow> get_or_create_thread_queue su al tid '''' (ps_queue_size ps) ps) = Some (r, ps1)"
      "(\<exists>c. r = Returns c) \<or> su_tick su = None"
  proof (cases "ps_cached ps (tid, inst)")
    case None
    obtain r ps1 where "get_or_create_thread_queue su al tid [] (ps_queue_size ps) ps = Some (r, ps1)"
        "(\<exists>c. r = Returns c) \<or> su_tick su = None"
      using lookup_defined [OF ok assms(4) alive papper_ok_frame(1) [OF ok] assms(6,5), of "[]"] by blast
    then show ?thesis using that None by simp
  next
    case (Some c)
    then show ?thesis using that by simp
  qed
  show ?thesis using log_call_runs [OF ok assms(4) alive assms(3) look(1), of name_ptr timestamp] look(2) by blast
qed

lemma log_call_never_undefined_witness:
  "\<exists>ps'. log_call demo_startup of_nat demo_al 1 0 4096 58089000071000 (ev_args demo_event) initial_papper = Some (Returns (), ps')"
proof -
  have "new_backend demo_startup \<noteq> None" "su_tick demo_startup \<noteq> None" using demo_backend by (auto simp: demo_startup_def)
  moreover have "\<forall>c. ps_handlers initial_papper 1 \<noteq> Destroyed c" by (simp add: initial_papper_def)
  moreover have "False \<in> set (al_attempts demo_al)" by (simp add: demo_al_def)
  ultimately show ?thesis
    using log_call_never_undefined [OF papper_reachable.start [of demo_env demo_startup of_nat] _ demo_call_typed demo_al_fresh,
        of 1 0 58089000071000] by auto
qed


text \<open>C32. Logging after the end of the thread-local objects uses freed memory: the pair cached by the log
  macro outlives the handler, so a destructor of another thread-local object that logs after the handler
  is destroyed reaches a context which, once its queue is empty and the backend has taken a turn,
  does not exist any more.\<close>
theorem log_after_handler_destroyed:
  assumes "ps_handlers ps tid = Made c" and "ps_cached ps (tid, inst) = Some c" and "ps_backend ps = Some bk"
    and "views (fst (bk_mem bk)) [t]" and "tv_events t = []" and "ctx_of (fst (bk_mem bk)) (tv_node t) = Some c"
    and "exit_thread tid ps = Some ps1" and "ps_backend ps1 = Some bk1" and "backend_turn en cr bk1 = Some bk2"
  shows "log_call su name_ptr al tid inst site timestamp args (ps1\<lparr>ps_backend := Some bk2\<rparr>) = None"
proof -
  let ?rg = "fst (bk_mem bk)" and ?t = "t\<lparr>tv_alive := False\<rparr>"
  obtain nd ctx where n: "rg_nodes ?rg (tv_node t) = Some nd" "nd_context nd = c" "rg_contexts ?rg c = Some ctx"
    using views_node_ctx [OF _ assms(6), of "[]" "[]"] assms(4) by (metis append_Nil)
  let ?rg1 = "?rg\<lparr>rg_contexts := (rg_contexts ?rg)(c \<mapsto> kill ctx)\<rparr>"
  have rg1: "fst (bk_mem bk1) = ?rg1" and cached: "ps_cached ps1 = ps_cached ps"
    using assms(1,3,7,8) n(3) by (auto simp: exit_thread_def context_kill_def)
  have "thread_exit (tv_node t) ?rg = Some ?rg1" using n by (simp add: thread_exit_def)
  then have v1: "views ?rg1 ([] @ ?t # [])" using views_kill [of ?rg "[]" t "[]"] assms(4) by auto
  obtain rc o1 any o2 where poll: "poll_threads (with_clock rc en) (?rg1, o1) = Some (any, fst (bk_mem bk2), o2)"
    using assms(9) rg1 by (auto simp: backend_turn_def Let_def split: prod.splits option.splits)
  let ?en = "with_clock rc en"
  obtain rg2 where rg2: "poll_read ?en (tv_node ?t) (?rg1, o1) = Some (False, rg2, o1)" "views rg2 ([] @ ?t # [])"
    using poll_read_none [OF v1, of ?en o1] assms(5) by auto
  have holds: "rg_holds rg2 [tv_node t]" using rg2(2) by (simp add: views_def)
  have ctx2: "ctx_of rg2 (tv_node t) = Some c"
  proof -
    have "view_ok rg2 ?t" using rg2(2) by (simp add: views_def)
    then obtain c' where c': "ctx_of rg2 (tv_node t) = Some c'" by (auto simp: view_ok_def)
    have "ctx_kept ?rg1 rg2" using poll_read_kept [OF rg2(1)] by simp
    then have "ctx_of ?rg1 (tv_node t) = Some c'" using c' by (simp add: ctx_kept_def)
    then show ?thesis using c' n(1,2) by (simp add: ctx_of_def)
  qed
  obtain rg3 where rg3: "remove_and_delete_node (Some (tv_node t)) rg2 = Some rg3" "freed (tv_node t) rg2 rg3"
    using remove_and_delete_node_law [OF holds, of "tv_node t"] by auto
  have reap: "poll_reap (tv_node ?t) rg2 = Some rg3"
  proof -
    obtain nd2 ctx2 where "rg_nodes rg2 (tv_node ?t) = Some nd2" "rg_contexts rg2 (nd_context nd2) = Some ctx2"
        "tc_is_alive ctx2 = tv_alive ?t"
      using views_node [OF rg2(2)] by metis
    then show ?thesis using rg3(1) by (simp add: poll_reap_def thread_is_alive_def)
  qed
  have head: "rg_head ?rg1 = Some (tv_node ?t)" using v1 by (simp add: views_def rg_holds_def)
  have "fst (bk_mem bk2) = rg3"
    using poll poll_loop_node [of "(?rg1, o1)" "[]" ?t "[]" ?en False, unfolded fst_conv, OF v1] rg2(1) reap
    unfolding poll_threads_def fst_conv head by (simp add: poll_loop.simps)
  then have "rg_contexts (fst (bk_mem bk2)) c = None" using rg3(2) ctx2 by (simp add: freed_def)
  then show ?thesis using assms(2) cached by (simp add: log_call_def context_log_def)
qed

definition single_registry :: "queue \<Rightarrow> registry" where
  "single_registry q = \<lparr>rg_head = Some 1, rg_nodes = (\<lambda>a. None)(1 \<mapsto> \<lparr>nd_context = 11, nd_next = None\<rparr>),
     rg_contexts = (\<lambda>a. None)(11 \<mapsto> demo_ctx True q)\<rparr>"

definition single_papper :: "queue \<Rightarrow> papper" where
  "single_papper q = initial_papper\<lparr>
     ps_backend := Some \<lparr>bk_mem = (single_registry q, demo_outputs), bk_resync = demo_resync, bk_backoff_us = 1\<rparr>,
     ps_handlers := (\<lambda>tid. Not_Made)(1 := Made 11), ps_cached := (\<lambda>k. None)((1, 0) \<mapsto> 11)\<rparr>"

lemma single_views: "q_holds q [] \<Longrightarrow> views (single_registry q) [\<lparr>tv_node = 1, tv_alive = True, tv_events = []\<rparr>]"
  by (auto simp: views_def rg_holds_def single_registry_def view_ok_def ctx_of_def ctx_ok_def demo_ctx_def split: if_splits)

lemma log_after_handler_destroyed_witness:
  "\<exists>q ps1 bk1 bk2. exit_thread 1 (single_papper q) = Some ps1 \<and> ps_backend ps1 = Some bk1 \<and>
     backend_turn demo_env demo_reads bk1 = Some bk2 \<and>
     log_call demo_startup of_nat demo_al 1 0 4096 58089000071000 (ev_args demo_event) (ps1\<lparr>ps_backend := Some bk2\<rparr>) = None"
proof -
  obtain q where q: "q_holds q []" using demo_queues by metis
  let ?t = "\<lparr>tv_node = 1, tv_alive = True, tv_events = []\<rparr>" and ?ps = "single_papper q"
  let ?bk = "\<lparr>bk_mem = (single_registry q, demo_outputs), bk_resync = demo_resync, bk_backoff_us = 1\<rparr>"
  have ps: "ps_handlers ?ps 1 = Made 11" "ps_cached ?ps (1, 0) = Some 11" "ps_backend ?ps = Some ?bk"
    by (simp_all add: single_papper_def)
  have v: "views (fst (bk_mem ?bk)) [?t]" using single_views [OF q] by simp
  have typed: "views_typed demo_env [?t]" by (simp add: views_typed_def)
  have ctx: "ctx_of (fst (bk_mem ?bk)) (tv_node ?t) = Some 11" by (simp add: ctx_of_def single_registry_def)
  then have "live_ctx (fst (bk_mem ?bk)) [?t] 11" by (simp add: live_ctx_def)
  from context_kill_views [OF v typed this] obtain rg1 where kill: "context_kill 11 (single_registry q) = Some rg1" by auto
  let ?bk1 = "\<lparr>bk_mem = (rg1, demo_outputs), bk_resync = demo_resync, bk_backoff_us = 1\<rparr>"
  define ps1 where "ps1 = ?ps\<lparr>ps_backend := Some ?bk1, ps_handlers := (ps_handlers ?ps)(1 := Destroyed 11)\<rparr>"
  have exits: "exit_thread 1 ?ps = Some ps1" "ps_backend ps1 = Some ?bk1"
    using ps kill by (simp_all add: exit_thread_def ps1_def)
  have "thread_exit (tv_node ?t) (single_registry q) = Some rg1"
    using kill by (simp add: thread_exit_def context_kill_def single_registry_def)
  then have v1: "views rg1 [?t\<lparr>tv_alive := False\<rparr>]"
    using views_kill [of "single_registry q" "[]" ?t "[]"] v by auto
  have typed1: "views_typed (with_clock demo_resync demo_env) [?t\<lparr>tv_alive := False\<rparr>]" by (simp add: views_typed_def)
  obtain rg2 where "poll_threads (with_clock demo_resync demo_env) (rg1, switched demo_outputs) =
      Some (False, rg2, switched demo_outputs)"
    using poll_threads_pass [OF v1 typed1, of "switched demo_outputs"] by (auto simp: pass_agrees_def)
  then have "\<exists>bk2. backend_turn demo_env demo_reads ?bk1 = Some bk2"
    using demo_resync_idle by (simp add: backend_turn_def switched_def)
  then obtain bk2 where turn: "backend_turn demo_env demo_reads ?bk1 = Some bk2" by blast
  have "log_call demo_startup of_nat demo_al 1 0 4096 58089000071000 (ev_args demo_event) (ps1\<lparr>ps_backend := Some bk2\<rparr>) = None"
    by (rule log_after_handler_destroyed [OF ps v _ ctx exits turn]) simp
  then show ?thesis using exits turn by (intro exI conjI)
qed


text \<open>The first call of a thread decides: after \<open>init_thread\<close> on a new thread its context has the
  given name and a queue of at least the given size, and every later \<open>init_thread\<close> of that thread,
  whatever name and size it asks for, changes nothing.\<close>
theorem init_thread_first_call_counts:
  assumes "papper_reachable en su name_ptr ps" and "ps_handlers ps tid = Not_Made" and "al_fresh al ps"
    and "unat n \<le> 2 ^ 62" and "nm \<noteq> []" and "init_thread su al tid nm n ps = Some (Returns (), ps1)"
  shows "\<exists>bk ctx. ps_backend ps1 = Some bk \<and> rg_contexts (fst (bk_mem bk)) (al_context al) = Some ctx \<and>
    tc_name ctx = nm \<and> unat n \<le> q_cap (tc_q ctx) \<and> init_thread su al' tid nm' n' ps1 = Some (Returns (), ps1)"
proof -
  obtain c ps0 where h: "thread_context_handler su al nm n ps = Some (Returns c, ps0)"
      "ps1 = ps0\<lparr>ps_handlers := (ps_handlers ps0)(tid := Made c)\<rparr>"
    using assms(2,6) by (auto simp: init_thread_def get_or_create_thread_queue_def split: option.splits outcome.splits)
  from thread_context_handler_ok [OF papper_reachable_ok [OF assms(1)] assms(2-4) h(1)]
  obtain bk ctx where c: "c = al_context al" and bk: "ps_backend ps0 = Some bk" "rg_contexts (fst (bk_mem bk)) c = Some ctx"
      "tc_name ctx = nm" "unat n \<le> q_cap (tc_q ctx)"
    using assms(5) by blast
  have "init_thread su al' tid nm' n' ps1 = Some (Returns (), ps1)"
    by (simp add: init_thread_def get_or_create_thread_queue_def h(2))
  then show ?thesis using bk c h(2) by auto
qed

lemma init_thread_first_call_counts_witness:
  "\<exists>ps bk ctx. init_thread demo_startup demo_al 1 ''worker'' 4096 initial_papper = Some (Returns (), ps) \<and>
     ps_backend ps = Some bk \<and> rg_contexts (fst (bk_mem bk)) 11 = Some ctx \<and> tc_name ctx = ''worker'' \<and>
     4096 \<le> q_cap (tc_q ctx) \<and> init_thread demo_startup demo_al 1 ''other'' 8192 ps = Some (Returns (), ps)"
proof -
  obtain ps where ps: "init_thread demo_startup demo_al 1 ''worker'' 4096 initial_papper = Some (Returns (), ps)"
    using demo_init_runs by blast
  have none: "ps_handlers initial_papper 1 = Not_Made" by (simp add: initial_papper_def)
  show ?thesis
    using init_thread_first_call_counts [OF papper_reachable.start [of demo_env demo_startup of_nat] none demo_al_fresh _ _ ps,
        of demo_al "''other''" 8192] ps
    by (auto simp: demo_al_def)
qed


end
