(* ===== verification/Concurrent.thy ===== *)
theory Concurrent
  imports Api
begin

text \<open>
  The backend thread and the logging threads of \<open>include/papper/detail/core.h\<close> running at the same time.
  The loops of the backend are cut into the steps between which other threads can act: the top of a
  loop, the load of the list head, serving one queue, the question whether the thread is alive, the
  exchange and the unlinking that remove a node. A thread creates its context, runs the
  compare-and-exchange loop of \<open>register_thread\<close>, logs, and ends; other calls replace the pending sink or
  formatter or the level, or clear \<open>_running\<close>. Any order of these steps is an execution.

  Reading and writing one queue are single steps here; what happens inside them is the subject of \<open>Spsc\<close>.
  \<open>None\<close> is an access to memory that does not exist (any more) or another undefined operation.
\<close>

section \<open>The program\<close>

datatype backend_pc =
  Loop_Top | Pass_Start | At "nat option"
| Check nat "nat option" | Remove nat "nat option" | Unlink nat "nat option" "nat option"
| Finished

text \<open>A thread: before its first call, in \<open>register_thread\<close> with its node and context, registered with its
  context, after its end.\<close>

datatype thread_state = T_New | T_Registering nat nat | T_Running nat | T_Ended

record system =
  sy_bk :: backend
  sy_running :: bool
  sy_draining :: bool
  sy_any :: bool
  sy_pc :: backend_pc
  sy_unnamed :: u32
  sy_threads :: "nat \<Rightarrow> thread_state"

abbreviation rg_of :: "system \<Rightarrow> registry" where "rg_of s \<equiv> fst (bk_mem (sy_bk s))"

abbreviation out_of :: "system \<Rightarrow> outputs" where "out_of s \<equiv> snd (bk_mem (sy_bk s))"

definition set_mem :: "backend_mem \<Rightarrow> system \<Rightarrow> system" where
  "set_mem bm s = s\<lparr>sy_bk := (sy_bk s)\<lparr>bk_mem := bm\<rparr>\<rparr>"

definition set_registry :: "registry \<Rightarrow> system \<Rightarrow> system" where
  "set_registry rg s = set_mem (rg, out_of s) s"

lemma set_mem_simps [simp]:
  "bk_mem (sy_bk (set_mem bm s)) = bm" "bk_resync (sy_bk (set_mem bm s)) = bk_resync (sy_bk s)"
  "sy_threads (set_mem bm s) = sy_threads s" "sy_pc (set_mem bm s) = sy_pc s"
  "sy_running (set_mem bm s) = sy_running s"
  by (simp_all add: set_mem_def)

lemma set_registry_simps [simp]:
  "bk_mem (sy_bk (set_registry rg s)) = (rg, out_of s)" "sy_threads (set_registry rg s) = sy_threads s"
  "sy_pc (set_registry rg s) = sy_pc s"
  by (simp_all add: set_registry_def)

text \<open>The top of the two loops: the main loop while \<open>_running\<close> is set, then the loop that drains the queues.\<close>

definition loop_top_step :: "clock_reads \<Rightarrow> system \<Rightarrow> system option" where
  "loop_top_step cr s =
     (let (rg, o1) = bk_mem (sy_bk s);
          o2 = o1\<lparr>o_sink := poll_for_pending_sink_switch (o_sink o1)\<rparr>;
          o3 = o2\<lparr>o_formatter := poll_for_pending_formatter_switch (o_formatter o2)\<rparr>;
          start = (\<lambda>draining o' rc. s\<lparr>sy_bk := (sy_bk s)\<lparr>bk_mem := (rg, o'), bk_resync := rc\<rparr>,
                                       sy_draining := draining, sy_pc := Pass_Start\<rparr>)
      in if sy_running s then map_option (start False o3) (try_resync_clock cr (bk_resync (sy_bk s)))
         else if rg_head rg = None then Some (s\<lparr>sy_pc := Finished\<rparr>)
         else map_option (start True o1) (try_resync_clock cr (bk_resync (sy_bk s))))"

text \<open>One iteration of the loop of \<open>poll_threads\<close>, up to the end of the \<open>if\<close> branch.\<close>

definition serve_step :: "environment \<Rightarrow> nat \<Rightarrow> system \<Rightarrow> system option" where
  "serve_step en n s =
     (case rg_nodes (rg_of s) n of
        None \<Rightarrow> None
      | Some nd \<Rightarrow>
          (case poll_read (with_clock (bk_resync (sy_bk s)) en) n (bk_mem (sy_bk s)) of
             None \<Rightarrow> None
           | Some (any, bm) \<Rightarrow>
               Some ((set_mem bm s)\<lparr>sy_any := (sy_any s \<or> any),
                 sy_pc := (if any then At (nd_next nd) else Check n (nd_next nd))\<rparr>)))"

text \<open>The rest of the iteration: \<open>thread_is_alive\<close>, then the two halves of \<open>remove_and_delete_node\<close>.\<close>

definition check_step :: "nat \<Rightarrow> nat option \<Rightarrow> system \<Rightarrow> system option" where
  "check_step n next s =
     (case rg_nodes (rg_of s) n of
        None \<Rightarrow> None
      | Some nd \<Rightarrow>
          (case rg_contexts (rg_of s) (nd_context nd) of
             None \<Rightarrow> None
           | Some ctx \<Rightarrow> Some (s\<lparr>sy_pc := (if thread_is_alive ctx then At next else Remove n next)\<rparr>)))"

definition remove_step :: "nat \<Rightarrow> nat option \<Rightarrow> system \<Rightarrow> system option" where
  "remove_step n next s =
     (case remove_cas n (rg_of s) of
        None \<Rightarrow> None
      | Some (Inl rg) \<Rightarrow> Some ((set_registry rg s)\<lparr>sy_pc := At next\<rparr>)
      | Some (Inr expected) \<Rightarrow> Some (s\<lparr>sy_pc := Unlink n expected next\<rparr>))"

definition unlink_step :: "nat \<Rightarrow> nat option \<Rightarrow> nat option \<Rightarrow> system \<Rightarrow> system option" where
  "unlink_step n expected next s =
     map_option (\<lambda>rg. (set_registry rg s)\<lparr>sy_pc := At next\<rparr>) (remove_unlink n expected (rg_of s))"

definition pass_end_step :: "system \<Rightarrow> system" where
  "pass_end_step s = s\<lparr>sy_pc := Loop_Top, sy_bk := (sy_bk s)\<lparr>bk_backoff_us :=
     (if sy_draining s then bk_backoff_us (sy_bk s) else next_backoff (sy_any s) (bk_backoff_us (sy_bk s)))\<rparr>\<rparr>"

definition backend_step :: "environment \<Rightarrow> clock_reads \<Rightarrow> system \<Rightarrow> system option" where
  "backend_step en cr s =
     (case sy_pc s of
        Loop_Top \<Rightarrow> loop_top_step cr s
      | Pass_Start \<Rightarrow> Some (s\<lparr>sy_any := False, sy_pc := At (rg_head (rg_of s))\<rparr>)
      | At None \<Rightarrow> Some (pass_end_step s)
      | At (Some n) \<Rightarrow> serve_step en n s
      | Check n next \<Rightarrow> check_step n next s
      | Remove n next \<Rightarrow> remove_step n next s
      | Unlink n expected next \<Rightarrow> unlink_step n expected next s
      | Finished \<Rightarrow> Some s)"

text \<open>The threads. \<open>thread_begin\<close> is the constructor of \<open>ThreadContextHandler\<close> up to the first exchange,
  \<open>thread_cas\<close> one round of the loop of \<open>register_thread\<close>, \<open>thread_end\<close> the destructor of the handler.\<close>

definition thread_begin :: "nat \<Rightarrow> string \<Rightarrow> u64 \<Rightarrow> nat \<Rightarrow> nat \<Rightarrow> system \<Rightarrow> system option" where
  "thread_begin tid thread_name queue_size c n s =
     (case new_thread_context thread_name queue_size (sy_unnamed s) of
        None \<Rightarrow> None
      | Some (ctx, unnamed) \<Rightarrow>
          Some ((set_registry (register_begin n c (add_context c ctx (rg_of s))) s)
            \<lparr>sy_unnamed := unnamed, sy_threads := (sy_threads s)(tid := T_Registering n c)\<rparr>))"

definition thread_cas :: "bool \<Rightarrow> nat \<Rightarrow> system \<Rightarrow> system option" where
  "thread_cas spurious tid s =
     (case sy_threads s tid of
        T_Registering n c \<Rightarrow>
          (case register_cas spurious n (rg_of s) of
             None \<Rightarrow> None
           | Some (ok, rg) \<Rightarrow>
               Some ((set_registry rg s)\<lparr>sy_threads :=
                 (if ok then (sy_threads s)(tid := T_Running c) else sy_threads s)\<rparr>))
      | _ \<Rightarrow> None)"

definition thread_push :: "nat \<Rightarrow> log_event \<Rightarrow> system \<Rightarrow> (bool \<times> system) option" where
  "thread_push tid e s =
     (case sy_threads s tid of
        T_Running c \<Rightarrow> map_option (\<lambda>(stored, rg). (stored, set_registry rg s)) (context_log c e (rg_of s))
      | _ \<Rightarrow> None)"

definition thread_end :: "nat \<Rightarrow> system \<Rightarrow> system option" where
  "thread_end tid s =
     (case sy_threads s tid of
        T_Running c \<Rightarrow>
          map_option (\<lambda>rg. (set_registry rg s)\<lparr>sy_threads := (sy_threads s)(tid := T_Ended)\<rparr>)
            (context_kill c (rg_of s))
      | _ \<Rightarrow> None)"

definition started :: "backend \<Rightarrow> system" where
  "started bk = \<lparr>sy_bk = bk, sy_running = True, sy_draining = False, sy_any = False, sy_pc = Loop_Top,
     sy_unnamed = 0, sy_threads = (\<lambda>tid. T_New)\<rparr>"

section \<open>Executions with their history\<close>

text \<open>What has happened so far: which thread a context belongs to, the events each thread has stored, how
  many of them the backend has processed, and the threads that stored an event after the backend found
  their queue empty and before it asked whether they are alive.\<close>

record history =
  hs_owner :: "nat \<Rightarrow> nat option"
  hs_logged :: "nat \<Rightarrow> log_event list"
  hs_processed :: "nat \<Rightarrow> nat"
  hs_late :: "nat set"

definition no_history :: history where
  "no_history = \<lparr>hs_owner = (\<lambda>c. None), hs_logged = (\<lambda>t. []), hs_processed = (\<lambda>t. 0), hs_late = {}\<rparr>"

definition waiting :: "history \<Rightarrow> nat \<Rightarrow> log_event list" where
  "waiting h t = drop (hs_processed h t) (hs_logged h t)"

definition owner_at :: "history \<Rightarrow> registry \<Rightarrow> nat \<Rightarrow> nat option" where
  "owner_at h rg n = (case ctx_of rg n of None \<Rightarrow> None | Some c \<Rightarrow> hs_owner h c)"

text \<open>The node whose queue the backend has just found empty.\<close>

fun checked_node :: "backend_pc \<Rightarrow> nat option" where
  "checked_node (Check n next) = Some n"
| "checked_node (Remove n next) = Some n"
| "checked_node (Unlink n expected next) = Some n"
| "checked_node pc = None"

definition checked :: "system \<Rightarrow> history \<Rightarrow> nat \<Rightarrow> bool" where
  "checked s h t \<longleftrightarrow> (\<exists>n. checked_node (sy_pc s) = Some n \<and> owner_at h (rg_of s) n = Some t)"

definition count_processed :: "nat option \<Rightarrow> history \<Rightarrow> history" where
  "count_processed t h =
     (case t of None \<Rightarrow> h | Some t \<Rightarrow> h\<lparr>hs_processed := (hs_processed h)(t := Suc (hs_processed h t))\<rparr>)"

definition not_late :: "nat option \<Rightarrow> history \<Rightarrow> history" where
  "not_late t h = (case t of None \<Rightarrow> h | Some t \<Rightarrow> h\<lparr>hs_late := hs_late h - {t}\<rparr>)"

definition disown :: "nat option \<Rightarrow> history \<Rightarrow> history" where
  "disown c h = (case c of None \<Rightarrow> h | Some c \<Rightarrow> h\<lparr>hs_owner := (hs_owner h)(c := None)\<rparr>)"

definition observe_backend :: "system \<Rightarrow> system \<Rightarrow> history \<Rightarrow> history" where
  "observe_backend s s' h =
     (case (sy_pc s, sy_pc s') of
        (At (Some n), At _) \<Rightarrow> count_processed (owner_at h (rg_of s) n) h
      | (Check n next, At _) \<Rightarrow> not_late (owner_at h (rg_of s) n) h
      | (Remove n next, At _) \<Rightarrow> disown (ctx_of (rg_of s) n) h
      | (Unlink n expected next, At _) \<Rightarrow> disown (ctx_of (rg_of s) n) h
      | _ \<Rightarrow> h)"

definition observe_log :: "bool \<Rightarrow> nat \<Rightarrow> log_event \<Rightarrow> system \<Rightarrow> history \<Rightarrow> history" where
  "observe_log stored tid e s h =
     (if stored then h\<lparr>hs_logged := (hs_logged h)(tid := hs_logged h tid @ [e]),
                       hs_late := (if checked s h tid then insert tid (hs_late h) else hs_late h)\<rparr>
      else h)"

inductive system_step :: "environment \<Rightarrow> system \<times> history \<Rightarrow> system \<times> history \<Rightarrow> bool" for en where
  st_backend: "backend_step en cr s = Some s' \<Longrightarrow> system_step en (s, h) (s', observe_backend s s' h)"
| st_begin: "sy_threads s tid = T_New \<Longrightarrow> rg_nodes (rg_of s) n = None \<Longrightarrow> rg_contexts (rg_of s) c = None \<Longrightarrow>
    unat qsize \<le> 2 ^ 62 \<Longrightarrow> thread_begin tid nm qsize c n s = Some s' \<Longrightarrow>
    system_step en (s, h) (s', h\<lparr>hs_owner := (hs_owner h)(c \<mapsto> tid)\<rparr>)"
| st_cas: "thread_cas spurious tid s = Some s' \<Longrightarrow> system_step en (s, h) (s', h)"
| st_log: "event_typed en e \<Longrightarrow> thread_push tid e s = Some (stored, s') \<Longrightarrow>
    system_step en (s, h) (s', observe_log stored tid e s h)"
| st_end: "thread_end tid s = Some s' \<Longrightarrow> system_step en (s, h) (s', h)"
| st_sink: "system_step en (s, h)
    (set_mem (rg_of s, (out_of s)\<lparr>o_sink := queue_new_sink f mode bsize (o_sink (out_of s))\<rparr>) s, h)"
| st_formatter: "system_step en (s, h)
    (set_mem (rg_of s, (out_of s)\<lparr>o_formatter := queue_new_formatter fo (o_formatter (out_of s))\<rparr>) s, h)"
| st_level: "system_step en (s, h) (set_mem (rg_of s, (out_of s)\<lparr>o_min_level := level_code lvl\<rparr>) s, h)"
| st_stop: "system_step en (s, h) (s\<lparr>sy_running := False\<rparr>, h)"

inductive_cases system_stepE: "system_step en (s, h) r"

inductive system_reachable :: "environment \<Rightarrow> startup \<Rightarrow> system \<times> history \<Rightarrow> bool" for en su where
  sr_start: "new_backend su = Some (Returns bk) \<Longrightarrow> system_reachable en su (started bk, no_history)"
| sr_step: "system_reachable en su r \<Longrightarrow> system_step en r r' \<Longrightarrow> system_reachable en su r'"

section \<open>The invariant\<close>

fun removing :: "backend_pc \<Rightarrow> (nat \<times> nat option) option" where
  "removing (Unlink n expected next) = Some (n, expected)"
| "removing pc = None"

definition registering :: "(nat \<Rightarrow> thread_state) \<Rightarrow> nat set" where
  "registering th = {n. \<exists>t c. th t = T_Registering n c}"

text \<open>The registry is in a state the interleaved operations of \<open>Thread_Registry\<close> can reach, with the list \<open>ns\<close>.\<close>

definition registry_at :: "system \<Rightarrow> nat list \<Rightarrow> bool" where
  "registry_at s ns \<longleftrightarrow> (\<exists>rs. registry_inv rs \<and> rs_rg rs = rg_of s \<and>
     set (rs_registering rs) = registering (sy_threads s) \<and> rs_removing rs = removing (sy_pc s) \<and>
     log_list (rs_log rs) = ns)"

text \<open>The pointers the backend holds point into the list.\<close>

fun pc_ok :: "backend_pc \<Rightarrow> nat list \<Rightarrow> bool" where
  "pc_ok (At p) ns \<longleftrightarrow> (\<exists>pre post. ns = pre @ post \<and> p = list_head post)"
| "pc_ok (Check n next) ns \<longleftrightarrow> (\<exists>pre post. ns = pre @ n # post \<and> next = list_head post)"
| "pc_ok (Remove n next) ns \<longleftrightarrow> (\<exists>pre post. ns = pre @ n # post \<and> next = list_head post)"
| "pc_ok (Unlink n expected next) ns \<longleftrightarrow> (\<exists>pre post. ns = pre @ n # post \<and> next = list_head post)"
| "pc_ok pc ns \<longleftrightarrow> True"

definition owned :: "history \<Rightarrow> nat \<Rightarrow> bool" where
  "owned h t \<longleftrightarrow> (\<exists>c. hs_owner h c = Some t)"

definition thread_ok :: "system \<Rightarrow> history \<Rightarrow> nat list \<Rightarrow> nat \<Rightarrow> bool" where
  "thread_ok s h ns t \<longleftrightarrow>
     (case sy_threads s t of
        T_New \<Rightarrow> \<not> owned h t \<and> hs_logged h t = []
      | T_Registering n c \<Rightarrow> hs_owner h c = Some t \<and> ctx_of (rg_of s) n = Some c \<and> hs_logged h t = []
      | T_Running c \<Rightarrow> hs_owner h c = Some t \<and> (\<exists>n \<in> set ns. ctx_of (rg_of s) n = Some c)
      | T_Ended \<Rightarrow> \<forall>c. hs_owner h c = Some t \<longrightarrow> (\<exists>n \<in> set ns. ctx_of (rg_of s) n = Some c))"

text \<open>Every context that exists belongs to one thread, and its queue holds the events of that thread that
  have not been processed.\<close>

definition queues_ok :: "system \<Rightarrow> history \<Rightarrow> bool" where
  "queues_ok s h \<longleftrightarrow>
     (\<forall>c. (rg_contexts (rg_of s) c = None) = (hs_owner h c = None)) \<and>
     (\<forall>c c' t. hs_owner h c = Some t \<longrightarrow> hs_owner h c' = Some t \<longrightarrow> c = c') \<and>
     (\<forall>c ctx t. rg_contexts (rg_of s) c = Some ctx \<longrightarrow> hs_owner h c = Some t \<longrightarrow>
        q_holds (tc_q ctx) (map event_bytes (waiting h t)) \<and> tc_is_alive ctx = (sy_threads s t \<noteq> T_Ended))"

definition events_ok :: "environment \<Rightarrow> history \<Rightarrow> bool" where
  "events_ok en h \<longleftrightarrow> (\<forall>t. hs_processed h t \<le> length (hs_logged h t) \<and> list_all (event_typed en) (hs_logged h t))"

definition freed_thread :: "system \<Rightarrow> history \<Rightarrow> nat \<Rightarrow> bool" where
  "freed_thread s h t \<longleftrightarrow> sy_threads s t = T_Ended \<and> \<not> owned h t"

definition late_ok :: "system \<Rightarrow> history \<Rightarrow> bool" where
  "late_ok s h \<longleftrightarrow> (\<forall>t. t \<in> hs_late h \<longleftrightarrow> (checked s h t \<or> freed_thread s h t) \<and> waiting h t \<noteq> [])"

fun removed_node :: "backend_pc \<Rightarrow> nat option" where
  "removed_node (Remove n next) = Some n"
| "removed_node (Unlink n expected next) = Some n"
| "removed_node pc = None"

text \<open>The backend only removes the node of a thread that has ended.\<close>

definition dead_ok :: "system \<Rightarrow> history \<Rightarrow> bool" where
  "dead_ok s h \<longleftrightarrow> (\<forall>n t. removed_node (sy_pc s) = Some n \<longrightarrow> owner_at h (rg_of s) n = Some t \<longrightarrow> sy_threads s t = T_Ended)"

definition system_inv :: "environment \<Rightarrow> nat list \<Rightarrow> system \<Rightarrow> history \<Rightarrow> bool" where
  "system_inv en ns s h \<longleftrightarrow> registry_at s ns \<and> pc_ok (sy_pc s) ns \<and> (\<forall>t. thread_ok s h ns t) \<and>
     queues_ok s h \<and> events_ok en h \<and> late_ok s h \<and> dead_ok s h"

subsection \<open>The registry under each step\<close>

lemma registry_atI:
  assumes "registry_inv rs" and "rs_rg rs = rg_of s" and "set (rs_registering rs) = registering (sy_threads s)"
    and "rs_removing rs = removing (sy_pc s)" and "log_list (rs_log rs) = ns"
  shows "registry_at s ns"
  unfolding registry_at_def using assms by blast

lemma registry_at_holds: "registry_at s ns \<Longrightarrow> rg_holds (rg_of s) ns"
  by (auto simp: registry_at_def registry_inv_def)

lemma registry_at_registering:
  assumes "registry_at s ns" and "sy_threads s t = T_Registering n c"
  shows "n \<notin> set ns \<and> rg_nodes (rg_of s) n \<noteq> None"
proof -
  have "n \<in> registering (sy_threads s)" using assms(2) by (auto simp: registering_def)
  then show ?thesis using assms(1) by (fastforce simp: registry_at_def registry_inv_def)
qed

text \<open>Steps that leave nodes and head alone and remove no context.\<close>

lemma registry_at_same:
  assumes at: "registry_at s ns"
    and rg: "rg_nodes (rg_of s') = rg_nodes (rg_of s)" "rg_head (rg_of s') = rg_head (rg_of s)"
      "\<And>c. rg_contexts (rg_of s) c \<noteq> None \<Longrightarrow> rg_contexts (rg_of s') c \<noteq> None"
    and th: "registering (sy_threads s') = registering (sy_threads s)" and pc: "removing (sy_pc s') = removing (sy_pc s)"
  shows "registry_at s' ns"
proof -
  obtain rs where rs: "registry_inv rs" "rs_rg rs = rg_of s" "set (rs_registering rs) = registering (sy_threads s)"
      "rs_removing rs = removing (sy_pc s)" "log_list (rs_log rs) = ns"
    using at by (auto simp: registry_at_def)
  have same: "ctx_of (rg_of s') = ctx_of (rg_of s)" using rg(1) by (simp add: ctx_of_def fun_eq_iff)
  have "ctx_ok (rg_of s')" using rs(1,2) rg(3) unfolding registry_inv_def rg_holds_def ctx_ok_def same by metis
  then have "registry_inv (rs\<lparr>rs_rg := rg_of s'\<rparr>)"
    using rs(1) rg(1,2) by (auto simp: registry_inv_def rg_holds_def removal_ok_def rs(2) split: option.splits)
  then show ?thesis using rs th pc by (intro registry_atI [where rs = "rs\<lparr>rs_rg := rg_of s'\<rparr>"]) simp_all
qed

lemma registry_at_step:
  assumes at: "registry_at s ns"
    and rs: "\<And>rs. registry_inv rs \<Longrightarrow> rs_rg rs = rg_of s \<Longrightarrow> set (rs_registering rs) = registering (sy_threads s) \<Longrightarrow>
        rs_removing rs = removing (sy_pc s) \<Longrightarrow> log_list (rs_log rs) = ns \<Longrightarrow>
        \<exists>rs'. registry_step rs rs' \<and> rs_rg rs' = rg_of s' \<and> set (rs_registering rs') = registering (sy_threads s') \<and>
          rs_removing rs' = removing (sy_pc s') \<and> log_list (rs_log rs') = ns'"
  shows "registry_at s' ns'"
  using assms registry_step_inv unfolding registry_at_def by metis

lemma registry_at_begin:
  assumes at: "registry_at s ns" and new: "rg_nodes (rg_of s) n = None" "rg_contexts (rg_of s) c = None"
    and rg: "rg_of s' = register_begin n c (add_context c ctx (rg_of s))"
    and th: "registering (sy_threads s') = insert n (registering (sy_threads s))" and pc: "sy_pc s' = sy_pc s"
  shows "registry_at s' ns"
proof (rule registry_at_step [OF at], intro exI conjI)
  fix rs :: registry_state assume rs: "rs_rg rs = rg_of s" "set (rs_registering rs) = registering (sy_threads s)"
    "rs_removing rs = removing (sy_pc s)" "log_list (rs_log rs) = ns"
  show "registry_step rs (rs\<lparr>rs_rg := register_begin n c (add_context c ctx (rs_rg rs)),
      rs_registering := n # rs_registering rs\<rparr>)"
    using new rs by (intro registry_step.reg_begin) simp_all
qed (use assms in simp_all)

lemma registry_at_cas:
  assumes at: "registry_at s ns" and n: "n \<in> registering (sy_threads s)"
    and cas: "register_cas spurious n (rg_of s) = Some (ok, rg_of s')" and pc: "sy_pc s' = sy_pc s"
    and th: "registering (sy_threads s') = registering (sy_threads s) - (if ok then {n} else {})"
  shows "registry_at s' (if ok then n # ns else ns)"
proof (rule registry_at_step [OF at])
  fix rs :: registry_state assume rs: "rs_rg rs = rg_of s" "set (rs_registering rs) = registering (sy_threads s)"
    "rs_removing rs = removing (sy_pc s)" "log_list (rs_log rs) = ns"
  show "\<exists>rs'. registry_step rs rs' \<and> rs_rg rs' = rg_of s' \<and> set (rs_registering rs') = registering (sy_threads s') \<and>
      rs_removing rs' = removing (sy_pc s') \<and> log_list (rs_log rs') = (if ok then n # ns else ns)"
  proof (cases ok)
    case True
    have "registry_step rs (rs\<lparr>rs_rg := rg_of s', rs_registering := removeAll n (rs_registering rs),
        rs_log := Registered n # rs_log rs\<rparr>)"
      using n cas True rs by (intro registry_step.reg_cas_ok [where spurious = spurious]) simp_all
    then show ?thesis using rs th pc True by - (rule exI, rule conjI, assumption, simp)
  next
    case False
    have "registry_step rs (rs\<lparr>rs_rg := rg_of s'\<rparr>)"
      using n cas False rs by (intro registry_step.reg_cas_fail [where n = n and spurious = spurious]) simp_all
    then show ?thesis using rs th pc False by - (rule exI, rule conjI, assumption, simp)
  qed
qed

lemma registry_at_remove:
  assumes at: "registry_at s ns" and n: "n \<in> set ns" and idle: "removing (sy_pc s) = None"
    and cas: "remove_cas n (rg_of s) = Some (Inl (rg_of s'))"
    and th: "sy_threads s' = sy_threads s" and pc: "removing (sy_pc s') = None"
  shows "registry_at s' (remove1 n ns)"
proof (rule registry_at_step [OF at], intro exI conjI)
  fix rs :: registry_state assume rs: "rs_rg rs = rg_of s" "set (rs_registering rs) = registering (sy_threads s)"
    "rs_removing rs = removing (sy_pc s)" "log_list (rs_log rs) = ns" "registry_inv rs"
  show "registry_step rs (rs\<lparr>rs_rg := rg_of s', rs_log := Removed n # rs_log rs\<rparr>)"
    using registry_at_holds [OF at] n idle cas rs
    by (intro registry_step.rem_head [where ns = ns]) (simp_all add: rg_holds_def)
qed (use assms in simp_all)

lemma registry_at_unlink:
  assumes at: "registry_at s ns" and n: "n \<in> set ns" and pc: "removing (sy_pc s) = Some (n, expected)"
    and unlink: "remove_unlink n expected (rg_of s) = Some (rg_of s')"
    and th: "sy_threads s' = sy_threads s" and pc': "removing (sy_pc s') = None"
  shows "registry_at s' (remove1 n ns)"
proof (rule registry_at_step [OF at], intro exI conjI)
  fix rs :: registry_state assume rs: "rs_rg rs = rg_of s" "set (rs_registering rs) = registering (sy_threads s)"
    "rs_removing rs = removing (sy_pc s)" "log_list (rs_log rs) = ns"
  show "registry_step rs (rs\<lparr>rs_rg := rg_of s', rs_removing := None, rs_log := Removed n # rs_log rs\<rparr>)"
    using pc unlink rs by (intro registry_step.rem_finish) simp_all
qed (use assms in simp_all)

lemma registry_at_remove_behind:
  assumes at: "registry_at s ns" and n: "n \<in> set ns" and idle: "removing (sy_pc s) = None"
    and cas: "remove_cas n (rg_of s) = Some (Inr expected)"
    and rg: "rg_of s' = rg_of s" and th: "sy_threads s' = sy_threads s" and pc: "removing (sy_pc s') = Some (n, expected)"
  shows "registry_at s' ns"
proof (rule registry_at_step [OF at], intro exI conjI)
  fix rs :: registry_state assume rs: "rs_rg rs = rg_of s" "set (rs_registering rs) = registering (sy_threads s)"
    "rs_removing rs = removing (sy_pc s)" "log_list (rs_log rs) = ns"
  show "registry_step rs (rs\<lparr>rs_removing := Some (n, expected)\<rparr>)"
    using registry_at_holds [OF at] n idle cas rs
    by (intro registry_step.rem_begin [where ns = ns]) (simp_all add: rg_holds_def)
qed (use assms in simp_all)

text \<open>Both ways of removing a member free its node and its context and nothing else.\<close>

lemma remove_cas_freed:
  assumes "registry_at s ns" and "n \<in> set ns"
  shows "(\<exists>rg. remove_cas n (rg_of s) = Some (Inl rg) \<and> freed n (rg_of s) rg) \<or>
    (\<exists>e. remove_cas n (rg_of s) = Some (Inr e))"
proof -
  have list: "linked (rg_nodes (rg_of s)) (rg_head (rg_of s)) ns" "distinct ns"
    using registry_at_holds [OF assms(1)] by (simp_all add: rg_holds_def)
  show ?thesis
  proof (cases "hd ns = n")
    case True
    then obtain ms where "ns = n # ms" using assms(2) by (cases ns) auto
    then show ?thesis using remove_cas_head [of "rg_of s" n ms] list by auto
  qed (use remove_cas_other [OF list(1) assms(2)] in blast)
qed

lemma remove_unlink_freed:
  assumes "registry_at s ns" and "removing (sy_pc s) = Some (n, e)"
  shows "\<exists>rg. remove_unlink n e (rg_of s) = Some rg \<and> freed n (rg_of s) rg"
proof -
  obtain rs where rs: "registry_inv rs" "rs_rg rs = rg_of s" "rs_removing rs = Some (n, e)"
    using assms by (auto simp: registry_at_def)
  then obtain pre as a bs where split: "log_list (rs_log rs) = pre @ as @ a # n # bs"
      "linked (rg_nodes (rg_of s)) e (as @ a # n # bs)"
    by (auto simp: registry_inv_def removal_ok_def)
  have "linked (rg_nodes (rg_of s)) (rg_head (rg_of s)) (pre @ as @ a # n # bs)" "distinct (pre @ as @ a # n # bs)"
    using rs split(1) by (simp_all add: registry_inv_def rg_holds_def)
  from remove_unlink_linked [OF this split(2)] show ?thesis by blast
qed

subsection \<open>Who owns what\<close>

lemma list_head_Some: "Some n = list_head xs \<Longrightarrow> \<exists>ys. xs = n # ys"
  by (cases xs) auto

lemma owner_unique: "queues_ok s h \<Longrightarrow> hs_owner h c = Some t \<Longrightarrow> hs_owner h c' = Some t \<Longrightarrow> c' = c"
  unfolding queues_ok_def by blast

lemma pc_ok_next: "pc_ok (At (list_head post)) (pre @ n # post)"
proof -
  have "pre @ n # post = (pre @ [n]) @ post" by simp
  then show ?thesis unfolding pc_ok.simps by blast
qed

lemma pc_ok_at: "pc_ok (At (list_head post)) (pre @ post)"
  unfolding pc_ok.simps by blast

text \<open>The context of a node in the list belongs to a thread that is running or has ended.\<close>

lemma listed_owner:
  assumes inv: "system_inv en ns s h" and n: "n \<in> set ns"
  obtains nd ctx t where "rg_nodes (rg_of s) n = Some nd" "rg_contexts (rg_of s) (nd_context nd) = Some ctx"
    "hs_owner h (nd_context nd) = Some t" "sy_threads s t = T_Running (nd_context nd) \<or> sy_threads s t = T_Ended"
    "q_holds (tc_q ctx) (map event_bytes (waiting h t))" "tc_is_alive ctx = (sy_threads s t \<noteq> T_Ended)"
proof -
  have at: "registry_at s ns" and q: "queues_ok s h" and th: "\<And>t. thread_ok s h ns t"
    using inv by (simp_all add: system_inv_def)
  have holds: "linked (rg_nodes (rg_of s)) (rg_head (rg_of s)) ns" "ctx_ok (rg_of s)"
    using registry_at_holds [OF at] by (simp_all add: rg_holds_def)
  obtain nd where nd: "rg_nodes (rg_of s) n = Some nd" using linked_alloc [OF holds(1) n] by blast
  have c: "ctx_of (rg_of s) n = Some (nd_context nd)" using nd by (simp add: ctx_of_def)
  obtain ctx where ctx: "rg_contexts (rg_of s) (nd_context nd) = Some ctx" using c holds(2) unfolding ctx_ok_def by blast
  obtain t where t: "hs_owner h (nd_context nd) = Some t" using ctx q unfolding queues_ok_def by (metis option.exhaust option.simps(3))
  have "sy_threads s t = T_Running (nd_context nd) \<or> sy_threads s t = T_Ended"
  proof (cases "sy_threads s t")
    case T_New
    then show ?thesis using th [of t] t by (auto simp: thread_ok_def owned_def)
  next
    case (T_Registering m c')
    then have "hs_owner h c' = Some t" "ctx_of (rg_of s) m = Some c'" using th [of t] by (simp_all add: thread_ok_def)
    moreover have "m \<notin> set ns" using registry_at_registering [OF at T_Registering] by simp
    ultimately have "ctx_of (rg_of s) m = Some (nd_context nd)" "m \<noteq> n" using owner_unique [OF q t] n by blast+
    then show ?thesis using holds(2) c n unfolding ctx_ok_def by metis
  next
    case (T_Running c')
    then have "hs_owner h c' = Some t" using th [of t] by (simp add: thread_ok_def)
    then show ?thesis using T_Running owner_unique [OF q t] by simp
  qed simp
  then show ?thesis using that [OF nd ctx t] q ctx t unfolding queues_ok_def by blast
qed

lemma pc_node_listed:
  assumes "system_inv en ns s h" and "checked_node (sy_pc s) = Some n"
  shows "n \<in> set ns"
  using assms by (cases "sy_pc s") (auto simp: system_inv_def)

lemma owner_at_node: "rg_nodes rg n = Some nd \<Longrightarrow> owner_at h rg n = hs_owner h (nd_context nd)"
  by (simp add: owner_at_def ctx_of_def)

lemma owner_at_cong: "ctx_of rg' = ctx_of rg \<Longrightarrow> hs_owner h' = hs_owner h \<Longrightarrow> owner_at h' rg' = owner_at h rg"
  by (intro ext) (simp add: owner_at_def split: option.split)

lemma owned_cong: "hs_owner h' = hs_owner h \<Longrightarrow> owned h' = owned h"
  by (simp add: owned_def fun_eq_iff)

subsection \<open>Steps that change one context\<close>

text \<open>Serving a queue, logging and ending a thread replace the context \<open>c\<close> of one thread \<open>t\<close>.\<close>

lemma system_inv_context:
  assumes inv: "system_inv en ns s h"
    and c: "rg_contexts (rg_of s) c = Some ctx" "hs_owner h c = Some t"
    and rg: "rg_of s' = (rg_of s)\<lparr>rg_contexts := (rg_contexts (rg_of s))(c \<mapsto> ctx')\<rparr>"
    and own: "hs_owner h' = hs_owner h"
    and others: "\<And>u. u \<noteq> t \<Longrightarrow> hs_logged h' u = hs_logged h u \<and> hs_processed h' u = hs_processed h u \<and>
      sy_threads s' u = sy_threads s u"
    and t: "sy_threads s t = T_Running c \<or> sy_threads s t = T_Ended"
      "sy_threads s' t = sy_threads s t \<or> sy_threads s' t = T_Ended"
    and q: "q_holds (tc_q ctx') (map event_bytes (waiting h' t))" "tc_is_alive ctx' = (sy_threads s' t \<noteq> T_Ended)"
    and events: "hs_processed h' t \<le> length (hs_logged h' t)" "list_all (event_typed en) (hs_logged h' t)"
    and pc: "removing (sy_pc s') = removing (sy_pc s)" "pc_ok (sy_pc s') ns"
      "removed_node (sy_pc s') = removed_node (sy_pc s)"
    and late: "late_ok s' h'"
  shows "system_inv en ns s' h'"
proof -
  have old: "registry_at s ns" "\<And>u. thread_ok s h ns u" "queues_ok s h" "events_ok en h" "dead_ok s h"
    using inv by (simp_all add: system_inv_def)
  have same: "ctx_of (rg_of s') = ctx_of (rg_of s)" by (simp add: rg ctx_of_def fun_eq_iff)
  have "sy_threads s' u = T_Registering n d \<longleftrightarrow> sy_threads s u = T_Registering n d" for u n d
    using others [of u] t by (cases "u = t") auto
  then have "registering (sy_threads s') = registering (sy_threads s)" by (simp add: registering_def)
  then have "registry_at s' ns" by (intro registry_at_same [OF old(1)]) (use pc(1) in \<open>simp_all add: rg\<close>)
  moreover have "thread_ok s' h' ns u" for u
  proof (cases "u = t")
    case True
    have uniq: "\<And>x. hs_owner h x = Some t \<longleftrightarrow> x = c" using owner_unique [OF old(3) c(2)] c(2) by blast
    have "\<exists>n \<in> set ns. ctx_of (rg_of s) n = Some c" using old(2) [of t] t(1) c(2) by (auto simp: thread_ok_def)
    then show ?thesis using True t c(2) own same by (auto simp: thread_ok_def uniq)
  next
    case False
    then show ?thesis
      using old(2) [of u] others [OF False] own same owned_cong [OF own]
      by (cases "sy_threads s u") (simp_all add: thread_ok_def)
  qed
  moreover have "queues_ok s' h'"
    unfolding queues_ok_def own
  proof (intro conjI allI impI)
    show "(rg_contexts (rg_of s') d = None) = (hs_owner h d = None)" for d
      using old(3) c by (simp add: queues_ok_def rg)
    show "d = d'" if "hs_owner h d = Some u" "hs_owner h d' = Some u" for d d' u
      using old(3) that unfolding queues_ok_def by blast
    fix d ctx2 u assume d: "rg_contexts (rg_of s') d = Some ctx2" "hs_owner h d = Some u"
    show "q_holds (tc_q ctx2) (map event_bytes (waiting h' u))" "tc_is_alive ctx2 = (sy_threads s' u \<noteq> T_Ended)"
    proof (atomize (full), cases "d = c")
      case True
      then show "q_holds (tc_q ctx2) (map event_bytes (waiting h' u)) \<and> tc_is_alive ctx2 = (sy_threads s' u \<noteq> T_Ended)"
        using d c q rg by simp
    next
      case False
      then have "u \<noteq> t" using d(2) c(2) old(3) unfolding queues_ok_def by blast
      then show "q_holds (tc_q ctx2) (map event_bytes (waiting h' u)) \<and> tc_is_alive ctx2 = (sy_threads s' u \<noteq> T_Ended)"
        using d rg False old(3) others [of u] unfolding queues_ok_def by (simp add: waiting_def)
    qed
  qed
  moreover have "events_ok en h'"
    unfolding events_ok_def
  proof
    fix u show "hs_processed h' u \<le> length (hs_logged h' u) \<and> list_all (event_typed en) (hs_logged h' u)"
      using events others [of u] old(4) by (cases "u = t") (simp_all add: events_ok_def)
  qed
  moreover have "dead_ok s' h'"
    unfolding dead_ok_def owner_at_cong [OF same own] pc(3)
  proof (intro allI impI)
    fix n u assume "removed_node (sy_pc s) = Some n" "owner_at h (rg_of s) n = Some u"
    then have "sy_threads s u = T_Ended" using old(5) by (simp add: dead_ok_def)
    then show "sy_threads s' u = T_Ended" using t(2) others [of u] by (cases "u = t") auto
  qed
  ultimately show ?thesis using pc(2) late by (simp add: system_inv_def)
qed

lemma poll_read_waiting:
  assumes nd: "rg_nodes rg n = Some nd" "rg_contexts rg (nd_context nd) = Some ctx"
    and q: "q_holds (tc_q ctx) (map event_bytes es)" and typed: "list_all (event_typed en) es"
  obtains q' where "q_holds q' (map event_bytes (tl es))"
    "poll_read en n (rg, o1) =
       (case es of
          [] \<Rightarrow> Some (False, rg\<lparr>rg_contexts := (rg_contexts rg)(nd_context nd \<mapsto> ctx\<lparr>tc_q := q'\<rparr>)\<rparr>, o1)
        | e # es' \<Rightarrow> map_option
            (\<lambda>o2. (True, rg\<lparr>rg_contexts := (rg_contexts rg)(nd_context nd \<mapsto> ctx\<lparr>tc_q := q'\<rparr>)\<rparr>, o2))
            (process_event en e o1))"
proof (cases es)
  case Nil
  then obtain q' where "poll_queue en (tc_q ctx) o1 = Some (False, q', o1)" "q_holds q' []"
    using poll_queue_empty [of "tc_q ctx" en o1] q by auto
  then show ?thesis using that [of q'] nd Nil by (simp add: poll_read_def)
next
  case (Cons e es')
  then obtain q' where "poll_queue en (tc_q ctx) o1 = map_option (\<lambda>o2. (True, q', o2)) (process_event en e o1)"
      "q_holds q' (map event_bytes es')"
    using poll_queue_front [of "tc_q ctx" e "map event_bytes es'" en o1] q typed by auto
  then show ?thesis
    using that [of q'] nd Cons by (cases "process_event en e o1") (simp_all add: poll_read_def)
qed

lemma serve_step_cases:
  assumes inv: "system_inv en ns s h" and pc: "sy_pc s = At (Some n)"
  obtains nd ctx t q' where "rg_nodes (rg_of s) n = Some nd" "rg_contexts (rg_of s) (nd_context nd) = Some ctx"
    "hs_owner h (nd_context nd) = Some t" "sy_threads s t = T_Running (nd_context nd) \<or> sy_threads s t = T_Ended"
    "\<exists>pre post. ns = pre @ n # post \<and> nd_next nd = list_head post"
    "q_holds q' (map event_bytes (tl (waiting h t)))" "tc_is_alive ctx = (sy_threads s t \<noteq> T_Ended)"
    "serve_step en n s =
       (let rg = (rg_of s)\<lparr>rg_contexts := (rg_contexts (rg_of s))(nd_context nd \<mapsto> ctx\<lparr>tc_q := q'\<rparr>)\<rparr>
        in case waiting h t of
             [] \<Rightarrow> Some ((set_mem (rg, out_of s) s)\<lparr>sy_any := sy_any s, sy_pc := Check n (nd_next nd)\<rparr>)
           | e # es \<Rightarrow> map_option (\<lambda>o2. (set_mem (rg, o2) s)\<lparr>sy_any := True, sy_pc := At (nd_next nd)\<rparr>)
               (process_event (with_clock (bk_resync (sy_bk s)) en) e (out_of s)))"
proof -
  let ?en = "with_clock (bk_resync (sy_bk s)) en"
  obtain pre post where ns: "ns = pre @ n # post"
    using inv pc list_head_Some [of n] unfolding system_inv_def by (metis pc_ok.simps(1))
  then have n: "n \<in> set ns" by simp
  obtain nd ctx t where o: "rg_nodes (rg_of s) n = Some nd" "rg_contexts (rg_of s) (nd_context nd) = Some ctx"
      "hs_owner h (nd_context nd) = Some t" "sy_threads s t = T_Running (nd_context nd) \<or> sy_threads s t = T_Ended"
      "q_holds (tc_q ctx) (map event_bytes (waiting h t))" "tc_is_alive ctx = (sy_threads s t \<noteq> T_Ended)"
    using listed_owner [OF inv n] .
  have "linked (rg_nodes (rg_of s)) (rg_head (rg_of s)) (pre @ n # post)"
    using inv registry_at_holds ns by (auto simp: system_inv_def rg_holds_def)
  then have next_node: "nd_next nd = list_head post" using linked_next o(1) by fastforce
  have typed: "list_all (event_typed ?en) (waiting h t)"
    using inv by (auto simp: system_inv_def events_ok_def waiting_def list_all_iff dest: in_set_dropD)
  obtain q' where q': "q_holds q' (map event_bytes (tl (waiting h t)))"
    "poll_read ?en n (rg_of s, out_of s) =
       (case waiting h t of
          [] \<Rightarrow> Some (False, (rg_of s)\<lparr>rg_contexts := (rg_contexts (rg_of s))(nd_context nd \<mapsto> ctx\<lparr>tc_q := q'\<rparr>)\<rparr>, out_of s)
        | e # es' \<Rightarrow> map_option
            (\<lambda>o2. (True, (rg_of s)\<lparr>rg_contexts := (rg_contexts (rg_of s))(nd_context nd \<mapsto> ctx\<lparr>tc_q := q'\<rparr>)\<rparr>, o2))
            (process_event ?en e (out_of s)))"
    using poll_read_waiting [OF o(1,2,5) typed, of "out_of s"] .
  show ?thesis
  proof (rule that [OF o(1-4) _ q'(1) o(6)])
    show "\<exists>pre post. ns = pre @ n # post \<and> nd_next nd = list_head post" using ns next_node by blast
  qed (use o(1) q'(2) in \<open>simp add: serve_step_def Let_def option.map_comp comp_def split: list.split option.split\<close>)
qed

lemma late_okD: "late_ok s h \<Longrightarrow> t \<in> hs_late h \<longleftrightarrow> (checked s h t \<or> freed_thread s h t) \<and> waiting h t \<noteq> []"
  by (simp add: late_ok_def)

lemma owner_not_freed: "hs_owner h c = Some t \<Longrightarrow> \<not> freed_thread s h t"
  by (auto simp: freed_thread_def owned_def)

lemma not_checked: "checked_node (sy_pc s) = None \<Longrightarrow> \<not> checked s h t"
  by (simp add: checked_def)

lemma inv_events: "system_inv en ns s h \<Longrightarrow> hs_processed h t \<le> length (hs_logged h t) \<and> list_all (event_typed en) (hs_logged h t)"
  by (simp add: system_inv_def events_ok_def)

lemma waiting_eq: "hs_logged h' t = hs_logged h t \<Longrightarrow> hs_processed h' t = hs_processed h t \<Longrightarrow> waiting h' t = waiting h t"
  by (simp add: waiting_def)

lemma waiting_processed:
  "waiting (count_processed (Some t) h) t = tl (waiting h t)"
  "u \<noteq> t \<Longrightarrow> waiting (count_processed (Some t) h) u = waiting h u"
  by (simp_all add: waiting_def count_processed_def drop_Suc tl_drop)

lemma count_processed_simps [simp]:
  "hs_owner (count_processed p h) = hs_owner h" "hs_logged (count_processed p h) = hs_logged h"
  "hs_late (count_processed p h) = hs_late h"
  by (simp_all add: count_processed_def split: option.split)

lemma serve_inv:
  assumes inv: "system_inv en ns s h" and pc: "sy_pc s = At (Some n)" and step: "serve_step en n s = Some s'"
  shows "system_inv en ns s' (observe_backend s s' h)"
proof -
  obtain nd ctx t q' where o: "rg_nodes (rg_of s) n = Some nd" "rg_contexts (rg_of s) (nd_context nd) = Some ctx"
    "hs_owner h (nd_context nd) = Some t" "sy_threads s t = T_Running (nd_context nd) \<or> sy_threads s t = T_Ended"
    "\<exists>pre post. ns = pre @ n # post \<and> nd_next nd = list_head post"
    "q_holds q' (map event_bytes (tl (waiting h t)))" "tc_is_alive ctx = (sy_threads s t \<noteq> T_Ended)"
    "serve_step en n s =
       (let rg = (rg_of s)\<lparr>rg_contexts := (rg_contexts (rg_of s))(nd_context nd \<mapsto> ctx\<lparr>tc_q := q'\<rparr>)\<rparr>
        in case waiting h t of
             [] \<Rightarrow> Some ((set_mem (rg, out_of s) s)\<lparr>sy_any := sy_any s, sy_pc := Check n (nd_next nd)\<rparr>)
           | e # es \<Rightarrow> map_option (\<lambda>o2. (set_mem (rg, o2) s)\<lparr>sy_any := True, sy_pc := At (nd_next nd)\<rparr>)
               (process_event (with_clock (bk_resync (sy_bk s)) en) e (out_of s)))"
    using serve_step_cases [OF inv pc] .
  let ?rg = "(rg_of s)\<lparr>rg_contexts := (rg_contexts (rg_of s))(nd_context nd \<mapsto> ctx\<lparr>tc_q := q'\<rparr>)\<rparr>"
  have late: "late_ok s h" and old_pc: "checked_node (sy_pc s) = None" using inv pc by (simp_all add: system_inv_def)
  obtain pre post where ns: "ns = pre @ n # post" "nd_next nd = list_head post" using o(5) by blast
  have owner: "owner_at h (rg_of s) n = Some t" using o(1,3) by (simp add: owner_at_node)
  show ?thesis
  proof (cases "waiting h t")
    case Nil
    then have s': "s' = (set_mem (?rg, out_of s) s)\<lparr>sy_any := sy_any s, sy_pc := Check n (nd_next nd)\<rparr>"
      using step o(8) by simp
    have h': "observe_backend s s' h = h" by (simp add: observe_backend_def pc s')
    have "owner_at h (rg_of s') n = Some t" using o(1,3) by (simp add: s' owner_at_node)
    then have "checked s' h u \<longleftrightarrow> u = t" for u by (auto simp: checked_def s')
    then have "late_ok s' h"
      using late_okD [OF late] Nil owner_not_freed [OF o(3)] not_checked [OF old_pc]
      by (auto simp: late_ok_def freed_thread_def s')
    then show ?thesis
      unfolding h'
      by (intro system_inv_context [OF inv o(2,3), where ctx' = "ctx\<lparr>tc_q := q'\<rparr>"])
        (use o(4,6,7) Nil inv_events [OF inv, of t] ns pc in \<open>auto simp: s'\<close>)
  next
    case (Cons e es)
    then obtain o2 where s': "s' = (set_mem (?rg, o2) s)\<lparr>sy_any := True, sy_pc := At (nd_next nd)\<rparr>"
      using step o(8) by auto
    have h': "observe_backend s s' h = count_processed (Some t) h" using owner by (simp add: observe_backend_def pc s')
    have own: "hs_owner (count_processed (Some t) h) = hs_owner h" by simp
    have "u \<in> hs_late h \<longleftrightarrow> freed_thread s h u \<and> waiting (count_processed (Some t) h) u \<noteq> []" for u
      using late_okD [OF late, of u] not_checked [OF old_pc] owner_not_freed [OF o(3)] waiting_processed(2) [of u t h]
      by (cases "u = t") simp_all
    then have "late_ok s' (count_processed (Some t) h)"
      by (simp add: late_ok_def not_checked freed_thread_def owned_cong [OF own] s')
    moreover have "hs_processed h t < length (hs_logged h t)" using Cons unfolding waiting_def by (metis drop_all leI list.distinct(1))
    moreover have "pc_ok (sy_pc s') ns" using ns pc_ok_next [of post pre n] by (simp add: s')
    ultimately show ?thesis
      unfolding h'
      by (intro system_inv_context [OF inv o(2,3), where ctx' = "ctx\<lparr>tc_q := q'\<rparr>"])
        (use o(4,6,7) inv_events [OF inv, of t] ns(2) pc waiting_processed(1) [of t h] in \<open>auto simp: s' count_processed_def\<close>)
  qed
qed

lemma waiting_logged:
  assumes "hs_processed h t \<le> length (hs_logged h t)"
  shows "waiting (observe_log True t e s h) t = waiting h t @ [e]"
  using assms by (simp add: waiting_def observe_log_def)

lemma log_inv:
  assumes inv: "system_inv en ns s h" and e: "event_typed en e" and step: "thread_push tid e s = Some (stored, s')"
  shows "system_inv en ns s' (observe_log stored tid e s h)"
proof -
  obtain c rg where run: "sy_threads s tid = T_Running c" "context_log c e (rg_of s) = Some (stored, rg)"
      "s' = set_registry rg s"
    using step by (auto simp: thread_push_def split: thread_state.splits)
  obtain ctx q' where ctx: "rg_contexts (rg_of s) c = Some ctx" "push_event e (tc_q ctx) = Some (stored, q')"
      "rg = (rg_of s)\<lparr>rg_contexts := (rg_contexts (rg_of s))(c \<mapsto> ctx\<lparr>tc_q := q'\<rparr>)\<rparr>"
    using run(2) by (auto simp: context_log_def split: option.splits)
  have own: "hs_owner h c = Some tid" using inv run(1) by (auto simp: system_inv_def thread_ok_def dest!: spec [of _ tid])
  have q: "q_holds (tc_q ctx) (map event_bytes (waiting h tid))" "tc_is_alive ctx = (sy_threads s tid \<noteq> T_Ended)"
    using inv ctx(1) own by (auto simp: system_inv_def queues_ok_def)
  have late: "late_ok s h" using inv by (simp add: system_inv_def)
  note ev = inv_events [OF inv, of tid]
  have "event_ok e" using e by (simp add: event_typed_def)
  then have q': "q_holds q' (map event_bytes (if stored then waiting h tid @ [e] else waiting h tid))"
    using push_event_law [OF _ q(1), of e] ctx(2) by auto
  let ?h = "observe_log stored tid e s h"
  have waits: "waiting ?h tid = (if stored then waiting h tid @ [e] else waiting h tid)"
    using waiting_logged ev by (simp add: observe_log_def [of False])
  have others: "u \<noteq> tid \<Longrightarrow> waiting ?h u = waiting h u" for u by (simp add: waiting_def observe_log_def)
  have owner: "hs_owner ?h = hs_owner h" by (simp add: observe_log_def)
  have same: "ctx_of (rg_of s') = ctx_of (rg_of s)" by (simp add: run(3) ctx(3) ctx_of_def fun_eq_iff)
  have "checked s' ?h u \<longleftrightarrow> checked s h u" for u
    by (simp add: checked_def owner_at_cong [OF same owner]) (simp add: run(3))
  moreover have "freed_thread s' ?h u \<longleftrightarrow> freed_thread s h u" for u
    using run(3) by (simp add: freed_thread_def owned_cong [OF owner])
  moreover have "u \<in> hs_late ?h \<longleftrightarrow> u \<in> hs_late h \<or> stored \<and> u = tid \<and> checked s h tid" for u
    by (auto simp: observe_log_def)
  ultimately have "late_ok s' ?h"
    using late_okD [OF late] owner_not_freed [OF own] waits others unfolding late_ok_def
    by (metis append_is_Nil_conv list.distinct(1))
  then show ?thesis
    by (intro system_inv_context [OF inv ctx(1) own, where ctx' = "ctx\<lparr>tc_q := q'\<rparr>"])
      (use run(1,3) ctx(3) q q' waits owner ev e inv in \<open>auto simp: observe_log_def system_inv_def\<close>)
qed

lemma end_inv:
  assumes inv: "system_inv en ns s h" and step: "thread_end tid s = Some s'"
  shows "system_inv en ns s' h"
proof -
  obtain c rg where run: "sy_threads s tid = T_Running c" "context_kill c (rg_of s) = Some rg"
      "s' = (set_registry rg s)\<lparr>sy_threads := (sy_threads s)(tid := T_Ended)\<rparr>"
    using step by (auto simp: thread_end_def split: thread_state.splits)
  obtain ctx where ctx: "rg_contexts (rg_of s) c = Some ctx"
      "rg = (rg_of s)\<lparr>rg_contexts := (rg_contexts (rg_of s))(c \<mapsto> kill ctx)\<rparr>"
    using run(2) by (auto simp: context_kill_def)
  have own: "hs_owner h c = Some tid" using inv run(1) by (auto simp: system_inv_def thread_ok_def dest!: spec [of _ tid])
  have q: "q_holds (tc_q ctx) (map event_bytes (waiting h tid))"
    using inv ctx(1) own by (auto simp: system_inv_def queues_ok_def)
  have late: "late_ok s h" using inv by (simp add: system_inv_def)
  have same: "ctx_of (rg_of s') = ctx_of (rg_of s)" by (simp add: run(3) ctx(2) ctx_of_def fun_eq_iff)
  have "checked s' h u \<longleftrightarrow> checked s h u" for u
    by (simp add: checked_def owner_at_cong [OF same refl]) (simp add: run(3))
  moreover have "freed_thread s' h u \<longleftrightarrow> freed_thread s h u" for u
    using run(1,3) own by (cases "u = tid") (auto simp: freed_thread_def owned_def)
  ultimately have "late_ok s' h" using late by (simp add: late_ok_def)
  then show ?thesis
    by (intro system_inv_context [OF inv ctx(1) own, where ctx' = "kill ctx"])
      (use run(1,3) ctx(2) q inv_events [OF inv, of tid] inv in \<open>auto simp: kill_def system_inv_def\<close>)
qed

subsection \<open>Steps that leave the memory alone\<close>

lemma system_inv_frame:
  assumes inv: "system_inv en ns s h" and rg: "rg_of s' = rg_of s" and th: "sy_threads s' = sy_threads s"
    and h: "hs_owner h' = hs_owner h" "hs_logged h' = hs_logged h" "hs_processed h' = hs_processed h"
    and pc: "registry_at s' ns" "pc_ok (sy_pc s') ns" "late_ok s' h'" "dead_ok s' h'"
  shows "system_inv en ns s' h'"
proof -
  have "thread_ok s' h' ns t = thread_ok s h ns t" for t
    by (cases "sy_threads s t") (simp_all add: thread_ok_def rg th h owned_cong [OF h(1)])
  moreover have "waiting h' = waiting h" by (simp add: waiting_def h fun_eq_iff)
  ultimately show ?thesis
    using inv pc by (simp add: system_inv_def queues_ok_def events_ok_def rg th h)
qed

lemma system_inv_quiet:
  assumes inv: "system_inv en ns s h" and rg: "rg_of s' = rg_of s" and th: "sy_threads s' = sy_threads s"
    and pc: "checked_node (sy_pc s') = checked_node (sy_pc s)" "removing (sy_pc s') = removing (sy_pc s)"
      "removed_node (sy_pc s') = removed_node (sy_pc s)" "pc_ok (sy_pc s') ns"
  shows "system_inv en ns s' h"
proof (rule system_inv_frame [OF inv rg th refl refl refl _ pc(4)])
  show "registry_at s' ns"
    by (rule registry_at_same [of s]) (use inv rg th pc in \<open>simp_all add: system_inv_def\<close>)
  show "late_ok s' h" "dead_ok s' h"
    using inv by (simp_all add: system_inv_def late_ok_def dead_ok_def checked_def freed_thread_def rg th pc)
qed

subsection \<open>Checking and removing a thread\<close>

lemma check_inv:
  assumes inv: "system_inv en ns s h" and pc: "sy_pc s = Check n next" and step: "check_step n next s = Some s'"
  shows "system_inv en ns s' (observe_backend s s' h)"
proof -
  have n: "n \<in> set ns" by (rule pc_node_listed [OF inv]) (simp add: pc)
  obtain nd ctx t where o: "rg_nodes (rg_of s) n = Some nd" "rg_contexts (rg_of s) (nd_context nd) = Some ctx"
      "hs_owner h (nd_context nd) = Some t" "tc_is_alive ctx = (sy_threads s t \<noteq> T_Ended)"
    using listed_owner [OF inv n] by metis
  have owner: "owner_at h (rg_of s) n = Some t" using o(1,3) by (simp add: owner_at_node)
  obtain pre post where ns: "ns = pre @ n # post" "next = list_head post" using inv pc by (auto simp: system_inv_def)
  have at: "registry_at s ns" and late: "late_ok s h" using inv by (simp_all add: system_inv_def)
  let ?pc = "if tc_is_alive ctx then At next else Remove n next"
  have s': "s' = s\<lparr>sy_pc := ?pc\<rparr>" using step o(1,2) by (simp add: check_step_def thread_is_alive_def)
  have "registry_at s' ns" by (rule registry_at_same [OF at]) (simp_all add: s' pc)
  moreover have "pc_ok (sy_pc s') ns" using ns pc_ok_next [of post pre n] by (auto simp: s')
  moreover have "late_ok s' (observe_backend s s' h) \<and> dead_ok s' (observe_backend s s' h)"
  proof (cases "tc_is_alive ctx")
    case True
    have h': "observe_backend s s' h = not_late (Some t) h" using True owner by (simp add: observe_backend_def pc s')
    moreover have "checked s h u \<longleftrightarrow> u = t" for u using owner by (auto simp: checked_def pc)
    ultimately have "late_ok s' (observe_backend s s' h)"
      using late_okD [OF late] owner_not_freed [OF o(3)] True
      by (auto simp: late_ok_def not_late_def checked_def freed_thread_def owned_def waiting_def s')
    then show ?thesis using True by (simp add: dead_ok_def s')
  next
    case False
    have "observe_backend s s' h = h" using False by (simp add: observe_backend_def pc s')
    then show ?thesis using late False owner o(4) by (auto simp: late_ok_def dead_ok_def checked_def freed_thread_def pc s')
  qed
  ultimately show ?thesis
    by (intro system_inv_frame [OF inv]) (auto simp: s' observe_backend_def not_late_def pc split: option.split)
qed

lemma freed_inv:
  assumes inv: "system_inv en ns s h" and n: "n \<in> set ns" and pc: "checked_node (sy_pc s) = Some n" "removed_node (sy_pc s) = Some n"
    and freed: "freed n (rg_of s) (rg_of s')" and at: "registry_at s' (remove1 n ns)"
    and th: "sy_threads s' = sy_threads s" and pc': "sy_pc s' = At next" "pc_ok (At next) (remove1 n ns)"
  shows "system_inv en (remove1 n ns) s' (disown (ctx_of (rg_of s) n) h)"
proof -
  have old: "\<And>u. thread_ok s h ns u" "queues_ok s h" "events_ok en h" "late_ok s h" "dead_ok s h"
    using inv by (simp_all add: system_inv_def)
  obtain nd t where o: "rg_nodes (rg_of s) n = Some nd" "hs_owner h (nd_context nd) = Some t"
    using listed_owner [OF inv n] by metis
  define c where "c = nd_context nd"
  have c: "ctx_of (rg_of s) n = Some c" "hs_owner h c = Some t" "owner_at h (rg_of s) n = Some t"
    using o by (simp_all add: c_def ctx_of_def owner_at_node)
  have uniq: "hs_owner h x = Some t \<longleftrightarrow> x = c" for x using owner_unique [OF old(2) c(2)] c(2) by blast
  have rg: "ctx_of (rg_of s') = (ctx_of (rg_of s))(n := None)"
      "rg_contexts (rg_of s') = (rg_contexts (rg_of s))(c := None)"
    using freed c(1) by (simp_all add: freed_def)
  have t: "sy_threads s t = T_Ended" using old(5) pc(2) c(3) by (simp add: dead_ok_def)
  define h' where "h' = h\<lparr>hs_owner := (hs_owner h)(c := None)\<rparr>"
  have h': "disown (ctx_of (rg_of s) n) h = h'" "waiting h' = waiting h"
    by (simp_all add: disown_def c(1) h'_def waiting_def fun_eq_iff)
  have own: "hs_owner h' x = Some u \<longleftrightarrow> u \<noteq> t \<and> hs_owner h x = Some u" for x u
    by (cases "x = c") (use c(2) uniq [of x] in \<open>auto simp: h'_def\<close>)
  have owned: "owned h' u \<longleftrightarrow> u \<noteq> t \<and> owned h u" for u by (auto simp: owned_def own)
  have distinct: "distinct ns" using inv registry_at_holds by (auto simp: system_inv_def rg_holds_def)
  have "thread_ok s' h' (remove1 n ns) u" for u
  proof (cases "u = t")
    case True
    then show ?thesis using t by (simp add: thread_ok_def th own)
  next
    case False
    have keep: "ctx_of (rg_of s') m = Some x \<and> m \<noteq> n" if "hs_owner h x = Some u" "ctx_of (rg_of s) m = Some x" for x m
    proof -
      have "x \<noteq> c" using that(1) c(2) False by auto
      then have "m \<noteq> n" using that(2) c(1) by auto
      then show ?thesis using that(2) by (simp add: rg)
    qed
    have listed: "\<exists>m \<in> set (remove1 n ns). ctx_of (rg_of s') m = Some x"
      if "hs_owner h x = Some u" "\<exists>m \<in> set ns. ctx_of (rg_of s) m = Some x" for x
      using that keep distinct by (metis in_set_remove1)
    have logged: "hs_logged h' = hs_logged h" by (simp add: h'_def)
    show ?thesis
    proof (cases "sy_threads s u")
      case T_New
      then show ?thesis using old(1) [of u] by (simp add: thread_ok_def th owned logged)
    next
      case (T_Registering m x)
      then show ?thesis using old(1) [of u] keep False by (simp add: thread_ok_def th own logged)
    next
      case (T_Running x)
      then have x: "hs_owner h x = Some u" "\<exists>m \<in> set ns. ctx_of (rg_of s) m = Some x"
        using old(1) [of u] by (simp_all add: thread_ok_def)
      from listed [OF this] show ?thesis using T_Running x(1) False by (simp add: thread_ok_def th own)
    next
      case T_Ended
      then show ?thesis using old(1) [of u] listed by (simp add: thread_ok_def th own)
    qed
  qed
  moreover have "queues_ok s' h'"
    unfolding queues_ok_def rg h'(2) th own
    using old(2) c(2) unfolding queues_ok_def by (auto simp: h'_def)
  moreover have "events_ok en h'" using old(3) by (simp add: events_ok_def h'_def)
  moreover have "late_ok s' h'"
  proof -
    have "checked s h u \<longleftrightarrow> u = t" for u using c(3) pc(1) by (auto simp: checked_def)
    moreover have "freed_thread s' h' u \<longleftrightarrow> freed_thread s h u \<or> u = t" for u using t by (auto simp: freed_thread_def owned th)
    moreover have "\<not> checked s' h' u" for u by (simp add: checked_def pc')
    moreover have "hs_late h' = hs_late h" by (simp add: h'_def)
    ultimately show ?thesis using old(4) unfolding late_ok_def h'(2) by blast
  qed
  moreover have "dead_ok s' h'" by (simp add: dead_ok_def pc')
  ultimately show ?thesis using at pc' by (simp add: system_inv_def h'(1))
qed

lemma remove1_member: "distinct (pre @ n # post) \<Longrightarrow> remove1 n (pre @ n # post) = pre @ post"
  by (simp add: remove1_append)

lemma remove_inv:
  assumes inv: "system_inv en ns s h" and pc: "sy_pc s = Remove n next" and step: "remove_step n next s = Some s'"
  shows "\<exists>ns'. system_inv en ns' s' (observe_backend s s' h)"
proof -
  have n: "n \<in> set ns" by (rule pc_node_listed [OF inv]) (simp add: pc)
  obtain pre post where ns: "ns = pre @ n # post" "next = list_head post" using inv pc by (auto simp: system_inv_def)
  have at: "registry_at s ns" using inv by (simp add: system_inv_def)
  then have "distinct ns" using registry_at_holds by (auto simp: rg_holds_def)
  then have pc_ok: "pc_ok (At next) (remove1 n ns)" using ns remove1_member pc_ok_at by metis
  from remove_cas_freed [OF at n] show ?thesis
  proof (elim disjE exE conjE)
    fix rg assume cas: "remove_cas n (rg_of s) = Some (Inl rg)" and freed: "freed n (rg_of s) rg"
    have s': "s' = (set_registry rg s)\<lparr>sy_pc := At next\<rparr>" using step cas by (simp add: remove_step_def)
    have "registry_at s' (remove1 n ns)" by (rule registry_at_remove [OF at n]) (use cas in \<open>simp_all add: s' pc\<close>)
    then have "system_inv en (remove1 n ns) s' (disown (ctx_of (rg_of s) n) h)"
      by (intro freed_inv [OF inv n]) (use freed pc_ok in \<open>simp_all add: s' pc\<close>)
    moreover have "observe_backend s s' h = disown (ctx_of (rg_of s) n) h" by (simp add: observe_backend_def pc s')
    ultimately show ?thesis by metis
  next
    fix e assume cas: "remove_cas n (rg_of s) = Some (Inr e)"
    have s': "s' = s\<lparr>sy_pc := Unlink n e next\<rparr>" using step cas by (simp add: remove_step_def)
    have "registry_at s' ns" by (rule registry_at_remove_behind [OF at n _ cas]) (simp_all add: s' pc)
    moreover have "late_ok s' h" "dead_ok s' h"
      using inv by (simp_all add: system_inv_def late_ok_def dead_ok_def checked_def freed_thread_def s' pc)
    moreover have "pc_ok (sy_pc s') ns" using ns by (auto simp: s')
    moreover have "observe_backend s s' h = h" by (simp add: observe_backend_def pc s')
    ultimately show ?thesis by (intro exI [of _ ns] system_inv_frame [OF inv]) (simp_all add: s')
  qed
qed

lemma unlink_inv:
  assumes inv: "system_inv en ns s h" and pc: "sy_pc s = Unlink n expected next"
    and step: "unlink_step n expected next s = Some s'"
  shows "\<exists>ns'. system_inv en ns' s' (observe_backend s s' h)"
proof -
  have n: "n \<in> set ns" by (rule pc_node_listed [OF inv]) (simp add: pc)
  obtain pre post where ns: "ns = pre @ n # post" "next = list_head post" using inv pc by (auto simp: system_inv_def)
  have at: "registry_at s ns" using inv by (simp add: system_inv_def)
  then have "distinct ns" using registry_at_holds by (auto simp: rg_holds_def)
  then have pc_ok: "pc_ok (At next) (remove1 n ns)" using ns remove1_member pc_ok_at by metis
  obtain rg where rg: "remove_unlink n expected (rg_of s) = Some rg" "freed n (rg_of s) rg"
    using remove_unlink_freed [OF at, of n expected] pc by auto
  have s': "s' = (set_registry rg s)\<lparr>sy_pc := At next\<rparr>" using step rg(1) by (simp add: unlink_step_def)
  have "registry_at s' (remove1 n ns)" by (rule registry_at_unlink [OF at n]) (use rg(1) in \<open>simp_all add: s' pc\<close>)
  then have "system_inv en (remove1 n ns) s' (disown (ctx_of (rg_of s) n) h)"
    by (intro freed_inv [OF inv n]) (use rg(2) pc_ok in \<open>simp_all add: s' pc\<close>)
  moreover have "observe_backend s s' h = disown (ctx_of (rg_of s) n) h" by (simp add: observe_backend_def pc s')
  ultimately show ?thesis by metis
qed

subsection \<open>Registering a thread\<close>

lemma pc_ok_Cons: "pc_ok pc ns \<Longrightarrow> pc_ok pc (n # ns)"
  by (cases pc) (simp_all, (metis append_Cons)+)

lemma registering_update:
  assumes "\<And>t m d. th t = T_Registering m d \<Longrightarrow> m = n \<Longrightarrow> t = tid" and "th tid = T_Registering n c"
  shows "registering (th(tid := T_Running c)) = registering th - {n}"
proof (rule set_eqI)
  fix m
  have "m \<in> registering (th(tid := T_Running c)) \<longleftrightarrow> (\<exists>t d. t \<noteq> tid \<and> th t = T_Registering m d)"
    by (auto simp: registering_def)
  also have "\<dots> \<longleftrightarrow> (\<exists>t d. th t = T_Registering m d) \<and> m \<noteq> n"
    using assms by (metis thread_state.inject(1))
  finally show "m \<in> registering (th(tid := T_Running c)) \<longleftrightarrow> m \<in> registering th - {n}"
    by (simp add: registering_def)
qed

lemma checked_other_cong:
  assumes "\<And>n. n \<in> set ns \<Longrightarrow> owner_at h' (rg_of s') n = owner_at h (rg_of s) n" and "system_inv en ns s h"
    and "sy_pc s' = sy_pc s"
  shows "checked s' h' u \<longleftrightarrow> checked s h u"
    and "removed_node (sy_pc s) = Some n \<Longrightarrow> owner_at h' (rg_of s') n = owner_at h (rg_of s) n"
proof -
  have "checked_node (sy_pc s) = Some m \<Longrightarrow> m \<in> set ns" for m using pc_node_listed assms(2) by blast
  then show "checked s' h' u \<longleftrightarrow> checked s h u" using assms(1,3) unfolding checked_def by metis
  assume "removed_node (sy_pc s) = Some n"
  then have "checked_node (sy_pc s) = Some n" by (cases "sy_pc s") simp_all
  then show "owner_at h' (rg_of s') n = owner_at h (rg_of s) n" using pc_node_listed assms(1,2) by blast
qed

lemma begin_inv:
  assumes inv: "system_inv en ns s h" and new: "sy_threads s tid = T_New"
    and fresh: "rg_nodes (rg_of s) n = None" "rg_contexts (rg_of s) c = None"
    and size: "unat qsize \<le> 2 ^ 62" and step: "thread_begin tid nm qsize c n s = Some s'"
  shows "system_inv en ns s' (h\<lparr>hs_owner := (hs_owner h)(c \<mapsto> tid)\<rparr>)"
proof -
  obtain ctx un where ctx: "new_thread_context nm qsize (sy_unnamed s) = Some (ctx, un)"
      and s': "s' = (set_registry (register_begin n c (add_context c ctx (rg_of s))) s)
            \<lparr>sy_unnamed := un, sy_threads := (sy_threads s)(tid := T_Registering n c)\<rparr>"
    using step by (auto simp: thread_begin_def split: option.splits)
  define h' where "h' = h\<lparr>hs_owner := (hs_owner h)(c \<mapsto> tid)\<rparr>"
  have h': "hs_owner h' = (hs_owner h)(c \<mapsto> tid)" "hs_logged h' = hs_logged h" "hs_processed h' = hs_processed h"
      "hs_late h' = hs_late h"
    by (simp_all add: h'_def)
  have old: "registry_at s ns" "\<And>u. thread_ok s h ns u" "queues_ok s h" "events_ok en h" "late_ok s h" "dead_ok s h"
      "pc_ok (sy_pc s) ns"
    using inv by (simp_all add: system_inv_def)
  have holds: "linked (rg_nodes (rg_of s)) (rg_head (rg_of s)) ns" "ctx_ok (rg_of s)"
    using registry_at_holds [OF old(1)] by (simp_all add: rg_holds_def)
  have rg: "ctx_of (rg_of s') = (ctx_of (rg_of s))(n \<mapsto> c)"
      "rg_contexts (rg_of s') = (rg_contexts (rg_of s))(c \<mapsto> ctx)"
    by (simp_all add: s' register_begin_def add_context_def ctx_of_def fun_eq_iff)
  have n: "n \<notin> set ns" using linked_alloc [OF holds(1)] fresh(1) by blast
  have c: "hs_owner h c = None" using old(3) fresh(2) unfolding queues_ok_def by blast
  have free: "\<not> owned h tid" "hs_logged h tid = []" using old(2) [of tid] new by (simp_all add: thread_ok_def)
  have wait: "waiting h tid = []" using free(2) by (simp add: waiting_def)
  have waits: "waiting h' = waiting h" by (simp add: waiting_def h' fun_eq_iff)
  have ctx_ok: "ctx_of (rg_of s) m = Some d \<Longrightarrow> d \<noteq> c" for m d using holds(2) fresh(2) unfolding ctx_ok_def by blast
  have same: "owner_at h' (rg_of s') m = owner_at h (rg_of s) m" if "m \<in> set ns" for m
    using that n ctx_ok [of m] by (auto simp: owner_at_def rg h' split: option.split)
  have owned: "owned h' u \<longleftrightarrow> u = tid \<or> owned h u" for u
    using c by (auto simp: owned_def h') (metis option.distinct(1))
  have th: "sy_threads s' = (sy_threads s)(tid := T_Registering n c)" "sy_pc s' = sy_pc s" by (simp_all add: s')
  have "registry_at s' ns"
  proof (rule registry_at_begin [OF old(1) fresh])
    show "registering (sy_threads s') = insert n (registering (sy_threads s))"
      using new by (auto simp: registering_def th split: if_splits) (metis thread_state.distinct(1))
  qed (simp_all add: s')
  moreover have "thread_ok s' h' ns u" for u
  proof (cases "u = tid")
    case True
    then show ?thesis using free by (simp add: thread_ok_def th rg h')
  next
    case False
    have keep: "\<exists>m \<in> set ns. ctx_of (rg_of s') m = Some x" if "\<exists>m \<in> set ns. ctx_of (rg_of s) m = Some x" for x
      using that n by (auto simp: rg)
    have "hs_owner h x = Some u \<Longrightarrow> x \<noteq> c" for x using c by auto
    then have own: "hs_owner h' x = Some u \<longleftrightarrow> hs_owner h x = Some u" for x using False by (auto simp: h')
    have "sy_threads s u = T_Registering m x \<Longrightarrow> m \<noteq> n" for m x
      using registry_at_registering [OF old(1)] fresh(1) by blast
    then show ?thesis
      using old(2) [of u] keep False
      by (cases "sy_threads s u") (simp_all add: thread_ok_def th own owned h'(2), simp_all add: rg)
  qed
  moreover have "queues_ok s' h'"
    unfolding queues_ok_def
  proof (intro conjI allI impI)
    show "(rg_contexts (rg_of s') d = None) = (hs_owner h' d = None)" for d
      using old(3) by (simp add: queues_ok_def rg h')
    show "d = d'" if "hs_owner h' d = Some u" "hs_owner h' d' = Some u" for d d' u
      using that owner_unique [OF old(3), of d u d'] free(1) by (auto simp: owned_def h' split: if_splits)
    fix d x u assume d: "rg_contexts (rg_of s') d = Some x" "hs_owner h' d = Some u"
    have "q_holds (tc_q x) (map event_bytes (waiting h u)) \<and> tc_is_alive x = (sy_threads s' u \<noteq> T_Ended)"
    proof (cases "d = c")
      case True
      then show ?thesis using d new_thread_context_ok [OF size ctx] wait by (simp add: rg th h')
    next
      case False
      then have "hs_owner h d = Some u" "rg_contexts (rg_of s) d = Some x" using d by (simp_all add: rg h')
      moreover from this have "u \<noteq> tid" using free(1) by (auto simp: owned_def)
      ultimately show ?thesis using old(3) unfolding queues_ok_def by (simp add: th)
    qed
    then show "q_holds (tc_q x) (map event_bytes (waiting h' u))" "tc_is_alive x = (sy_threads s' u \<noteq> T_Ended)"
      by (simp_all add: waits)
  qed
  moreover have "late_ok s' h'"
    using old(5) new free(1) checked_other_cong(1) [OF same inv th(2)]
    by (auto simp: late_ok_def freed_thread_def owned waits th h'(4))
  moreover have "dead_ok s' h'"
    using old(6) new checked_other_cong(2) [OF same inv th(2)] unfolding dead_ok_def th(2) by (auto simp: th(1))
  ultimately show ?thesis using old(4,7) by (simp add: system_inv_def events_ok_def th(2) h'(2,3) h'_def [symmetric])
qed

lemma cas_inv:
  assumes inv: "system_inv en ns s h" and step: "thread_cas spurious tid s = Some s'"
  shows "\<exists>ns'. system_inv en ns' s' h"
proof -
  obtain n c ok rg where run: "sy_threads s tid = T_Registering n c" "register_cas spurious n (rg_of s) = Some (ok, rg)"
      "s' = (set_registry rg s)\<lparr>sy_threads := (if ok then (sy_threads s)(tid := T_Running c) else sy_threads s)\<rparr>"
    using step by (auto simp: thread_cas_def split: thread_state.splits option.splits)
  have old: "registry_at s ns" "\<And>u. thread_ok s h ns u" "queues_ok s h" "events_ok en h" "late_ok s h" "dead_ok s h"
      "pc_ok (sy_pc s) ns"
    using inv by (simp_all add: system_inv_def)
  have ok: "ctx_ok (rg_of s)" using registry_at_holds [OF old(1)] by (simp add: rg_holds_def)
  have rg: "ctx_of rg = ctx_of (rg_of s)" "rg_contexts rg = rg_contexts (rg_of s)"
    using run(2) by (auto simp: register_cas_def ctx_of_def fun_eq_iff split: option.splits if_splits)
  have tid: "hs_owner h c = Some tid" "ctx_of (rg_of s) n = Some c"
    using old(2) [of tid] run(1) by (simp_all add: thread_ok_def)
  let ?ns = "if ok then n # ns else ns"
  have own: "owner_at h rg = owner_at h (rg_of s)" by (rule owner_at_cong [OF rg(1) refl])
  have same: "checked s' h u \<longleftrightarrow> checked s h u" "freed_thread s' h u \<longleftrightarrow> freed_thread s h u" for u
    using run(1,3) by (auto simp: checked_def own freed_thread_def)
  have "registry_at s' ?ns"
  proof (rule registry_at_cas [OF old(1)])
    show "n \<in> registering (sy_threads s)" using run(1) by (auto simp: registering_def)
    have "t = tid" if t: "sy_threads s t = T_Registering m d" "m = n" for t m d
    proof -
      have "hs_owner h d = Some t" "ctx_of (rg_of s) m = Some d" using old(2) [of t] t by (simp_all add: thread_ok_def)
      then show "t = tid" using tid t(2) by simp
    qed
    from registering_update [of "sy_threads s" n tid c, OF this run(1)]
    show "registering (sy_threads s') = registering (sy_threads s) - (if ok then {n} else {})"
      using run(3) by auto
  qed (use run(2,3) in simp_all)
  moreover have "pc_ok (sy_pc s') ?ns" using old(7) pc_ok_Cons run(3) by auto
  moreover have "thread_ok s' h ?ns u" for u
  proof (cases "u = tid \<and> ok")
    case True
    then show ?thesis using tid run(3) rg(1) by (auto simp: thread_ok_def)
  next
    case False
    then have "sy_threads s' u = sy_threads s u" using run(3) by auto
    moreover have "set ns \<subseteq> set ?ns" by auto
    ultimately show ?thesis
      using old(2) [of u] run(3) rg(1) by (cases "sy_threads s u") (auto simp: thread_ok_def)
  qed
  moreover have "queues_ok s' h"
  proof -
    have "sy_threads s' u = T_Ended \<longleftrightarrow> sy_threads s u = T_Ended" for u using run(1,3) by auto
    then show ?thesis using old(3) run(3) by (simp add: queues_ok_def rg(2))
  qed
  moreover have "late_ok s' h" using old(5) by (simp add: late_ok_def same)
  moreover have "dead_ok s' h" using old(6) run(1,3) by (auto simp: dead_ok_def own)
  ultimately show ?thesis using old(4) unfolding system_inv_def by blast
qed

subsection \<open>Every step keeps the invariant\<close>

lemma loop_top_inv:
  assumes inv: "system_inv en ns s h" and pc: "sy_pc s = Loop_Top" and step: "loop_top_step cr s = Some s'"
  shows "system_inv en ns s' (observe_backend s s' h)"
proof -
  have s': "rg_of s' = rg_of s" "sy_threads s' = sy_threads s" "sy_pc s' = Pass_Start \<or> sy_pc s' = Finished"
    using step by (auto simp: loop_top_step_def Let_def split: if_splits prod.splits)
  have "observe_backend s s' h = h" by (simp add: observe_backend_def pc)
  moreover have "system_inv en ns s' h" by (rule system_inv_quiet [OF inv s'(1,2)]) (use s'(3) in \<open>auto simp: pc\<close>)
  ultimately show ?thesis by simp
qed

lemma backend_step_inv:
  assumes inv: "system_inv en ns s h" and step: "backend_step en cr s = Some s'"
  shows "\<exists>ns'. system_inv en ns' s' (observe_backend s s' h)"
proof (cases "sy_pc s")
  case Loop_Top
  then show ?thesis using loop_top_inv [OF inv] step by (auto simp: backend_step_def)
next
  case Pass_Start
  have "rg_head (rg_of s) = list_head ns"
    using inv registry_at_holds linked_head by (fastforce simp: system_inv_def rg_holds_def)
  then have s': "s' = s\<lparr>sy_any := False, sy_pc := At (list_head ns)\<rparr>" using step Pass_Start by (simp add: backend_step_def)
  have "pc_ok (sy_pc s') ns" using pc_ok_at [of ns "[]"] by (simp add: s')
  then have "system_inv en ns s' h" by (intro system_inv_quiet [OF inv]) (simp_all add: s' Pass_Start)
  moreover have "observe_backend s s' h = h" by (simp add: observe_backend_def Pass_Start)
  ultimately show ?thesis by metis
next
  case (At p)
  show ?thesis
  proof (cases p)
    case None
    then have s': "s' = pass_end_step s" using step At by (simp add: backend_step_def)
    have "system_inv en ns s' h" by (intro system_inv_quiet [OF inv]) (simp_all add: s' pass_end_step_def At)
    moreover have "observe_backend s s' h = h" by (simp add: observe_backend_def At None)
    ultimately show ?thesis by metis
  next
    case (Some n)
    then show ?thesis using serve_inv [OF inv] step At by (auto simp: backend_step_def)
  qed
next
  case (Check n nx)
  then show ?thesis using check_inv [OF inv] step by (auto simp: backend_step_def)
next
  case (Remove n nx)
  then show ?thesis using remove_inv [OF inv] step by (auto simp: backend_step_def)
next
  case (Unlink n e nx)
  then show ?thesis using unlink_inv [OF inv] step by (auto simp: backend_step_def)
next
  case Finished
  then have "s' = s" "observe_backend s s' h = h" using step by (simp_all add: backend_step_def observe_backend_def)
  then show ?thesis using inv by auto
qed

lemma system_step_inv:
  assumes step: "system_step en (s, h) (s', h')" and inv: "system_inv en ns s h"
  shows "\<exists>ns'. system_inv en ns' s' h'"
proof -
  have pc: "pc_ok (sy_pc s) ns" using inv by (simp add: system_inv_def)
  have mem: "\<exists>ns'. system_inv en ns' (set_mem (rg_of s, o2) s) h" for o2
    by (rule exI [of _ ns], rule system_inv_quiet [OF inv]) (simp_all add: pc)
  have stop: "\<exists>ns'. system_inv en ns' (s\<lparr>sy_running := False\<rparr>) h"
    by (rule exI [of _ ns], rule system_inv_quiet [OF inv]) (simp_all add: pc)
  from step show ?thesis
  proof (cases rule: system_step.cases)
    case (st_begin tid n c qsize nm)
    then show ?thesis using begin_inv [OF inv] by blast
  next
    case (st_log e tid stored)
    then show ?thesis using log_inv [OF inv] by blast
  next
    case (st_end tid)
    then show ?thesis using end_inv [OF inv] by blast
  qed (use backend_step_inv [OF inv] cas_inv [OF inv] mem stop in auto)
qed

lemma system_inv_started:
  assumes "new_backend su = Some (Returns bk)"
  shows "system_inv en [] (started bk) no_history"
proof -
  have rg: "rg_of (started bk) = empty_registry" using new_backend_registry [OF assms] by (simp add: started_def)
  have "registry_inv init_registry" using registry_reachable_inv reach_init by blast
  moreover have st: "sy_threads (started bk) = (\<lambda>t. T_New)" "sy_pc (started bk) = Loop_Top" by (simp_all add: started_def)
  ultimately have "registry_at (started bk) []"
    by (intro registry_atI [where rs = init_registry]) (simp_all add: init_registry_def rg registering_def)
  then show ?thesis
    by (simp add: system_inv_def thread_ok_def owned_def no_history_def queues_ok_def events_ok_def
        late_ok_def dead_ok_def checked_def freed_thread_def rg st empty_registry_def)
qed

lemma system_reachable_inv: "system_reachable en su (s, h) \<Longrightarrow> \<exists>ns. system_inv en ns s h"
proof (induction "(s, h)" arbitrary: s h rule: system_reachable.induct)
  case (sr_start bk)
  then show ?case using system_inv_started by blast
next
  case (sr_step r)
  obtain s0 h0 where r: "r = (s0, h0)" by fastforce
  then show ?case using sr_step system_step_inv by blast
qed

end
