(* ===== verification/Interleaving.thy ===== *)
theory Interleaving
  imports Concurrent
begin

text \<open>
  What holds of every interleaving of the backend with the logging threads (theory \<open>Concurrent\<close>): no step
  touches memory that does not exist, every queue holds exactly what its thread has stored and the
  backend has not processed, which events can be lost, and that the loops of the backend without
  interference are the functions \<open>poll_threads\<close> and \<open>backend_turn\<close> of the sequential model.
\<close>

section \<open>What the invariant gives\<close>

lemma thread_steps_defined:
  assumes inv: "system_inv en ns s h"
  shows "sy_threads s t = T_Registering n c \<Longrightarrow> thread_cas spurious t s \<noteq> None"
    and "sy_threads s t = T_Running c \<Longrightarrow> thread_end t s \<noteq> None"
    and "sy_threads s t = T_Running c \<Longrightarrow> event_ok e \<Longrightarrow> thread_push t e s \<noteq> None"
proof -
  have at: "registry_at s ns" and th: "thread_ok s h ns t" and q: "queues_ok s h"
    using inv by (simp_all add: system_inv_def)
  show "thread_cas spurious t s \<noteq> None" if t: "sy_threads s t = T_Registering n c"
    using registry_at_registering [OF at t] t
    by (auto simp: thread_cas_def register_cas_def)
  assume t: "sy_threads s t = T_Running c"
  then have own: "hs_owner h c = Some t" using th by (simp add: thread_ok_def)
  then obtain ctx where ctx: "rg_contexts (rg_of s) c = Some ctx" using q unfolding queues_ok_def by (metis option.exhaust option.simps(3))
  show "thread_end t s \<noteq> None" using t ctx by (simp add: thread_end_def context_kill_def)
  assume "event_ok e"
  then obtain stored q' where "push_event e (tc_q ctx) = Some (stored, q')"
    using push_event_law [of e "tc_q ctx" "waiting h t"] q ctx own unfolding queues_ok_def by blast
  then show "thread_push t e s \<noteq> None" using t ctx by (simp add: thread_push_def context_log_def)
qed

lemma backend_step_undefined:
  assumes inv: "system_inv en ns s h" and none: "backend_step en cr s = None"
  shows "sy_pc s = Loop_Top \<and> try_resync_clock cr (bk_resync (sy_bk s)) = None \<or>
    (\<exists>n t e es. sy_pc s = At (Some n) \<and> owner_at h (rg_of s) n = Some t \<and> waiting h t = e # es \<and>
      process_event (with_clock (bk_resync (sy_bk s)) en) e (out_of s) = None)"
proof (cases "sy_pc s")
  case Loop_Top
  then show ?thesis using none by (auto simp: backend_step_def loop_top_step_def Let_def split: if_splits prod.splits)
next
  case (At p)
  then obtain n where n: "p = Some n" using none by (cases p) (simp_all add: backend_step_def)
  have pc: "sy_pc s = At (Some n)" using At n by simp
  obtain nd ctx t q' where o: "rg_nodes (rg_of s) n = Some nd" "rg_contexts (rg_of s) (nd_context nd) = Some ctx"
    "hs_owner h (nd_context nd) = Some t" "sy_threads s t = T_Running (nd_context nd) \<or> sy_threads s t = T_Ended"
    "\<exists>pre post. ns = pre @ n # post \<and> nd_next nd = list_head post"
    "q_holds q' (map event_bytes (tl (waiting h t)))" "tc_is_alive ctx = (sy_threads s t \<noteq> T_Ended)"
    "serve_step en n s =
       (let rg = (rg_of s)\<lparr>rg_contexts := (rg_contexts (rg_of s))(nd_context nd \<mapsto> ctx\<lparr>tc_q := q'\<rparr>)\<rparr>
        in case waiting h t of
             [] \<Rightarrow> Some ((set_mem (rg, out_of s) s)\<lparr>sy_any := sy_any s, sy_pc := Check n (nd_next nd)\<rparr>)
           | e # es \<Rightarrow> map_option (\<lambda>o2. (set_mem (rg, o2) s)\<lparr>sy_any := True, sy_pc := At (nd_next nd)\<rparr>)
               (process_event (with_clock (bk_resync (sy_bk s)) en) e (out_of s)))"
    using serve_step_cases [OF inv pc] .
  have "owner_at h (rg_of s) n = Some t" using o(1,3) by (simp add: owner_at_node)
  then show ?thesis using none o(8) pc by (cases "waiting h t") (auto simp: backend_step_def)
next
  case (Check n nx)
  have n: "n \<in> set ns" by (rule pc_node_listed [OF inv]) (simp add: Check)
  obtain nd ctx where "rg_nodes (rg_of s) n = Some nd" "rg_contexts (rg_of s) (nd_context nd) = Some ctx"
    using listed_owner [OF inv n] by metis
  then show ?thesis using none Check by (simp add: backend_step_def check_step_def)
next
  case (Remove n nx)
  have n: "n \<in> set ns" by (rule pc_node_listed [OF inv]) (simp add: Remove)
  have "registry_at s ns" using inv by (simp add: system_inv_def)
  from remove_cas_freed [OF this n] show ?thesis using none Remove by (auto simp: backend_step_def remove_step_def)
next
  case (Unlink n e nx)
  have "registry_at s ns" using inv by (simp add: system_inv_def)
  from remove_unlink_freed [OF this, of n e] show ?thesis using none Unlink by (auto simp: backend_step_def unlink_step_def)
qed (use none in \<open>simp_all add: backend_step_def\<close>)

text \<open>When the list is empty no thread is running and all contexts of ended threads are freed.\<close>

lemma empty_list_freed:
  assumes inv: "system_inv en ns s h" and empty: "rg_head (rg_of s) = None"
  shows "sy_threads s t \<noteq> T_Running c" and "sy_threads s t = T_Ended \<Longrightarrow> freed_thread s h t"
proof -
  have "linked (rg_nodes (rg_of s)) (rg_head (rg_of s)) ns"
    using inv registry_at_holds by (auto simp: system_inv_def rg_holds_def)
  then have ns: "ns = []" using empty by (cases ns) simp_all
  have th: "thread_ok s h ns t" using inv by (simp add: system_inv_def)
  show "sy_threads s t \<noteq> T_Running c" using th ns by (auto simp: thread_ok_def)
  show "freed_thread s h t" if "sy_threads s t = T_Ended" using th that ns by (auto simp: thread_ok_def freed_thread_def owned_def)
qed

section \<open>Without interference\<close>

text \<open>A pass whose steps are not interrupted is the \<open>poll_threads\<close> of theory \<open>Backend\<close>, an uninterrupted turn the
  \<open>backend_turn\<close> of \<open>Main_Loop\<close>.\<close>

definition backend_alone :: "environment \<Rightarrow> clock_reads \<Rightarrow> system \<Rightarrow> system \<Rightarrow> bool" where
  "backend_alone en cr = (\<lambda>s s'. backend_step en cr s = Some s')\<^sup>*\<^sup>*"

lemma alone_step: "backend_step en cr s = Some s' \<Longrightarrow> backend_alone en cr s' s'' \<Longrightarrow> backend_alone en cr s s''"
  unfolding backend_alone_def by (rule converse_rtranclp_into_rtranclp)

lemma alone_refl: "backend_alone en cr s s"
  by (simp add: backend_alone_def)

lemma alone_remove:
  assumes "remove_and_delete_node (Some n) (rg_of s) = Some rg" and "sy_pc s = Remove n nx"
    and "backend_alone en cr ((set_registry rg s)\<lparr>sy_pc := At nx\<rparr>) s'"
  shows "backend_alone en cr s s'"
proof (cases "remove_cas n (rg_of s)")
  case None
  then show ?thesis using assms(1) by (simp add: remove_and_delete_node_def)
next
  case (Some r)
  show ?thesis
  proof (cases r)
    case (Inl rg')
    then have "backend_step en cr s = Some ((set_registry rg s)\<lparr>sy_pc := At nx\<rparr>)"
      using assms(1,2) Some by (simp add: remove_and_delete_node_def backend_step_def remove_step_def)
    then show ?thesis using assms(3) by (rule alone_step)
  next
    case (Inr e)
    let ?s = "s\<lparr>sy_pc := Unlink n e nx\<rparr>"
    have "backend_step en cr s = Some ?s" using assms(2) Some Inr by (simp add: backend_step_def remove_step_def)
    moreover have "backend_step en cr ?s = Some ((set_registry rg s)\<lparr>sy_pc := At nx\<rparr>)"
      using assms(1) Some Inr
      by (simp add: backend_step_def unlink_step_def remove_and_delete_node_def set_registry_def set_mem_def)
    ultimately show ?thesis using alone_step assms(3) by metis
  qed
qed

definition in_pass :: "system \<Rightarrow> backend_mem \<Rightarrow> bool \<Rightarrow> backend_pc \<Rightarrow> system" where
  "in_pass s bm any pc = (set_mem bm s)\<lparr>sy_any := any, sy_pc := pc\<rparr>"

lemma in_pass_simps [simp]:
  "bk_mem (sy_bk (in_pass s bm any pc)) = bm" "sy_pc (in_pass s bm any pc) = pc"
  "bk_resync (sy_bk (in_pass s bm any pc)) = bk_resync (sy_bk s)" "sy_any (in_pass s bm any pc) = any"
  "set_mem bm' (in_pass s bm any pc) = in_pass s bm' any pc"
  "(in_pass s bm any pc)\<lparr>sy_pc := pc'\<rparr> = in_pass s bm any pc'"
  "(in_pass s bm any pc)\<lparr>sy_any := any', sy_pc := pc'\<rparr> = in_pass s bm any' pc'"
  by (simp_all add: in_pass_def set_mem_def)

lemma alone_reap:
  assumes "poll_reap n rg = Some rg'" and "backend_alone en cr (in_pass s (rg', o1) any (At nx)) s'"
  shows "backend_alone en cr (in_pass s (rg, o1) any (Check n nx)) s'"
proof -
  obtain nd ctx where n: "rg_nodes rg n = Some nd" "rg_contexts rg (nd_context nd) = Some ctx"
      "(if \<not> thread_is_alive ctx then remove_and_delete_node (Some n) rg else Some rg) = Some rg'"
    using assms(1) by (auto simp: poll_reap_def split: option.splits)
  let ?s = "\<lambda>pc. in_pass s (rg, o1) any pc"
  show ?thesis
  proof (cases "thread_is_alive ctx")
    case True
    then have "backend_step en cr (?s (Check n nx)) = Some (?s (At nx))" using n by (simp add: backend_step_def check_step_def)
    then show ?thesis using alone_step assms(2) n(3) True by simp
  next
    case False
    then have "backend_step en cr (?s (Check n nx)) = Some (?s (Remove n nx))" using n by (simp add: backend_step_def check_step_def)
    moreover have "backend_alone en cr (?s (Remove n nx)) s'"
      by (rule alone_remove [of n _ rg' nx]) (use n(3) False assms(2) in \<open>simp_all add: set_registry_def\<close>)
    ultimately show ?thesis by (rule alone_step)
  qed
qed

lemma poll_loop_alone:
  assumes "poll_loop (with_clock (bk_resync (sy_bk s)) en) p any0 bm = Some r"
  shows "backend_alone en cr (in_pass s bm any0 (At p)) (in_pass s (snd r) (fst r) (At None))"
proof (rule poll_loop.raw_induct [where P = "\<lambda>en' p any0 bm r. en' = with_clock (bk_resync (sy_bk s)) en \<longrightarrow>
    backend_alone en cr (in_pass s bm any0 (At p)) (in_pass s (snd r) (fst r) (At None))", OF _ assms, THEN mp, OF _ refl], rule impI)
  fix loop en' p any0 bm r
  assume IH: "\<And>en' p any0 bm r. loop en' p any0 bm = Some r \<Longrightarrow> en' = with_clock (bk_resync (sy_bk s)) en \<longrightarrow>
        backend_alone en cr (in_pass s bm any0 (At p)) (in_pass s (snd r) (fst r) (At None))"
    and body: "(case p of
         None \<Rightarrow> Some (any0, bm)
       | Some n \<Rightarrow>
           (case rg_nodes (fst bm) n of
              None \<Rightarrow> None
            | Some nd \<Rightarrow>
                (case poll_read en' n bm of
                   None \<Rightarrow> None
                 | Some (any, rg, o2) \<Rightarrow>
                     if any then loop en' (nd_next nd) True (rg, o2)
                     else (case poll_reap n rg of
                             None \<Rightarrow> None
                           | Some rg' \<Rightarrow> loop en' (nd_next nd) any0 (rg', o2))))) = Some r"
    and en': "en' = with_clock (bk_resync (sy_bk s)) en"
  show "backend_alone en cr (in_pass s bm any0 (At p)) (in_pass s (snd r) (fst r) (At None))"
  proof (cases p)
    case None
    then show ?thesis using body by (auto simp: alone_refl)
  next
    case (Some n)
    obtain nd any rg o2 where read: "rg_nodes (fst bm) n = Some nd" "poll_read en' n bm = Some (any, rg, o2)"
      using body Some by (auto split: option.splits)
    have step: "backend_step en cr (in_pass s bm any0 (At p)) =
        Some (in_pass s (rg, o2) (any0 \<or> any) (if any then At (nd_next nd) else Check n (nd_next nd)))"
      using read Some en' by (simp add: backend_step_def serve_step_def)
    show ?thesis
    proof (cases any)
      case True
      then have "loop en' (nd_next nd) True (rg, o2) = Some r" using body Some read by simp
      from IH [OF this] show ?thesis using alone_step [OF step] True en' by simp
    next
      case False
      then obtain rg' where reap: "poll_reap n rg = Some rg'" "loop en' (nd_next nd) any0 (rg', o2) = Some r"
        using body Some read by (auto split: option.splits)
      have "backend_alone en cr (in_pass s (rg', o2) any0 (At (nd_next nd))) (in_pass s (snd r) (fst r) (At None))"
        using IH [OF reap(2)] en' by simp
      from alone_reap [OF reap(1) this] show ?thesis using alone_step [OF step] False by simp
    qed
  qed
qed

lemma poll_threads_alone:
  assumes "poll_threads (with_clock (bk_resync (sy_bk s)) en) (bk_mem (sy_bk s)) = Some (any, bm)" and "sy_pc s = Pass_Start"
  shows "backend_alone en cr s (in_pass s bm any (At None))"
proof -
  have "backend_step en cr s = Some (in_pass s (bk_mem (sy_bk s)) False (At (rg_head (rg_of s))))"
    using assms(2) by (simp add: backend_step_def in_pass_def set_mem_def)
  moreover have "backend_alone en cr (in_pass s (bk_mem (sy_bk s)) False (At (rg_head (rg_of s)))) (in_pass s bm any (At None))"
    using poll_loop_alone [of s en "rg_head (rg_of s)" False "bk_mem (sy_bk s)" "(any, bm)"] assms(1)
    by (simp add: poll_threads_def)
  ultimately show ?thesis by (rule alone_step)
qed

lemma backend_turn_alone:
  assumes turn: "backend_turn en cr (sy_bk s) = Some bk'" and pc: "sy_pc s = Loop_Top" "sy_running s"
  shows "\<exists>s'. backend_alone en cr s s' \<and> sy_bk s' = bk' \<and> sy_pc s' = Loop_Top \<and> sy_threads s' = sy_threads s"
proof -
  obtain rg o1 where mem: "bk_mem (sy_bk s) = (rg, o1)" by fastforce
  let ?o = "o1\<lparr>o_sink := poll_for_pending_sink_switch (o_sink o1),
      o_formatter := poll_for_pending_formatter_switch (o_formatter o1)\<rparr>"
  obtain rc any bm where t: "try_resync_clock cr (bk_resync (sy_bk s)) = Some rc"
      "poll_threads (with_clock rc en) (rg, ?o) = Some (any, bm)"
      "bk' = \<lparr>bk_mem = bm, bk_resync = rc, bk_backoff_us = next_backoff any (bk_backoff_us (sy_bk s))\<rparr>"
    using turn mem by (auto simp: backend_turn_def Let_def split: option.splits)
  define s1 where "s1 = s\<lparr>sy_bk := (sy_bk s)\<lparr>bk_mem := (rg, ?o), bk_resync := rc\<rparr>, sy_draining := False, sy_pc := Pass_Start\<rparr>"
  have "backend_step en cr s = Some s1"
    using pc mem t(1) by (simp add: backend_step_def loop_top_step_def s1_def Let_def)
  moreover have "backend_alone en cr s1 (in_pass s1 bm any (At None))"
    by (rule poll_threads_alone) (use t(2) in \<open>simp_all add: s1_def\<close>)
  moreover have "backend_step en cr (in_pass s1 bm any (At None)) = Some (pass_end_step (in_pass s1 bm any (At None)))"
    by (simp add: backend_step_def)
  ultimately have "backend_alone en cr s (pass_end_step (in_pass s1 bm any (At None)))"
    unfolding backend_alone_def
    by (meson converse_rtranclp_into_rtranclp rtranclp.rtrancl_into_rtrancl)
  moreover have "sy_bk (pass_end_step (in_pass s1 bm any (At None))) = bk'"
    by (simp add: pass_end_step_def in_pass_def set_mem_def s1_def t(3))
  ultimately show ?thesis
    by (intro exI [of _ "pass_end_step (in_pass s1 bm any (At None))"])
      (simp add: pass_end_step_def in_pass_def set_mem_def s1_def)
qed

section \<open>How long a pass takes\<close>

text \<open>The pointer the backend goes on from, and the steps it still needs for the current node.\<close>

fun pass_pointer :: "backend_pc \<Rightarrow> (nat option \<times> nat) option" where
  "pass_pointer (At p) = Some (p, 0)"
| "pass_pointer (Check n next) = Some (next, 3)"
| "pass_pointer (Remove n next) = Some (next, 2)"
| "pass_pointer (Unlink n expected next) = Some (next, 1)"
| "pass_pointer pc = None"

definition ahead :: "system \<Rightarrow> nat \<Rightarrow> bool" where
  "ahead s k \<longleftrightarrow> (\<exists>p m post. pass_pointer (sy_pc s) = Some (p, m) \<and> linked (rg_nodes (rg_of s)) p post \<and>
     k = 4 * length post + m)"

text \<open>An execution during one pass, with the number of the backend's own steps in it.\<close>

inductive pass_run :: "environment \<Rightarrow> system \<times> history \<Rightarrow> nat \<Rightarrow> system \<times> history \<Rightarrow> bool" for en r where
  pr_start: "pass_run en r 0 r"
| pr_backend: "pass_run en r k (s, h) \<Longrightarrow> sy_pc s \<noteq> At None \<Longrightarrow> backend_step en cr s = Some s' \<Longrightarrow>
    pass_run en r (Suc k) (s', observe_backend s s' h)"
| pr_other: "pass_run en r k (s, h) \<Longrightarrow> system_step en (s, h) (s', h') \<Longrightarrow> sy_pc s' = sy_pc s \<Longrightarrow>
    pass_run en r k (s', h')"

lemma ahead_listed:
  assumes inv: "system_inv en ns s h" and "pass_pointer (sy_pc s) = Some (p, m)" and "linked (rg_nodes (rg_of s)) p post"
  obtains pre where "ns = pre @ post" "\<And>n. checked_node (sy_pc s) = Some n \<Longrightarrow> n \<in> set pre"
proof -
  have list: "linked (rg_nodes (rg_of s)) (rg_head (rg_of s)) ns"
    using inv registry_at_holds by (auto simp: system_inv_def rg_holds_def)
  have "\<exists>pre post'. ns = pre @ post' \<and> p = list_head post' \<and> (\<forall>n. checked_node (sy_pc s) = Some n \<longrightarrow> n \<in> set pre)"
  proof -
    have pc: "pc_ok (sy_pc s) ns" using inv by (simp add: system_inv_def)
    have "\<exists>pre' post'. pre @ n # post0 = pre' @ post' \<and> list_head post0 = list_head post' \<and> n \<in> set pre'" for pre n post0
      by (intro exI [of _ "pre @ [n]"] exI [of _ post0]) simp
    then show ?thesis using pc assms(2) by (cases "sy_pc s") auto
  qed
  then obtain pre post' where split: "ns = pre @ post'" "p = list_head post'"
      "\<And>n. checked_node (sy_pc s) = Some n \<Longrightarrow> n \<in> set pre" by blast
  have "linked (rg_nodes (rg_of s)) p post'"
  proof (cases post')
    case Nil
    then show ?thesis using split(2) by simp
  next
    case (Cons n ms)
    then show ?thesis using linked_append [of "rg_nodes (rg_of s)" "rg_head (rg_of s)" pre n ms] list split by simp
  qed
  then have "post' = post" using linked_unique assms(3) by blast
  then show ?thesis using that split by blast
qed

lemma ahead_nodes:
  assumes "ahead s k" and "sy_pc s' = sy_pc s" and "system_inv en ns s h"
    and "\<And>n. n \<in> set ns \<Longrightarrow> rg_nodes (rg_of s') n = rg_nodes (rg_of s) n"
  shows "ahead s' k"
proof -
  obtain p m post where a: "pass_pointer (sy_pc s) = Some (p, m)" "linked (rg_nodes (rg_of s)) p post" "k = 4 * length post + m"
    using assms(1) by (auto simp: ahead_def)
  obtain pre where "ns = pre @ post" using ahead_listed [OF assms(3) a(1,2)] .
  then have "linked (rg_nodes (rg_of s')) p post" using a(2) assms(4) linked_cong [of post "rg_nodes (rg_of s')"] by auto
  then show ?thesis using a assms(2) by (auto simp: ahead_def)
qed

lemma backend_ahead:
  assumes inv: "system_inv en ns s h" and ahead: "ahead s k" and pc: "sy_pc s \<noteq> At None"
    and step: "backend_step en cr s = Some s'"
  shows "\<exists>k' < k. ahead s' k'"
proof -
  obtain p m post where a: "pass_pointer (sy_pc s) = Some (p, m)" "linked (rg_nodes (rg_of s)) p post" "k = 4 * length post + m"
    using ahead by (auto simp: ahead_def)
  obtain pre where split: "ns = pre @ post" "\<And>n. checked_node (sy_pc s) = Some n \<Longrightarrow> n \<in> set pre"
    using ahead_listed [OF inv a(1,2)] by blast
  have holds: "linked (rg_nodes (rg_of s)) (rg_head (rg_of s)) ns" "distinct ns"
    using inv registry_at_holds by (auto simp: system_inv_def rg_holds_def)
  have out: "n \<in> set pre \<Longrightarrow> n \<notin> set post" for n using holds(2) split(1) by auto
  have at: "registry_at s ns" using inv by (simp add: system_inv_def)
  have moved: "\<exists>k' < k. ahead s' k'"
    if "pass_pointer (sy_pc s') = Some (p, m')" "m' < m" "\<And>n. n \<in> set post \<Longrightarrow> rg_nodes (rg_of s') n = rg_nodes (rg_of s) n" for m'
  proof -
    have "linked (rg_nodes (rg_of s')) p post" using a(2) that(3) linked_cong [of post "rg_nodes (rg_of s')"] by blast
    then show ?thesis using that a(3) by (auto simp: ahead_def intro!: exI [of _ "4 * length post + m'"])
  qed
  show ?thesis
  proof (cases "sy_pc s")
    case (At q)
    then obtain n where n: "p = Some n" "m = 0" "sy_pc s = At (Some n)" using pc a(1) by (cases q) auto
    then obtain ms nd where post: "post = n # ms" "rg_nodes (rg_of s) n = Some nd" "linked (rg_nodes (rg_of s)) (nd_next nd) ms"
      using a(2) by (cases post) (auto split: option.splits)
    obtain any bm where read: "poll_read (with_clock (bk_resync (sy_bk s)) en) n (bk_mem (sy_bk s)) = Some (any, bm)"
        "s' = (set_mem bm s)\<lparr>sy_any := (sy_any s \<or> any), sy_pc := (if any then At (nd_next nd) else Check n (nd_next nd))\<rparr>"
      using step n(3) post(2) by (auto simp: backend_step_def serve_step_def split: option.splits)
    have "rg_nodes (fst bm) = rg_nodes (rg_of s)"
      using read(1) by (auto simp: poll_read_def split: prod.splits option.splits)
    then have "ahead s' (4 * length ms + (if any then 0 else 3))"
      using post(3) by (auto simp: ahead_def read(2))
    then show ?thesis using a(3) n(2) post(1) by (intro exI [of _ "4 * length ms + (if any then 0 else 3)"]) simp
  next
    case (Check n nx)
    then obtain q where "s' = s\<lparr>sy_pc := q\<rparr>" "q = At nx \<or> q = Remove n nx"
      using step by (auto simp: backend_step_def check_step_def split: option.splits if_splits)
    then show ?thesis using a(1) Check moved [of 0] moved [of 2] by auto
  next
    case (Remove n nx)
    have n: "n \<in> set ns" by (rule pc_node_listed [OF inv]) (simp add: Remove)
    have "n \<notin> set post" using out split(2) [of n] Remove by simp
    show ?thesis
    proof (cases "remove_cas n (rg_of s)")
      case None
      then show ?thesis using step Remove by (simp add: backend_step_def remove_step_def)
    next
      case (Some r)
      show ?thesis
      proof (cases r)
        case (Inl rg)
        then have s': "s' = (set_registry rg s)\<lparr>sy_pc := At nx\<rparr>" using step Some Remove by (simp add: backend_step_def remove_step_def)
        have "rg_nodes rg = (rg_nodes (rg_of s))(n := None)"
          using Some Inl by (auto simp: remove_cas_def delete_node_def split: option.splits if_splits)
        then show ?thesis using a(1) Remove \<open>n \<notin> set post\<close> by (intro moved [of 0]) (auto simp: s')
      next
        case (Inr e)
        then have "s' = s\<lparr>sy_pc := Unlink n e nx\<rparr>" using step Some Remove by (simp add: backend_step_def remove_step_def)
        then show ?thesis using a(1) Remove by (intro moved [of 1]) auto
      qed
    qed
  next
    case (Unlink n e nx)
    obtain rs where rs: "registry_inv rs" "rs_rg rs = rg_of s" "rs_removing rs = Some (n, e)" "log_list (rs_log rs) = ns"
      using at Unlink by (auto simp: registry_at_def)
    then obtain pre1 as b bs where u: "ns = pre1 @ as @ b # n # bs" "linked (rg_nodes (rg_of s)) e (as @ b # n # bs)"
      by (auto simp: registry_inv_def removal_ok_def)
    obtain rg where rg: "remove_unlink n e (rg_of s) = Some rg" "\<forall>c. c \<noteq> b \<longrightarrow> c \<noteq> n \<longrightarrow> rg_nodes rg c = rg_nodes (rg_of s) c"
      using remove_unlink_linked [OF holds(1) [unfolded u(1)] holds(2) [unfolded u(1)] u(2)] by blast
    have s': "s' = (set_registry rg s)\<lparr>sy_pc := At nx\<rparr>" using step rg(1) Unlink by (simp add: backend_step_def unlink_step_def)
    obtain us vs where pre: "pre = us @ n # vs" using split(2) [of n] Unlink by (auto simp: in_set_conv_decomp)
    have "(pre1 @ as @ [b]) @ n # bs = us @ n # (vs @ post)" using u(1) split(1) pre by simp
    moreover have "n \<notin> set (pre1 @ as @ [b])" "n \<notin> set bs" using holds(2) u(1) by auto
    ultimately have "us = pre1 @ as @ [b]"
      using append_Cons_eq_iff [of n "pre1 @ as @ [b]" bs us "vs @ post"] by simp
    then have "b \<notin> set post" "n \<notin> set post" using out pre by auto
    then show ?thesis using a(1) Unlink rg(2) by (intro moved [of 0]) (auto simp: s')
  qed (use a(1) in simp_all)
qed

lemma other_ahead:
  assumes inv: "system_inv en ns s h" and ahead: "ahead s k" and step: "system_step en (s, h) (s', h')"
    and pc: "sy_pc s' = sy_pc s"
  shows "\<exists>k' \<le> k. ahead s' k'"
proof -
  have at: "registry_at s ns" and list: "linked (rg_nodes (rg_of s)) (rg_head (rg_of s)) ns"
    using inv registry_at_holds by (auto simp: system_inv_def rg_holds_def)
  have same: "\<exists>k' \<le> k. ahead s' k'" if "\<And>n. n \<in> set ns \<Longrightarrow> rg_nodes (rg_of s') n = rg_nodes (rg_of s) n"
    using ahead_nodes [OF ahead pc inv that] by auto
  from step show ?thesis
  proof (cases rule: system_step.cases)
    case (st_backend cr)
    show ?thesis
    proof (cases "sy_pc s = At None")
      case True
      then have "s' = pass_end_step s" using st_backend by (simp add: backend_step_def)
      then show ?thesis using pc True by (simp add: pass_end_step_def)
    next
      case False
      then show ?thesis using backend_ahead [OF inv ahead False] st_backend by (metis less_imp_le)
    qed
  next
    case (st_begin tid n c qsize nm)
    have "n \<notin> set ns" using linked_alloc [OF list] st_begin by blast
    then show ?thesis
      using st_begin by (intro same) (auto simp: thread_begin_def register_begin_def add_context_def split: option.splits)
  next
    case (st_cas spurious tid)
    then obtain n c ok rg where run: "sy_threads s tid = T_Registering n c" "register_cas spurious n (rg_of s) = Some (ok, rg)"
        "rg_of s' = rg"
      by (auto simp: thread_cas_def split: thread_state.splits option.splits)
    have "n \<notin> set ns" using registry_at_registering [OF at run(1)] by simp
    moreover have "rg_nodes rg m = rg_nodes (rg_of s) m" if "m \<noteq> n" for m
      using run(2) that by (auto simp: register_cas_def split: option.splits if_splits)
    ultimately show ?thesis using run(3) by (intro same) metis
  next
    case (st_log e tid stored)
    then show ?thesis by (intro same) (auto simp: thread_push_def context_log_def split: thread_state.splits option.splits)
  next
    case (st_end tid)
    then show ?thesis by (intro same) (auto simp: thread_end_def context_kill_def split: thread_state.splits option.splits)
  qed (use same in auto)
qed

lemma ahead_bound:
  assumes inv: "system_inv en ns s h" and "pass_pointer (sy_pc s) \<noteq> None"
  obtains k where "ahead s k" "k \<le> 4 * length ns"
proof -
  have list: "linked (rg_nodes (rg_of s)) (rg_head (rg_of s)) ns"
    using inv registry_at_holds by (auto simp: system_inv_def rg_holds_def)
  have pc: "pc_ok (sy_pc s) ns" using inv by (simp add: system_inv_def)
  have suffix: "linked (rg_nodes (rg_of s)) (list_head post) post" if "ns = pre @ post" for pre post
    using linked_suffix [of "rg_nodes (rg_of s)" "rg_head (rg_of s)" pre post] list that by (cases post) auto
  have behind: "\<exists>k. ahead s k \<and> k \<le> 4 * length ns"
    if "ns = pre @ n # post" "pass_pointer (sy_pc s) = Some (list_head post, m)" "m < 4" for pre n post m
    using that suffix [of "pre @ [n]" post] by (intro exI [of _ "4 * length post + m"]) (auto simp: ahead_def)
  have "\<exists>k. ahead s k \<and> k \<le> 4 * length ns"
  proof (cases "sy_pc s")
    case (At p)
    then obtain pre post where "ns = pre @ post" "p = list_head post" using pc by auto
    then show ?thesis using At suffix [of pre post] by (intro exI [of _ "4 * length post"]) (auto simp: ahead_def)
  next
    case (Check n nx)
    then obtain pre post where "ns = pre @ n # post" "nx = list_head post" using pc by auto
    then show ?thesis using behind [of pre n post 3] Check by simp
  next
    case (Remove n nx)
    then obtain pre post where "ns = pre @ n # post" "nx = list_head post" using pc by auto
    then show ?thesis using behind [of pre n post 2] Remove by simp
  next
    case (Unlink n e nx)
    then obtain pre post where "ns = pre @ n # post" "nx = list_head post" using pc by auto
    then show ?thesis using behind [of pre n post 1] Unlink by simp
  qed (use assms(2) in simp_all)
  then show ?thesis using that by blast
qed

lemma pass_run_ahead:
  assumes "pass_run en r m r'" and "system_inv en ns (fst r) (snd r)" and "ahead (fst r) k"
  shows "\<exists>ns' k'. system_inv en ns' (fst r') (snd r') \<and> ahead (fst r') k' \<and> m + k' \<le> k"
  using assms(1)
proof (induction rule: pass_run.induct)
  case pr_start
  then show ?case using assms(2,3) by auto
next
  case (pr_backend m s1 h1 cr s2)
  then obtain ns k1 where k1: "system_inv en ns s1 h1" "ahead s1 k1" "m + k1 \<le> k" by auto
  obtain k2 where "k2 < k1" "ahead s2 k2" using backend_ahead [OF k1(1,2) pr_backend(2,3)] by blast
  moreover obtain ns2 where "system_inv en ns2 s2 (observe_backend s1 s2 h1)"
    using backend_step_inv [OF k1(1) pr_backend(3)] by blast
  ultimately show ?case using k1(3) by (intro exI [of _ ns2] exI [of _ k2]) simp
next
  case (pr_other m s1 h1 s2 h2)
  then obtain ns k1 where k1: "system_inv en ns s1 h1" "ahead s1 k1" "m + k1 \<le> k" by auto
  obtain k2 where "k2 \<le> k1" "ahead s2 k2" using other_ahead [OF k1(1,2) pr_other(2,3)] by blast
  moreover obtain ns2 where "system_inv en ns2 s2 h2" using system_step_inv [OF pr_other(2) k1(1)] by blast
  ultimately show ?case using k1(3) by (intro exI [of _ ns2] exI [of _ k2]) simp
qed

section \<open>An execution\<close>

text \<open>One thread registers at address 11 with its node at 1 and the backend begins a pass.\<close>

definition one_registry :: "thread_context \<Rightarrow> registry" where
  "one_registry ctx = \<lparr>rg_head = Some 1, rg_nodes = (\<lambda>a. None)(1 \<mapsto> \<lparr>nd_context = 11, nd_next = None\<rparr>),
     rg_contexts = (\<lambda>a. None)(11 \<mapsto> ctx)\<rparr>"

lemma one_registry_simps [simp]:
  "rg_nodes (one_registry ctx) 1 = Some \<lparr>nd_context = 11, nd_next = None\<rparr>" "rg_contexts (one_registry ctx) 11 = Some ctx"
  "(one_registry ctx)\<lparr>rg_contexts := (rg_contexts (one_registry ctx))(11 \<mapsto> ctx')\<rparr> = one_registry ctx'"
  "rg_head (one_registry ctx) = Some 1" "ctx_of (one_registry ctx) (Suc 0) = Some 11"
  by (simp_all add: one_registry_def ctx_of_def)

definition one_system :: "thread_context \<Rightarrow> outputs \<Rightarrow> bool \<Rightarrow> backend_pc \<Rightarrow> thread_state \<Rightarrow> system" where
  "one_system ctx o1 any pc st = \<lparr>sy_bk = demo_started_backend\<lparr>bk_mem := (one_registry ctx, o1)\<rparr>, sy_running = True,
     sy_draining = False, sy_any = any, sy_pc = pc, sy_unnamed = 1, sy_threads = (\<lambda>t. T_New)(1 := st)\<rparr>"

abbreviation demo_out :: outputs where "demo_out \<equiv> snd (bk_mem demo_started_backend)"

definition one_history :: "log_event list \<Rightarrow> nat \<Rightarrow> nat set \<Rightarrow> history" where
  "one_history es k late = \<lparr>hs_owner = (\<lambda>c. None)(11 \<mapsto> 1), hs_logged = (\<lambda>t. [])(1 := es),
     hs_processed = (\<lambda>t. 0)(1 := k), hs_late = late\<rparr>"

lemma one_system_simps [simp]:
  "bk_mem (sy_bk (one_system ctx o1 any pc st)) = (one_registry ctx, o1)" "sy_pc (one_system ctx o1 any pc st) = pc"
  "sy_threads (one_system ctx o1 any pc st) 1 = st" "sy_running (one_system ctx o1 any pc st)"
  "bk_resync (sy_bk (one_system ctx o1 any pc st)) = demo_resync" "sy_any (one_system ctx o1 any pc st) = any"
  "set_registry (one_registry ctx') (one_system ctx o1 any pc st) = one_system ctx' o1 any pc st"
  "set_mem (one_registry ctx', o2) (one_system ctx o1 any pc st) = one_system ctx' o2 any pc st"
  "(one_system ctx o1 any pc st)\<lparr>sy_pc := pc'\<rparr> = one_system ctx o1 any pc' st"
  "(one_system ctx o1 any pc st)\<lparr>sy_any := any', sy_pc := pc'\<rparr> = one_system ctx o1 any' pc' st"
  "(one_system ctx o1 any pc st)\<lparr>sy_threads := (sy_threads (one_system ctx o1 any pc st))(1 := st')\<rparr> =
     one_system ctx o1 any pc st'"
  by (simp_all add: one_system_def set_registry_def set_mem_def demo_started_backend_def)

lemma demo_running:
  obtains ctx where "q_holds (tc_q ctx) []" "tc_is_alive ctx" "64 \<le> q_cap (tc_q ctx)"
    "system_reachable demo_env demo_startup (one_system ctx demo_out False Loop_Top (T_Running 11), one_history [] 0 {})"
proof -
  let ?s0 = "started demo_started_backend"
  have rg: "rg_of ?s0 = empty_registry" by (simp add: started_def demo_started_backend_def)
  have size: "unat (64 :: u64) \<le> 2 ^ 62" by simp
  obtain q where q: "new_queue 64 = Some q" using new_queue_holds [OF size] by blast
  define ctx where "ctx = \<lparr>tc_name = ''thread_1'', tc_q = q, tc_is_alive = True\<rparr>"
  have name: "''thread_'' @ int_string (sint (1 :: u32)) = ''thread_1''" by code_simp
  have new: "new_thread_context '''' 64 0 = Some (ctx, 1)"
    using q name by (simp add: new_thread_context_def Let_def ctx_def)
  have ctx: "q_holds (tc_q ctx) []" "tc_is_alive ctx" "64 \<le> q_cap (tc_q ctx)"
    using new_thread_context_ok [OF size new] by simp_all
  let ?s1 = "(set_registry (register_begin 1 11 (add_context 11 ctx empty_registry)) ?s0)
      \<lparr>sy_unnamed := 1, sy_threads := (sy_threads ?s0)(1 := T_Registering 1 11)\<rparr>"
  have "thread_begin 1 '''' 64 11 1 ?s0 = Some ?s1"
    using new rg by (simp add: thread_begin_def started_def)
  then have "system_step demo_env (?s0, no_history) (?s1, no_history\<lparr>hs_owner := (hs_owner no_history)(11 \<mapsto> 1)\<rparr>)"
    by (intro system_step.st_begin [OF _ _ _ size]) (simp_all add: rg empty_registry_def, simp add: started_def)
  moreover have "no_history\<lparr>hs_owner := (hs_owner no_history)(11 \<mapsto> 1)\<rparr> = one_history [] 0 {}"
    by (simp add: no_history_def one_history_def fun_eq_iff)
  moreover have "thread_cas False 1 ?s1 = Some (one_system ctx demo_out False Loop_Top (T_Running 11))"
    by (simp add: thread_cas_def register_cas_def register_begin_def add_context_def empty_registry_def started_def
        one_system_def one_registry_def set_registry_def set_mem_def demo_started_backend_def)
  ultimately have run: "system_step demo_env (?s0, no_history) (?s1, one_history [] 0 {})"
      "system_step demo_env (?s1, one_history [] 0 {})
        (one_system ctx demo_out False Loop_Top (T_Running 11), one_history [] 0 {})"
    by (simp only:, intro system_step.st_cas)
  have "system_reachable demo_env demo_startup (one_system ctx demo_out False Loop_Top (T_Running 11), one_history [] 0 {})"
    by (rule system_reachable.sr_step [OF system_reachable.sr_step [OF system_reachable.sr_start [OF demo_new_backend] run(1)] run(2)])
  then show ?thesis using that ctx by blast
qed

abbreviation demo_reachable :: "system \<Rightarrow> history \<Rightarrow> bool" where
  "demo_reachable s h \<equiv> system_reachable demo_env demo_startup (s, h)"

lemma demo_backend_step:
  assumes "demo_reachable s h" and "backend_step demo_env demo_reads s = Some s'" and "observe_backend s s' h = h'"
  shows "demo_reachable s' h'"
  using system_reachable.sr_step [OF assms(1) system_step.st_backend [OF assms(2)]] assms(3) by simp

definition settled :: "outputs \<Rightarrow> bool" where
  "settled o1 \<longleftrightarrow> sk_pending (o_sink o1) = None \<and> fh_pending (o_formatter o1) = None"

lemma demo_out_settled: "settled demo_out"
  by (simp add: settled_def demo_started_backend_def new_sink_handler_def new_formatter_handler_def)

lemma settled_polls:
  "settled o1 \<Longrightarrow> o1\<lparr>o_sink := poll_for_pending_sink_switch (o_sink o1),
     o_formatter := poll_for_pending_formatter_switch (o_formatter o1)\<rparr> = o1"
  by (simp add: settled_def poll_for_pending_sink_switch_def poll_for_pending_formatter_switch_def)

lemma demo_serving:
  assumes "demo_reachable (one_system ctx o1 any Loop_Top st) h" and "settled o1"
  shows "demo_reachable (one_system ctx o1 False (At (Some 1)) st) h"
proof -
  have "backend_step demo_env demo_reads (one_system ctx o1 any Loop_Top st) = Some (one_system ctx o1 any Pass_Start st)"
    using settled_polls [OF assms(2)]
    by (simp add: backend_step_def loop_top_step_def demo_resync_idle) (simp add: one_system_def demo_started_backend_def)
  from demo_backend_step [OF assms(1) this refl]
  have start: "demo_reachable (one_system ctx o1 any Pass_Start st) h" by (simp add: observe_backend_def)
  have "backend_step demo_env demo_reads (one_system ctx o1 any Pass_Start st) = Some (one_system ctx o1 False (At (Some 1)) st)"
    by (simp add: backend_step_def)
  from demo_backend_step [OF start this refl] show ?thesis by (simp add: observe_backend_def)
qed

lemma demo_log:
  assumes run: "demo_reachable (one_system ctx o1 any pc (T_Running 11)) (one_history [] 0 {})"
    and ctx: "q_holds (tc_q ctx) []" "64 \<le> q_cap (tc_q ctx)"
  obtains ctx' where "q_holds (tc_q ctx') [event_bytes demo_event]" "tc_is_alive ctx' = tc_is_alive ctx"
    "demo_reachable (one_system ctx' o1 any pc (T_Running 11))
       (one_history [demo_event] 0 (if checked_node pc = Some 1 then {1} else {}))"
proof -
  let ?s = "one_system ctx o1 any pc (T_Running 11)"
  have "event_fits (q_cap (tc_q ctx)) [] demo_event" using ctx(2) by (simp add: event_fits_def fits_def demo_event_size)
  then obtain q where q: "push_event demo_event (tc_q ctx) = Some (True, q)" "q_holds q [event_bytes demo_event]"
    using push_event_law [OF demo_event_ok, of "tc_q ctx" "[]"] ctx(1) by auto
  have "thread_push 1 demo_event ?s = Some (True, one_system (ctx\<lparr>tc_q := q\<rparr>) o1 any pc (T_Running 11))"
    using q(1) by (simp add: thread_push_def context_log_def del: One_nat_def)
  then have "demo_reachable (one_system (ctx\<lparr>tc_q := q\<rparr>) o1 any pc (T_Running 11))
      (observe_log True 1 demo_event ?s (one_history [] 0 {}))"
    by (intro system_reachable.sr_step [OF run] system_step.st_log demo_event_typed)
  moreover have "checked ?s (one_history [] 0 {}) 1 \<longleftrightarrow> checked_node pc = Some 1"
    by (auto simp: checked_def owner_at_def one_history_def ctx_of_def one_registry_def split: if_splits option.splits)
  then have "observe_log True 1 demo_event ?s (one_history [] 0 {}) =
      one_history [demo_event] 0 (if checked_node pc = Some 1 then {1} else {})"
    by (simp add: observe_log_def) (simp add: one_history_def)
  ultimately show ?thesis using that [of "ctx\<lparr>tc_q := q\<rparr>"] q(2) by simp
qed

text \<open>The thread logs before the backend serves its queue.\<close>

lemma demo_logged:
  obtains ctx where "q_holds (tc_q ctx) [event_bytes demo_event]"
    "demo_reachable (one_system ctx demo_out False (At (Some 1)) (T_Running 11)) (one_history [demo_event] 0 {})"
proof -
  obtain ctx where ctx: "q_holds (tc_q ctx) []" "64 \<le> q_cap (tc_q ctx)"
      "demo_reachable (one_system ctx demo_out False Loop_Top (T_Running 11)) (one_history [] 0 {})"
    using demo_running by metis
  obtain ctx' where "q_holds (tc_q ctx') [event_bytes demo_event]"
      "demo_reachable (one_system ctx' demo_out False Loop_Top (T_Running 11)) (one_history [demo_event] 0 {})"
    using demo_log [OF ctx(3,1,2)] by auto
  then show ?thesis using that demo_serving [OF _ demo_out_settled] by blast
qed

text \<open>The backend finds the queue empty.\<close>

lemma demo_empty:
  assumes run: "demo_reachable (one_system ctx o1 any (At (Some 1)) st) h" and q: "q_holds (tc_q ctx) []"
  obtains ctx' where "q_holds (tc_q ctx') []" "q_cap (tc_q ctx') = q_cap (tc_q ctx)" "tc_is_alive ctx' = tc_is_alive ctx"
    "backend_step demo_env demo_reads (one_system ctx o1 any (At (Some 1)) st) = Some (one_system ctx' o1 any (Check 1 None) st)"
    "demo_reachable (one_system ctx' o1 any (Check 1 None) st) h"
proof -
  obtain q' where q': "poll_queue (with_clock demo_resync demo_env) (tc_q ctx) o1 = Some (False, q', o1)" "q_holds q' []"
      "q_cap q' = q_cap (tc_q ctx)"
    using poll_queue_empty [OF q] by blast
  have step: "backend_step demo_env demo_reads (one_system ctx o1 any (At (Some 1)) st) =
      Some (one_system (ctx\<lparr>tc_q := q'\<rparr>) o1 any (Check 1 None) st)"
    using q'(1) by (simp add: backend_step_def serve_step_def poll_read_def del: One_nat_def)
  from demo_backend_step [OF run step refl]
  have "demo_reachable (one_system (ctx\<lparr>tc_q := q'\<rparr>) o1 any (Check 1 None) st) h" by (simp add: observe_backend_def)
  then show ?thesis using that [of "ctx\<lparr>tc_q := q'\<rparr>"] step q'(2,3) by simp
qed

lemma demo_end:
  assumes "demo_reachable (one_system ctx o1 any pc (T_Running 11)) h"
  shows "demo_reachable (one_system (kill ctx) o1 any pc T_Ended) h"
proof -
  have "thread_end 1 (one_system ctx o1 any pc (T_Running 11)) = Some (one_system (kill ctx) o1 any pc T_Ended)"
    by (simp add: thread_end_def context_kill_def del: One_nat_def) (simp add: one_system_def)
  then show ?thesis by (intro system_reachable.sr_step [OF assms] system_step.st_end)
qed

text \<open>The backend asks whether the thread is alive, and frees it.\<close>

lemma demo_removed:
  assumes run: "demo_reachable (one_system ctx o1 any (Check 1 None) T_Ended) (one_history es k late)"
    and dead: "\<not> tc_is_alive ctx"
  obtains s h where "demo_reachable s h" "sy_threads s 1 = T_Ended" "\<forall>c. hs_owner h c \<noteq> Some 1" "sy_pc s = At None"
    "hs_logged h 1 = es" "hs_processed h 1 = k" "hs_late h = late" "rg_head (rg_of s) = None"
proof -
  have "backend_step demo_env demo_reads (one_system ctx o1 any (Check 1 None) T_Ended) =
      Some (one_system ctx o1 any (Remove 1 None) T_Ended)"
    using dead by (simp add: backend_step_def check_step_def thread_is_alive_def del: One_nat_def)
  from demo_backend_step [OF run this refl]
  have removing: "demo_reachable (one_system ctx o1 any (Remove 1 None) T_Ended) (one_history es k late)"
    by (simp add: observe_backend_def)
  define rg where "rg = delete_node 1 \<lparr>nd_context = 11, nd_next = None\<rparr> ((one_registry ctx)\<lparr>rg_head := None\<rparr>)"
  let ?s = "(set_registry rg (one_system ctx o1 any (Remove 1 None) T_Ended))\<lparr>sy_pc := At None\<rparr>"
  have "backend_step demo_env demo_reads (one_system ctx o1 any (Remove 1 None) T_Ended) = Some ?s"
    by (simp add: backend_step_def remove_step_def remove_cas_def rg_def del: One_nat_def)
  from demo_backend_step [OF removing this refl]
  have "demo_reachable ?s (disown (Some 11) (one_history es k late))" by (simp add: observe_backend_def)
  then show ?thesis
    by (rule that) (simp_all add: disown_def one_history_def rg_def delete_node_def del: One_nat_def)
qed

text \<open>The thread logs and ends just after the backend has found its queue empty.\<close>

lemma demo_late:
  obtains s h where "demo_reachable s h" "sy_threads s 1 = T_Ended" "\<forall>c. hs_owner h c \<noteq> Some 1"
    "hs_logged h 1 = [demo_event]" "hs_processed h 1 = 0" "hs_late h = {1}"
proof -
  obtain ctx where ctx: "q_holds (tc_q ctx) []" "64 \<le> q_cap (tc_q ctx)"
      "demo_reachable (one_system ctx demo_out False (At (Some 1)) (T_Running 11)) (one_history [] 0 {})"
    using demo_running demo_serving [OF _ demo_out_settled] by metis
  obtain ctx1 where checked: "q_holds (tc_q ctx1) []" "64 \<le> q_cap (tc_q ctx1)"
      "demo_reachable (one_system ctx1 demo_out False (Check 1 None) (T_Running 11)) (one_history [] 0 {})"
    using demo_empty [OF ctx(3,1)] ctx(2) by metis
  obtain ctx2 where "demo_reachable (one_system ctx2 demo_out False (Check 1 None) (T_Running 11)) (one_history [demo_event] 0 {1})"
    using demo_log [OF checked(3,1,2)] by auto
  then have ended: "demo_reachable (one_system (kill ctx2) demo_out False (Check 1 None) T_Ended) (one_history [demo_event] 0 {1})"
    by (rule demo_end)
  have "\<not> tc_is_alive (kill ctx2)" by (simp add: kill_def)
  from demo_removed [OF ended this] show ?thesis using that by metis
qed

text \<open>The backend processes the event of \<open>demo_logged\<close>.\<close>

lemma demo_out_ready: "outputs_ready demo_env 16 1000 default_tokens demo_out"
  using default_pattern_accepted default_pattern_parses
  by (simp add: outputs_ready_def demo_started_backend_def new_formatter_handler_def default_pattern_def)

lemma demo_event_clock_printable: "event_printable (with_clock demo_resync demo_env) demo_event"
  using demo_event_printable by (simp add: event_printable_def demo_clock_data)

lemma demo_served:
  obtains ctx o2 where "q_holds (tc_q ctx) []" "settled o2"
    "demo_reachable (one_system ctx o2 True (At None) (T_Running 11)) (one_history [demo_event] 1 {})"
proof -
  let ?en = "with_clock demo_resync demo_env"
  obtain ctx where ctx: "q_holds (tc_q ctx) [event_bytes demo_event]"
      "demo_reachable (one_system ctx demo_out False (At (Some 1)) (T_Running 11)) (one_history [demo_event] 0 {})"
    using demo_logged .
  have fmt: "fmt_renders show_ref (en_vformat ?en)" by (simp add: demo_env_def fmt_renders_ref)
  have ready: "outputs_ready ?en 16 1000 default_tokens demo_out" using demo_out_ready by simp
  obtain o2 where o2: "process_event ?en demo_event demo_out = Some o2"
    using process_event_prints [OF fmt ready demo_event_clock_printable] by blast
  have typed: "event_typed ?en demo_event" using demo_event_typed by simp
  obtain q where q: "poll_queue ?en (tc_q ctx) demo_out = Some (True, q, o2)" "q_holds q []"
    using poll_queue_front [OF ctx(1) typed, of demo_out] o2 by auto
  have "settled o2" using poll_queue_same [OF q(1)] demo_out_settled by (simp add: settled_def same_outputs_def)
  have "backend_step demo_env demo_reads (one_system ctx demo_out False (At (Some 1)) (T_Running 11)) =
      Some (one_system (ctx\<lparr>tc_q := q\<rparr>) o2 True (At None) (T_Running 11))"
    using q(1) by (simp add: backend_step_def serve_step_def poll_read_def del: One_nat_def)
  from demo_backend_step [OF ctx(2) this refl]
  have "demo_reachable (one_system (ctx\<lparr>tc_q := q\<rparr>) o2 True (At None) (T_Running 11)) (one_history [demo_event] 1 {})"
    by (simp add: observe_backend_def owner_at_def count_processed_def) (simp add: one_history_def)
  then show ?thesis using that [of "ctx\<lparr>tc_q := q\<rparr>"] q(2) \<open>settled o2\<close> by simp
qed

text \<open>Afterwards the thread ends, the backend frees it in the next pass, and is stopped.\<close>

lemma demo_stopped:
  obtains s h where "demo_reachable s h" "sy_threads s 1 = T_Ended" "hs_logged h 1 = [demo_event]" "hs_late h = {}"
    "sy_pc s = Loop_Top" "\<not> sy_running s" "rg_head (rg_of s) = None"
proof -
  obtain ctx o2 where ctx: "q_holds (tc_q ctx) []" "settled o2"
      "demo_reachable (one_system ctx o2 True (At None) (T_Running 11)) (one_history [demo_event] 1 {})"
    using demo_served .
  have ended: "demo_reachable (one_system (kill ctx) o2 True (At None) T_Ended) (one_history [demo_event] 1 {})"
    using demo_end ctx(3) by blast
  have "backend_step demo_env demo_reads (one_system (kill ctx) o2 True (At None) T_Ended) =
      Some (one_system (kill ctx) o2 True Loop_Top T_Ended)"
    by (simp add: backend_step_def pass_end_step_def)
      (simp add: one_system_def demo_started_backend_def next_backoff_def)
  from demo_backend_step [OF ended this refl]
  have "demo_reachable (one_system (kill ctx) o2 True Loop_Top T_Ended) (one_history [demo_event] 1 {})"
    by (simp add: observe_backend_def)
  note serving = demo_serving [OF this ctx(2)]
  have "q_holds (tc_q (kill ctx)) []" using ctx(1) by (simp add: kill_def)
  from demo_empty [OF serving this] obtain ctx1 where
    "\<not> tc_is_alive ctx1" "demo_reachable (one_system ctx1 o2 False (Check 1 None) T_Ended) (one_history [demo_event] 1 {})"
    by (auto simp: kill_def)
  from demo_removed [OF this(2,1)] obtain s h where
    s: "demo_reachable s h" "sy_threads s 1 = T_Ended" "sy_pc s = At None" "hs_logged h 1 = [demo_event]" "hs_late h = {}"
      "rg_head (rg_of s) = None"
    by metis
  have "backend_step demo_env demo_reads s = Some (pass_end_step s)" using s(3) by (simp add: backend_step_def)
  from demo_backend_step [OF s(1) this refl]
  have "demo_reachable (pass_end_step s) h" using s(3) by (simp add: observe_backend_def)
  then have "demo_reachable ((pass_end_step s)\<lparr>sy_running := False\<rparr>) h"
    by (intro system_reachable.sr_step [OF _ system_step.st_stop])
  then show ?thesis by (rule that) (use s in \<open>simp_all add: pass_end_step_def\<close>)
qed

section \<open>Properties\<close>



text \<open>C4. Nothing is lost, duplicated, reordered or mixed up in the queues: at every moment every context that
  exists belongs to one thread, and its queue holds exactly the encodings of the events this thread has
  stored and the backend has not yet processed, in the order of the calls; the thread is marked
  alive exactly as long as it has not ended.\<close>
theorem interleaving_queues_exact:
  assumes "system_reachable en su (s, h)" and "rg_contexts (rg_of s) c = Some ctx"
  shows "\<exists>t. hs_owner h c = Some t \<and> hs_processed h t \<le> length (hs_logged h t) \<and>
    q_holds (tc_q ctx) (map event_bytes (drop (hs_processed h t) (hs_logged h t))) \<and>
    tc_is_alive ctx = (sy_threads s t \<noteq> T_Ended) \<and> (\<forall>c'. hs_owner h c' = Some t \<longrightarrow> c' = c)"
proof -
  obtain ns where inv: "system_inv en ns s h" using system_reachable_inv [OF assms(1)] by blast
  then have q: "queues_ok s h" by (simp add: system_inv_def)
  then obtain t where t: "hs_owner h c = Some t" using assms(2) unfolding queues_ok_def by (metis option.exhaust option.simps(3))
  then show ?thesis
    using q assms(2) inv_events [OF inv, of t] owner_unique [OF q t] unfolding queues_ok_def waiting_def by blast
qed

lemma interleaving_queues_exact_witness:
  "\<exists>s h ctx. system_reachable demo_env demo_startup (s, h) \<and> rg_contexts (rg_of s) 11 = Some ctx \<and>
     q_holds (tc_q ctx) [event_bytes demo_event]"
proof -
  obtain ctx where run: "demo_reachable (one_system ctx demo_out False (At (Some 1)) (T_Running 11)) (one_history [demo_event] 0 {})"
    using demo_logged by metis
  let ?s = "one_system ctx demo_out False (At (Some 1)) (T_Running 11)"
  have ctx: "rg_contexts (rg_of ?s) 11 = Some ctx" by simp
  from interleaving_queues_exact [OF run ctx] have "q_holds (tc_q ctx) [event_bytes demo_event]"
    by (auto simp: one_history_def split: if_splits)
  then show ?thesis using run ctx by blast
qed

text \<open>C19. Serving a queue while other threads run: the backend takes the oldest event the thread of this
  node has stored and not yet seen processed, and appends its line, with the pattern, clock and level
  in force at this moment, to the current file; if there is none the outputs are untouched.\<close>
theorem interleaving_serves_oldest:
  assumes "system_reachable en su (s, h)" and "sy_pc s = At (Some n)" and "backend_step en cr s = Some s'"
    and "fmt_renders sh (en_vformat en)" and "outputs_ready en mf ml toks (out_of s)"
    and "\<forall>t. list_all (event_printable (with_clock (bk_resync (sy_bk s)) en)) (hs_logged h t)"
  shows "\<exists>t. owner_at h (rg_of s) n = Some t \<and>
    file_output (sk_file (o_sink (out_of s))) (sk_io (o_sink (out_of s'))) =
      file_output (sk_file (o_sink (out_of s))) (sk_io (o_sink (out_of s))) @
      (if hs_processed h t < length (hs_logged h t)
       then event_line (with_clock (bk_resync (sy_bk s)) en) sh toks (o_min_level (out_of s)) (hs_logged h t ! hs_processed h t)
       else [])"
proof -
  let ?en = "with_clock (bk_resync (sy_bk s)) en"
  obtain ns where inv: "system_inv en ns s h" using system_reachable_inv [OF assms(1)] by blast
  obtain nd ctx t q' where o: "rg_nodes (rg_of s) n = Some nd" "rg_contexts (rg_of s) (nd_context nd) = Some ctx"
    "hs_owner h (nd_context nd) = Some t" "sy_threads s t = T_Running (nd_context nd) \<or> sy_threads s t = T_Ended"
    "\<exists>pre post. ns = pre @ n # post \<and> nd_next nd = list_head post"
    "q_holds q' (map event_bytes (tl (waiting h t)))" "tc_is_alive ctx = (sy_threads s t \<noteq> T_Ended)"
    "serve_step en n s =
       (let rg = (rg_of s)\<lparr>rg_contexts := (rg_contexts (rg_of s))(nd_context nd \<mapsto> ctx\<lparr>tc_q := q'\<rparr>)\<rparr>
        in case waiting h t of
             [] \<Rightarrow> Some ((set_mem (rg, out_of s) s)\<lparr>sy_any := sy_any s, sy_pc := Check n (nd_next nd)\<rparr>)
           | e # es \<Rightarrow> map_option (\<lambda>o2. (set_mem (rg, o2) s)\<lparr>sy_any := True, sy_pc := At (nd_next nd)\<rparr>)
               (process_event ?en e (out_of s)))"
    using serve_step_cases [OF inv assms(2)] .
  have owner: "owner_at h (rg_of s) n = Some t" using o(1,3) by (simp add: owner_at_node)
  have step: "serve_step en n s = Some s'" using assms(2,3) by (simp add: backend_step_def)
  show ?thesis
  proof (cases "hs_processed h t < length (hs_logged h t)")
    case True
    let ?e = "hs_logged h t ! hs_processed h t"
    have wait: "waiting h t = ?e # drop (Suc (hs_processed h t)) (hs_logged h t)"
      using True by (simp add: waiting_def Cons_nth_drop_Suc)
    have "event_printable ?en ?e" using assms(6) True by (simp add: list_all_length)
    then obtain o2 where "process_event ?en ?e (out_of s) = Some o2" "prints ?en sh toks (out_of s) [?e] o2"
      using process_event_prints [of sh ?en mf ml toks "out_of s" ?e] assms(4,5) by auto
    then show ?thesis using owner step o(8) wait True by (auto simp: prints_def)
  next
    case False
    then have "waiting h t = []" by (simp add: waiting_def)
    then show ?thesis using owner step o(8) False by auto
  qed
qed

lemma interleaving_serves_oldest_witness:
  "\<exists>s h s'. system_reachable demo_env demo_startup (s, h) \<and> backend_step demo_env demo_reads s = Some s' \<and>
     file_output Stdout (sk_io (o_sink (out_of s'))) =
       event_line (with_clock demo_resync demo_env) show_ref default_tokens (level_code Trace) demo_event"
proof -
  obtain ctx where run: "demo_reachable (one_system ctx demo_out False (At (Some 1)) (T_Running 11)) (one_history [demo_event] 0 {})"
    using demo_logged by metis
  let ?s = "one_system ctx demo_out False (At (Some 1)) (T_Running 11)" and ?h = "one_history [demo_event] 0 {}"
  have pc: "sy_pc ?s = At (Some 1)" by simp
  have fmt: "fmt_renders show_ref (en_vformat demo_env)" by (simp add: demo_env_def fmt_renders_ref)
  have print: "\<forall>t. list_all (event_printable (with_clock (bk_resync (sy_bk ?s)) demo_env)) (hs_logged ?h t)"
    using demo_event_clock_printable by (simp add: one_history_def)
  have own: "owner_at ?h (rg_of ?s) 1 = Some 1" by (simp add: owner_at_def one_history_def)
  have "process_event (with_clock demo_resync demo_env) demo_event demo_out \<noteq> None"
    using process_event_prints [of show_ref "with_clock demo_resync demo_env" 16 1000 default_tokens demo_out demo_event]
      fmt demo_out_ready demo_event_clock_printable by auto
  then have "backend_step demo_env demo_reads ?s \<noteq> None"
    using backend_step_undefined system_reachable_inv [OF run] pc own by (fastforce simp: waiting_def one_history_def)
  then obtain s' where step: "backend_step demo_env demo_reads ?s = Some s'" by blast
  have out: "sk_file (o_sink demo_out) = Stdout" "sk_io (o_sink demo_out) = []" "o_min_level demo_out = level_code Trace"
    by (simp_all add: demo_started_backend_def new_sink_handler_def)
  have ready: "outputs_ready demo_env 16 1000 default_tokens (out_of ?s)" using demo_out_ready by simp
  from interleaving_serves_oldest [OF run pc step fmt ready print] own
  have "file_output Stdout (sk_io (o_sink (out_of s'))) =
      event_line (with_clock demo_resync demo_env) show_ref default_tokens (level_code Trace) demo_event"
    using out by (simp add: one_history_def)
  then show ?thesis using run step by blast
qed

text \<open>C6. Exactly which events are lost: when a thread has ended and its context has been freed, every event
  it stored has been processed if and only if it stored none in the window after the backend
  had found its queue empty for the last time and before it asked whether the thread is alive.\<close>
theorem events_lost_iff_late:
  assumes "system_reachable en su (s, h)" and "sy_threads s t = T_Ended" and "\<forall>c. hs_owner h c \<noteq> Some t"
  shows "hs_processed h t = length (hs_logged h t) \<longleftrightarrow> t \<notin> hs_late h"
proof -
  obtain ns where inv: "system_inv en ns s h" using system_reachable_inv [OF assms(1)] by blast
  have "freed_thread s h t" using assms(2,3) by (simp add: freed_thread_def owned_def)
  then have "t \<in> hs_late h \<longleftrightarrow> waiting h t \<noteq> []" using inv late_okD by (auto simp: system_inv_def)
  then show ?thesis using inv_events [OF inv, of t] by (auto simp: waiting_def)
qed

lemma events_lost_iff_late_witness:
  "\<exists>s h. system_reachable demo_env demo_startup (s, h) \<and> sy_threads s 1 = T_Ended \<and> 1 \<in> hs_late h \<and>
     hs_logged h 1 = [demo_event] \<and> hs_processed h 1 \<noteq> length (hs_logged h 1)"
proof -
  obtain s h where run: "demo_reachable s h" "sy_threads s 1 = T_Ended" "\<forall>c. hs_owner h c \<noteq> Some 1"
    and h: "hs_logged h 1 = [demo_event]" "hs_late h = {1}"
    using demo_late by metis
  have "hs_processed h 1 \<noteq> length (hs_logged h 1)" using events_lost_iff_late [OF run] h(2) by simp
  then show ?thesis using run h by blast
qed

text \<open>C20. Shutting down with threads still running beside the backend: when the loop that drains the queues
  ends because the list is empty, no registered thread is running any more, and of every thread that has
  ended all events have been processed, unless it logged in the window of \<open>events_lost_iff_late\<close>.\<close>
theorem drain_ends_with_all_processed:
  assumes "system_reachable en su (s, h)" and "sy_pc s = Loop_Top" and "\<not> sy_running s"
    and "backend_step en cr s = Some s'" and "sy_pc s' = Finished"
  shows "sy_threads s t \<noteq> T_Running c \<and>
    (sy_threads s t = T_Ended \<longrightarrow> t \<notin> hs_late h \<longrightarrow> hs_processed h t = length (hs_logged h t))"
proof -
  obtain ns where inv: "system_inv en ns s h" using system_reachable_inv [OF assms(1)] by blast
  have empty: "rg_head (rg_of s) = None"
    using assms(2-5) by (auto simp: backend_step_def loop_top_step_def Let_def split: if_splits prod.splits)
  note freed = empty_list_freed [OF inv empty]
  have "hs_processed h t = length (hs_logged h t)" if "sy_threads s t = T_Ended" "t \<notin> hs_late h"
  proof -
    have "waiting h t = []" using freed(2) [OF that(1)] that(2) inv late_okD by (auto simp: system_inv_def)
    then show ?thesis using inv_events [OF inv, of t] by (simp add: waiting_def)
  qed
  then show ?thesis using freed(1) by blast
qed

lemma drain_ends_with_all_processed_witness:
  "\<exists>s h. system_reachable demo_env demo_startup (s, h) \<and> sy_pc s = Loop_Top \<and> hs_logged h 1 = [demo_event] \<and>
     hs_processed h 1 = 1"
proof -
  obtain s h where run: "demo_reachable s h" "sy_pc s = Loop_Top" "\<not> sy_running s"
    and t: "sy_threads s 1 = T_Ended" "hs_logged h 1 = [demo_event]" "hs_late h = {}" "rg_head (rg_of s) = None"
    using demo_stopped by metis
  have step: "backend_step demo_env demo_reads s = Some (s\<lparr>sy_pc := Finished\<rparr>)"
    using run(2,3) t(4) by (cases "bk_mem (sy_bk s)") (simp add: backend_step_def loop_top_step_def)
  have "hs_processed h 1 = 1"
    using drain_ends_with_all_processed [OF run step, of 1] t(1-3) by simp
  then show ?thesis using run t by blast
qed

text \<open>C21. A pass of the backend cannot be held up: however many threads register, log and end while it runs,
  the backend itself takes at most four steps for each thread in the list, counted at any moment of the pass,
  until the pass is over.\<close>
theorem pass_is_bounded:
  assumes "system_reachable en su (s, h)" and "pass_pointer (sy_pc s) \<noteq> None"
  shows "\<exists>ns. linked (rg_nodes (rg_of s)) (rg_head (rg_of s)) ns \<and>
    (\<forall>m r'. pass_run en (s, h) m r' \<longrightarrow> m \<le> 4 * length ns)"
proof -
  obtain ns where inv: "system_inv en ns s h" using system_reachable_inv [OF assms(1)] by blast
  obtain k where k: "ahead s k" "k \<le> 4 * length ns" using ahead_bound [OF inv assms(2)] .
  have "linked (rg_nodes (rg_of s)) (rg_head (rg_of s)) ns"
    using inv registry_at_holds by (auto simp: system_inv_def rg_holds_def)
  moreover have "m \<le> 4 * length ns" if "pass_run en (s, h) m r'" for m r'
    using pass_run_ahead [OF that] inv k by fastforce
  ultimately show ?thesis by blast
qed

lemma pass_is_bounded_witness:
  "\<exists>s h ns r'. system_reachable demo_env demo_startup (s, h) \<and> linked (rg_nodes (rg_of s)) (rg_head (rg_of s)) ns \<and>
     pass_run demo_env (s, h) 1 r' \<and> 1 \<le> 4 * length ns"
proof -
  obtain ctx where q: "q_holds (tc_q ctx) []"
    and run: "demo_reachable (one_system ctx demo_out False (At (Some 1)) (T_Running 11)) (one_history [] 0 {})"
    using demo_running demo_serving [OF _ demo_out_settled] by metis
  let ?s = "one_system ctx demo_out False (At (Some 1)) (T_Running 11)" and ?h = "one_history [] 0 {}"
  obtain s' where "backend_step demo_env demo_reads ?s = Some s'" using demo_empty [OF run q] by metis
  then have pass: "pass_run demo_env (?s, ?h) (Suc 0) (s', observe_backend ?s s' ?h)"
    by (intro pass_run.pr_backend [OF pass_run.pr_start]) simp_all
  have "pass_pointer (sy_pc ?s) \<noteq> None" by simp
  from pass_is_bounded [OF run this] obtain ns where
    "linked (rg_nodes (rg_of ?s)) (rg_head (rg_of ?s)) ns" "Suc 0 \<le> 4 * length ns"
    using pass by metis
  then show ?thesis using run pass by (metis One_nat_def)
qed

text \<open>C14. The sequential model is the concurrent one without interference: if no other thread takes a step, a
  turn of the backend that starts at the top of the main loop goes, step by step, to exactly the state
  \<open>backend_turn\<close> computes.\<close>
theorem uninterrupted_turn:
  assumes "backend_turn en cr (sy_bk s) = Some bk'" and "sy_pc s = Loop_Top" and "sy_running s"
  shows "\<exists>s'. backend_alone en cr s s' \<and> sy_bk s' = bk' \<and> sy_pc s' = Loop_Top \<and> sy_threads s' = sy_threads s"
  by (rule backend_turn_alone [OF assms])

lemma uninterrupted_turn_witness:
  "\<exists>bk' s'. backend_turn demo_env demo_reads demo_started_backend = Some bk' \<and>
     backend_alone demo_env demo_reads (started demo_started_backend) s' \<and> sy_bk s' = bk' \<and>
     bk_backoff_us bk' = 2"
proof -
  let ?bk = "demo_started_backend\<lparr>bk_backoff_us := 2\<rparr>"
  have mem: "bk_mem demo_started_backend = (empty_registry, demo_out)" "bk_resync demo_started_backend = demo_resync"
    by (simp_all add: demo_started_backend_def)
  have idle: "poll_threads (with_clock demo_resync demo_env) (empty_registry, demo_out) = Some (False, empty_registry, demo_out)"
    by (simp add: poll_threads_def empty_registry_def poll_loop.simps)
  have turn: "backend_turn demo_env demo_reads (sy_bk (started demo_started_backend)) = Some ?bk"
    using settled_polls [OF demo_out_settled] idle demo_resync_idle mem
    by (simp add: backend_turn_def started_def next_backoff_def max_backoff_us_def)
      (simp add: demo_started_backend_def max_backoff_us_def min_def)
  have "sy_pc (started demo_started_backend) = Loop_Top" "sy_running (started demo_started_backend)"
    by (simp_all add: started_def)
  from uninterrupted_turn [OF turn this] show ?thesis using turn by (auto simp: started_def)
qed

end
