(* ===== verification/Output_Order.thy ===== *)
theory Output_Order
  imports Interleaving
begin

text \<open>
  The order of the output under every interleaving of the backend thread with the logging threads
  (\<open>Concurrent\<close>): an execution is watched from outside, and each event the backend processes is recorded
  with its thread, the file that was the sink at that moment and the text the formatter made of it. The
  files then hold exactly these texts, in the order of the record, and the record of each thread is
  the sequence of its log calls.
\<close>

section \<open>What an execution prints\<close>

text \<open>The line of an event under the pattern, the caches and the level in force, newline included; a dropped
  event has none.\<close>

definition event_text :: "environment \<Rightarrow> outputs \<Rightarrow> log_event \<Rightarrow> string" where
  "event_text en o1 e =
     (case event_data en e of
        None \<Rightarrow> []
      | Some d \<Rightarrow>
          if pd_level d < o_min_level o1 then []
          else (case fst (format_impl (en_hms en) (en_vformat en) (fo_pattern (fh_formatter (o_formatter o1))) d (o_caches o1)) of
                  None \<Rightarrow> []
                | Some str \<Rightarrow> str @ [CHR 0x0A]))"

record printed =
  pr_thread :: nat
  pr_event :: log_event
  pr_file :: cfile
  pr_text :: string

text \<open>The event the backend processes when it serves the node it has reached.\<close>

definition printed_by :: "environment \<Rightarrow> system \<Rightarrow> history \<Rightarrow> printed list" where
  "printed_by en s h =
     (case sy_pc s of
        At (Some n) \<Rightarrow>
          (case owner_at h (rg_of s) n of
             None \<Rightarrow> []
           | Some t \<Rightarrow>
               (case waiting h t of
                  [] \<Rightarrow> []
                | e # es \<Rightarrow> [\<lparr>pr_thread = t, pr_event = e, pr_file = sk_file (o_sink (out_of s)),
                              pr_text = event_text (with_clock (bk_resync (sy_bk s)) en) (out_of s) e\<rparr>]))
      | _ \<Rightarrow> [])"

definition newly_printed :: "environment \<Rightarrow> system \<times> history \<Rightarrow> system \<times> history \<Rightarrow> printed list" where
  "newly_printed en r r' =
     (if hs_processed (snd r') = hs_processed (snd r) then [] else printed_by en (fst r) (snd r))"

inductive output_trace :: "environment \<Rightarrow> startup \<Rightarrow> system \<times> history \<Rightarrow> printed list \<Rightarrow> bool" for en su where
  ot_start: "new_backend su = Some (Returns bk) \<Longrightarrow> output_trace en su (started bk, no_history) []"
| ot_step: "output_trace en su r tr \<Longrightarrow> system_step en r r' \<Longrightarrow> output_trace en su r' (tr @ newly_printed en r r')"

lemma output_trace_reachable: "output_trace en su r tr \<Longrightarrow> system_reachable en su r"
  by (induction rule: output_trace.induct) (auto intro: system_reachable.intros)

lemma reachable_output_trace: "system_reachable en su r \<Longrightarrow> \<exists>tr. output_trace en su r tr"
  by (induction rule: system_reachable.induct) (auto intro: output_trace.intros)

section \<open>One step\<close>

lemma process_event_output:
  assumes "process_event en e o1 = Some o2"
  shows "file_output f (sk_io (o_sink o2)) =
    file_output f (sk_io (o_sink o1)) @ (if f = sk_file (o_sink o1) then event_text en o1 e else [])"
  using assms
  by (auto simp: process_event_def emit_event_def handler_format_def event_text_def event_data_def
      write_str_and_endl_def io_def file_output_def Let_def split: option.splits if_splits prod.splits)

text \<open>What a step adds to the files and to the processed events of the threads.\<close>

definition adds :: "system \<times> history \<Rightarrow> system \<times> history \<Rightarrow> printed list \<Rightarrow> bool" where
  "adds r r' new \<longleftrightarrow>
     (\<forall>f. file_output f (sk_io (o_sink (out_of (fst r')))) =
       file_output f (sk_io (o_sink (out_of (fst r)))) @ concat (map pr_text (filter (\<lambda>p. pr_file p = f) new))) \<and>
     (\<forall>t. take (hs_processed (snd r') t) (hs_logged (snd r') t) =
       take (hs_processed (snd r) t) (hs_logged (snd r) t) @ map pr_event (filter (\<lambda>p. pr_thread p = t) new))"

lemma adds_nothing:
  assumes "\<And>f. file_output f (sk_io (o_sink (out_of s'))) = file_output f (sk_io (o_sink (out_of s)))"
    and "hs_processed h' = hs_processed h" and "\<And>t. \<exists>es. hs_logged h' t = hs_logged h t @ es"
    and "\<And>t. hs_processed h t \<le> length (hs_logged h t)"
  shows "adds (s, h) (s', h') (newly_printed en (s, h) (s', h'))"
proof -
  have "take (hs_processed h t) (hs_logged h' t) = take (hs_processed h t) (hs_logged h t)" for t
    using assms(3) [of t] assms(4) [of t] by auto
  then show ?thesis using assms(1,2) by (simp add: adds_def newly_printed_def)
qed

lemma observe_keeps:
  "hs_logged (observe_backend s s' h) = hs_logged h"
  "(\<And>n. sy_pc s \<noteq> At (Some n)) \<Longrightarrow> hs_processed (observe_backend s s' h) = hs_processed h"
  by (auto simp: observe_backend_def not_late_def disown_def count_processed_def split: backend_pc.splits option.splits)

text \<open>Only serving a queue writes to a file.\<close>

lemma backend_step_files:
  assumes "backend_step en cr s = Some s'" and "\<And>n. sy_pc s \<noteq> At (Some n)"
  shows "file_output f (sk_io (o_sink (out_of s'))) = file_output f (sk_io (o_sink (out_of s)))"
proof (cases "sy_pc s")
  case Loop_Top
  obtain rg o1 where mem: "bk_mem (sy_bk s) = (rg, o1)" by fastforce
  have "out_of s' = o1 \<or> out_of s' = switched o1"
    using assms(1) Loop_Top
    by (auto simp: backend_step_def loop_top_step_def mem switched_def Let_def split: if_splits)
  then show ?thesis using mem switched_simps(7) by auto
next
  case (At p)
  then show ?thesis using assms by (cases p) (auto simp: backend_step_def pass_end_step_def)
qed (use assms in \<open>auto simp: backend_step_def check_step_def remove_step_def unlink_step_def
      split: option.splits sum.splits if_splits\<close>)

lemma serve_adds:
  assumes inv: "system_inv en ns s h" and pc: "sy_pc s = At (Some n)" and step: "backend_step en cr s = Some s'"
  shows "adds (s, h) (s', observe_backend s s' h) (newly_printed en (s, h) (s', observe_backend s s' h))"
proof -
  let ?en = "with_clock (bk_resync (sy_bk s)) en"
  obtain nd ctx t q' where o: "rg_nodes (rg_of s) n = Some nd"
    "rg_contexts (rg_of s) (nd_context nd) = Some ctx" "hs_owner h (nd_context nd) = Some t"
    "sy_threads s t = T_Running (nd_context nd) \<or> sy_threads s t = T_Ended"
    "\<exists>pre post. ns = pre @ n # post \<and> nd_next nd = list_head post"
    "q_holds q' (map event_bytes (tl (waiting h t)))" "tc_is_alive ctx = (sy_threads s t \<noteq> T_Ended)"
    "serve_step en n s =
       (let rg = (rg_of s)\<lparr>rg_contexts := (rg_contexts (rg_of s))(nd_context nd \<mapsto> ctx\<lparr>tc_q := q'\<rparr>)\<rparr>
        in case waiting h t of
             [] \<Rightarrow> Some ((set_mem (rg, out_of s) s)\<lparr>sy_any := sy_any s, sy_pc := Check n (nd_next nd)\<rparr>)
           | e # es \<Rightarrow> map_option (\<lambda>o2. (set_mem (rg, o2) s)\<lparr>sy_any := True, sy_pc := At (nd_next nd)\<rparr>)
               (process_event ?en e (out_of s)))"
    using serve_step_cases [OF inv pc] .
  have owner: "owner_at h (rg_of s) n = Some t" using o(1,3) by (simp add: owner_at_node)
  have serve: "serve_step en n s = Some s'" using step pc by (simp add: backend_step_def)
  have events: "\<And>u. hs_processed h u \<le> length (hs_logged h u)" using inv_events [OF inv] by blast
  show ?thesis
  proof (cases "waiting h t")
    case Nil
    then have s': "out_of s' = out_of s" "sy_pc s' = Check n (nd_next nd)" using serve o(8) by (auto simp: Let_def)
    have "observe_backend s s' h = h" by (simp add: observe_backend_def pc s'(2))
    then show ?thesis using events by (intro adds_nothing) (simp_all add: s'(1))
  next
    case (Cons e es)
    then obtain o2 where o2: "process_event ?en e (out_of s) = Some o2" "out_of s' = o2" "sy_pc s' = At (nd_next nd)"
      using serve o(8) by (auto simp: Let_def)
    let ?h = "h\<lparr>hs_processed := (hs_processed h)(t := Suc (hs_processed h t))\<rparr>"
    have h': "observe_backend s s' h = ?h" by (simp add: observe_backend_def pc o2(3) owner count_processed_def)
    have "hs_processed ?h \<noteq> hs_processed h" by (simp add: fun_upd_idem_iff)
    then have new: "newly_printed en (s, h) (s', ?h) =
        [\<lparr>pr_thread = t, pr_event = e, pr_file = sk_file (o_sink (out_of s)), pr_text = event_text ?en (out_of s) e\<rparr>]"
      by (simp add: newly_printed_def printed_by_def pc owner Cons)
    have "take (Suc (hs_processed h t)) (hs_logged h t) = take (hs_processed h t) (hs_logged h t) @ [e]"
      using take_Suc_conv_app_nth [of "hs_processed h t" "hs_logged h t"] nth_via_drop [OF Cons [unfolded waiting_def]]
        Cons [unfolded waiting_def] by (cases "hs_processed h t < length (hs_logged h t)") simp_all
    then show ?thesis
      unfolding h' adds_def new using process_event_output [OF o2(1)] o2(2) by simp
  qed
qed

lemma step_adds:
  assumes inv: "system_inv en ns s h" and step: "system_step en (s, h) (s', h')"
  shows "adds (s, h) (s', h') (newly_printed en (s, h) (s', h'))"
proof -
  have events: "\<And>u. hs_processed h u \<le> length (hs_logged h u)" using inv_events [OF inv] by blast
  from step show ?thesis
  proof (cases rule: system_step.cases)
    case (st_backend cr)
    show ?thesis
    proof (cases "\<exists>n. sy_pc s = At (Some n)")
      case True
      then show ?thesis using serve_adds [OF inv _ st_backend(2)] st_backend(1) by blast
    next
      case False
      then have "\<And>n. sy_pc s \<noteq> At (Some n)" by blast
      from backend_step_files [OF st_backend(2) this] observe_keeps(2) [OF this] show ?thesis
        unfolding st_backend(1) using events by (intro adds_nothing) (simp_all add: observe_keeps(1))
    qed
  next
    case (st_log e tid stored)
    have "out_of s' = out_of s" using st_log(3) by (auto simp: thread_push_def split: thread_state.splits)
    then show ?thesis
      unfolding st_log(1) using events by (intro adds_nothing) (simp_all add: observe_log_def)
  next
    case (st_begin tid n c qsize nm)
    have "out_of s' = out_of s" using st_begin(6) by (auto simp: thread_begin_def split: option.splits)
    then show ?thesis unfolding st_begin(1) using events by (intro adds_nothing) simp_all
  next
    case (st_cas spurious tid)
    have "out_of s' = out_of s" using st_cas(2) by (auto simp: thread_cas_def split: thread_state.splits option.splits)
    then show ?thesis unfolding st_cas(1) using events by (intro adds_nothing) simp_all
  next
    case (st_end tid)
    have "out_of s' = out_of s" using st_end(2) by (auto simp: thread_end_def split: thread_state.splits)
    then show ?thesis unfolding st_end(1) using events by (intro adds_nothing) simp_all
  next
    case (st_sink f mode bsize)
    have "file_output g (sk_io (queue_new_sink f mode bsize (o_sink (out_of s)))) = file_output g (sk_io (o_sink (out_of s)))" for g
      by (simp add: sink_defs Let_def split: option.split)
    then show ?thesis unfolding st_sink using events by (intro adds_nothing) simp_all
  qed (use events in \<open>auto intro!: adds_nothing\<close>)
qed

section \<open>Properties\<close>

lemma output_trace_adds:
  "output_trace en su r tr \<Longrightarrow>
    (\<forall>f. file_output f (sk_io (o_sink (out_of (fst r)))) = concat (map pr_text (filter (\<lambda>p. pr_file p = f) tr))) \<and>
    (\<forall>t. map pr_event (filter (\<lambda>p. pr_thread p = t) tr) = take (hs_processed (snd r) t) (hs_logged (snd r) t))"
proof (induction rule: output_trace.induct)
  case (ot_start bk)
  then show ?case
    by (auto simp: started_def no_history_def new_backend_def new_sink_handler_def file_output_def
        split: option.splits bool.splits)
next
  case (ot_step r tr r')
  obtain s h s' h' where r: "r = (s, h)" "r' = (s', h')" by fastforce
  obtain ns where "system_inv en ns s h"
    using system_reachable_inv output_trace_reachable [OF ot_step.hyps(1)] unfolding r by blast
  from step_adds [OF this] have "adds r r' (newly_printed en r r')" using ot_step.hyps(2) unfolding r by blast
  then show ?case using ot_step.IH by (simp add: adds_def)
qed

text \<open>C5. The output under concurrency: however the steps of the backend, of the logging threads and of the
  setters interleave, every file holds exactly the texts of the processed events, in the order in which
  they were processed, nothing else; and the events processed of a thread are the first ones it has logged, in
  the order of its calls, each once. Every execution has such a record.\<close>
theorem output_is_interleaving:
  assumes "system_reachable en su (s, h)"
  shows "\<exists>tr. output_trace en su (s, h) tr \<and>
    (\<forall>f. file_output f (sk_io (o_sink (out_of s))) = concat (map pr_text (filter (\<lambda>p. pr_file p = f) tr))) \<and>
    (\<forall>t. map pr_event (filter (\<lambda>p. pr_thread p = t) tr) = take (hs_processed h t) (hs_logged h t))"
  using reachable_output_trace [OF assms] output_trace_adds by fastforce

lemma output_is_interleaving_witness:
  "\<exists>s h tr. output_trace demo_env demo_startup (s, h) tr \<and> hs_logged h 1 = [demo_event] \<and>
     map pr_event (filter (\<lambda>p. pr_thread p = 1) tr) = [demo_event]"
proof -
  obtain s h where run: "demo_reachable s h" "sy_pc s = Loop_Top" "\<not> sy_running s"
    and t: "sy_threads s 1 = T_Ended" "hs_logged h 1 = [demo_event]" "hs_late h = {}" "rg_head (rg_of s) = None"
    using demo_stopped by metis
  obtain ns where inv: "system_inv demo_env ns s h" using system_reachable_inv [OF run(1)] by blast
  have "waiting h 1 = []" using empty_list_freed(2) [OF inv t(4) t(1)] t(3) inv late_okD by (auto simp: system_inv_def)
  then have "take (hs_processed h 1) (hs_logged h 1) = [demo_event]" using t(2) by (simp add: waiting_def)
  then show ?thesis using output_is_interleaving [OF run(1)] t(2) by metis
qed

end
