(* ===== verification/Example.thy ===== *)
theory Example
  imports Api
begin

text \<open>
  The example program of the repository, \<open>src/example/main.cpp\<close>, on top of the whole library: it sets a
  pattern, logs ten messages with two arguments each and returns from \<open>main\<close>. What is shown of it is what
  a reader of the program expects: from the start of the process to the end of its static
  destructors it puts exactly these ten lines on the standard output, in order, whenever the backend
  thread happens to take its turns.

  The helpers for the \<open>perf\<close> fifos and the final report, which the program defines and does not call,
  are here as well; the system calls they make are recorded, their results are arguments.
\<close>

section \<open>The program\<close>

text \<open>What the host gives to a run: the start of the backend, fresh addresses, the main thread, the address
  of the static data of the one call site, the tick counter at each call, how many turns the backend takes
  before each call (and before and after the end of the main thread, at the indices 10 and 11), and the
  readings of the clocks, one for each turn.\<close>

record main_host =
  mh_startup :: startup
  mh_name_ptr :: "nat \<Rightarrow> u64"
  mh_alloc :: allocation
  mh_formatter :: nat
  mh_thread :: nat
  mh_site :: u64
  mh_times :: "nat \<Rightarrow> u64"
  mh_turns :: "nat \<Rightarrow> nat"
  mh_reads :: "clock_reads stream"

type_synonym running = "clock_reads stream \<times> papper"

text \<open>The backend thread takes a number of turns.\<close>

fun run_turns :: "environment \<Rightarrow> nat \<Rightarrow> running \<Rightarrow> running option" where
  "run_turns en 0 r = Some r"
| "run_turns en (Suc k) (reads, ps) =
     (case ps_backend ps of
        None \<Rightarrow> Some (reads, ps)
      | Some bk \<Rightarrow>
          (case backend_turn en (shd reads) bk of
             None \<Rightarrow> None
           | Some bk' \<Rightarrow> run_turns en k (stl reads, ps\<lparr>ps_backend := Some bk'\<rparr>)))"

text \<open>\<open>PAPPER_TRACE("hej {}, {}", i, "hopp")\<close>: the call site and the arguments, an \<open>int\<close> and an array of five
  characters. The five bytes of the array are copied into the event.\<close>

definition hej_args :: "nat \<Rightarrow> (ctype \<times> cval) list" where
  "hej_args i = [(C_Triv ''int'' 4, V_Triv (le_bytes 4 i)), (C_Triv ''char[5]'' 5, V_Triv [0x68, 0x6F, 0x70, 0x70, 0])]"

definition hej_site :: "string \<Rightarrow> string \<Rightarrow> u32 \<Rightarrow> call_site option" where
  "hej_site file_name function_name line =
     map_option (\<lambda>lvl. log_impl_static_data lvl ''hej {}, {}'' (hej_args 0) file_name function_name line)
       (macro_level False False ''PAPPER_TRACE'')"

fun log_calls :: "environment \<Rightarrow> main_host \<Rightarrow> nat list \<Rightarrow> running \<Rightarrow> (unit outcome \<times> running) option" where
  "log_calls en ho [] r = Some (Returns (), r)"
| "log_calls en ho (i # is) r =
     (case run_turns en (mh_turns ho i) r of
        None \<Rightarrow> None
      | Some (reads, ps) \<Rightarrow>
          (case log_call (mh_startup ho) (mh_name_ptr ho) (mh_alloc ho) (mh_thread ho) 0 (mh_site ho) (mh_times ho i)
             (hej_args i) ps of
             None \<Rightarrow> None
           | Some (Throws e, ps1) \<Rightarrow> Some (Throws e, (reads, ps1))
           | Some (Returns u, ps1) \<Rightarrow> log_calls en ho is (reads, ps1)))"

text \<open>\<open>main\<close> and what follows it: the thread-local objects of the main thread are destroyed, then the static
  ones. The result is what is left of the outputs; an exception nobody catches ends the process.\<close>

definition main_program :: "environment \<Rightarrow> main_host \<Rightarrow> outputs outcome option" where
  "main_program en ho =
     (case set_pattern (mh_startup ho) (mh_formatter ho) ''{time:HMSF} {message}'' initial_papper of
        None \<Rightarrow> None
      | Some (Throws e, ps) \<Rightarrow> Some (Throws e)
      | Some (Returns u, ps) \<Rightarrow>
          (case log_calls en ho [0..<10] (mh_reads ho, ps) of
             None \<Rightarrow> None
           | Some (Throws e, r) \<Rightarrow> Some (Throws e)
           | Some (Returns u, r1) \<Rightarrow>
               (case run_turns en (mh_turns ho 10) r1 of
                  None \<Rightarrow> None
                | Some (reads2, ps2) \<Rightarrow>
                    (case exit_thread (mh_thread ho) ps2 of
                       None \<Rightarrow> None
                     | Some ps3 \<Rightarrow>
                         (case run_turns en (mh_turns ho 11) (reads2, ps3) of
                            None \<Rightarrow> None
                          | Some (reads4, ps4) \<Rightarrow>
                              (case ps_backend ps4 of
                                 None \<Rightarrow> None
                               | Some bk \<Rightarrow> map_option Returns (backend_dtor en reads4 bk)))))))"

section \<open>The helpers for perf\<close>

record perf =
  pf_ctl :: int
  pf_ack :: int

definition initial_perf :: perf where "initial_perf = \<lparr>pf_ctl = -1, pf_ack = -1\<rparr>"

datatype sys_call = Sys_Open string | Sys_Close int | Sys_Set_Blocking int | Sys_Write int string | Sys_Read int nat

text \<open>\<open>ctl\<close> and \<open>ack\<close> are the results of the two calls of \<open>open\<close>, negative if they fail.\<close>

definition perf_open :: "int \<Rightarrow> int \<Rightarrow> perf \<Rightarrow> perf \<times> sys_call list" where
  "perf_open ctl ack p =
     (let p1 = p\<lparr>pf_ctl := ctl\<rparr>
      in if ctl < 0 then (p1, [Sys_Open ''ctl.fifo''])
         else
           let p2 = p1\<lparr>pf_ack := ack\<rparr>
           in if ack < 0 then (p2\<lparr>pf_ctl := -1\<rparr>, [Sys_Open ''ctl.fifo'', Sys_Open ''ack.fifo'', Sys_Close ctl])
              else (p2, [Sys_Open ''ctl.fifo'', Sys_Open ''ack.fifo'', Sys_Set_Blocking ctl]))"

definition perf_command :: "string \<Rightarrow> int \<Rightarrow> perf \<Rightarrow> sys_call list" where
  "perf_command cmd written p =
     (if pf_ctl p < 0 \<or> pf_ack p < 0 then []
      else if written \<noteq> int (length cmd) then [Sys_Write (pf_ctl p) cmd]
      else [Sys_Write (pf_ctl p) cmd, Sys_Read (pf_ack p) 8])"

text \<open>The report of \<open>finish\<close>; \<open>show_double\<close> is how \<open>std::cout\<close> prints a number. A run of no measurable length
  divides by zero, which has no value here.\<close>

definition n_messages :: int where "n_messages = 10000000"

definition finish :: "(double \<Rightarrow> string) \<Rightarrow> clock \<Rightarrow> double \<Rightarrow> u64 \<Rightarrow> string option" where
  "finish show_double c begin_ns tsc =
     (let elapsed_seconds = d_mult (d_add (read_timestamp_ns c tsc) (d_neg begin_ns)) (d_div (1, 0) (d_of_int 1000000000))
      in if fst elapsed_seconds = 0 then None
         else Some (show_double (d_div (d_div (d_of_int n_messages) elapsed_seconds) (d_of_int 1000000)) @
                '' million msgs/s'' @ [CHR 0x0A]))"

text \<open>\<open>perf_open\<close> leaves both descriptors usable or none, closes what it opened in vain, and without both
  \<open>perf_command\<close> makes no system call.\<close>

lemma perf_open_all_or_nothing:
  assumes "perf_open ctl ack p = (p', calls)"
  shows "0 \<le> pf_ctl p' \<longleftrightarrow> 0 \<le> ctl \<and> 0 \<le> ack"
    and "0 \<le> pf_ctl p' \<Longrightarrow> pf_ctl p' = ctl \<and> pf_ack p' = ack"
    and "0 \<le> ctl \<Longrightarrow> Sys_Close ctl \<in> set calls \<longleftrightarrow> ack < 0"
    and "ctl < 0 \<or> ack < 0 \<Longrightarrow> perf_command cmd written p' = []"
  using assms by (auto simp: perf_open_def perf_command_def Let_def split: if_splits)

section \<open>One thread and the backend\<close>

definition hej_tokens :: "token list" where
  "hej_tokens = [T_Field ''time:HMSF'', T_Char CHR '' '', T_Field ''message'']"

lemma hej_pattern_accepted: "accepted 16 1000 hej_tokens"
  by code_simp

lemma hej_pattern_parses: "parse_pattern 16 1000 ''{time:HMSF} {message}'' = Some (pattern_of hej_tokens)"
  using parse_accepted [OF hej_pattern_accepted] by (simp add: hej_tokens_def)

lemma pattern_of_error: "pp_error (pattern_of ts) = E_None"
  by (simp add: pattern_of_def)

definition hej_event :: "main_host \<Rightarrow> nat \<Rightarrow> log_event" where
  "hej_event ho i = \<lparr>ev_site = mh_site ho, ev_name = mh_name_ptr ho (al_context (mh_alloc ho)),
     ev_time = mh_times ho i, ev_args = hej_args i\<rparr>"

text \<open>What the run relies on: the static data is the call site's, the thread has a name, \<open>fmt\<close> formats the ten
  messages, exchanges do not fail for ever, and with the clock as it is after any number of
  resynchronisations the ten time stamps can be converted.\<close>

definition host_ok :: "environment \<Rightarrow> main_host \<Rightarrow> resync_state \<Rightarrow> bool" where
  "host_ok en ho rc0 \<longleftrightarrow>
     (\<exists>file_name function_name line. en_sites en (mh_site ho) = hej_site file_name function_name line) \<and>
     en_names en (mh_name_ptr ho (al_context (mh_alloc ho))) \<noteq> None \<and>
     (\<forall>i < 10. en_uformat en ''hej {}, {}'' (hej_args i) \<noteq> None) \<and>
     False \<in> set (al_attempts (mh_alloc ho)) \<and>
     (\<forall>k. \<exists>rc. resync_run (stake k (mh_reads ho)) rc0 = Some rc \<and>
        (\<forall>i < 10. \<exists>t. timestamp_to_local_system_time (rc_clock rc) (mh_times ho i) = Some t \<and> t div ns_per_s \<noteq> -1))"

lemma host_clock:
  assumes "host_ok en ho rc0"
  obtains rc where "resync_run (stake k (mh_reads ho)) rc0 = Some rc"
    "\<And>i. i < 10 \<Longrightarrow> \<exists>t. timestamp_to_local_system_time (rc_clock rc) (mh_times ho i) = Some t \<and> t div ns_per_s \<noteq> -1"
  using assms unfolding host_ok_def by blast

lemma le_bytes_length [simp]: "length (le_bytes n x) = n"
  by (induction n arbitrary: x) simp_all

lemma hej_event_ok: "event_ok (hej_event ho i)"
  by (simp add: event_ok_def hej_event_def hej_args_def cval_ok_def event_payload_def)

lemma hej_event_size: "length (event_bytes (hej_event ho i)) = 41"
  by (simp add: event_bytes_length hej_event_def hej_args_def event_payload_def)

lemma trace_macro: "macro_level False False ''PAPPER_TRACE'' = Some Trace"
  by code_simp

lemma hej_site_data:
  "hej_site file_name function_name line = Some site \<Longrightarrow> cs_arg_types site = map fst (hej_args i)"
  "hej_site file_name function_name line = Some site \<Longrightarrow> cs_fmt_str site = ''hej {}, {}'' \<and> cs_level site = 0"
  by (auto simp: hej_site_def trace_macro log_impl_static_data_def get_decoding_function_def hej_args_def)

lemma hej_printable:
  assumes ok: "host_ok en ho rc0" and rc: "resync_run (stake k (mh_reads ho)) rc0 = Some rc" and i: "i < 10"
  shows "event_printable (with_clock rc en) (hej_event ho i)"
proof -
  obtain file_name function_name line where "en_sites en (mh_site ho) = hej_site file_name function_name line"
    using ok unfolding host_ok_def by blast
  then obtain site where site: "en_sites en (mh_site ho) = Some site" "hej_site file_name function_name line = Some site"
    by (auto simp: hej_site_def trace_macro)
  obtain name where name: "en_names en (mh_name_ptr ho (al_context (mh_alloc ho))) = Some name"
    using ok by (auto simp: host_ok_def)
  obtain msg where msg: "en_uformat en ''hej {}, {}'' (hej_args i) = Some msg" using ok i by (auto simp: host_ok_def)
  obtain t where t: "timestamp_to_local_system_time (rc_clock rc) (mh_times ho i) = Some t" "t div ns_per_s \<noteq> -1"
    using host_clock [OF ok, of k] rc i by (metis option.inject)
  have "event_typed en (hej_event ho i)"
    using hej_event_ok site hej_site_data(1) [OF site(2)] by (auto simp: event_typed_def hej_event_def)
  then show ?thesis
    using site name msg t hej_site_data(2) [OF site(2)]
    by (simp add: event_printable_def event_data_def with_clock_def hej_event_def event_typed_def)
qed

text \<open>The backend after \<open>k\<close> turns: the registered threads, what has been printed, and with which clocks. All
  of it has been printed with the new pattern, as a turn switches before it prints.\<close>

definition console :: "environment \<Rightarrow> (fmt_arg \<Rightarrow> string) \<Rightarrow> nat \<Rightarrow> (resync_state \<times> log_event) list \<Rightarrow> outputs \<Rightarrow> bool" where
  "console en sh k ces o1 \<longleftrightarrow>
     sk_file (o_sink o1) = Stdout \<and> sk_pending (o_sink o1) = None \<and> o_min_level o1 = 0 \<and>
     caches_ok (en_hms en) (o_caches o1) \<and>
     fo_pattern (next_formatter (o_formatter o1)) = pattern_of hej_tokens \<and>
     fo_pattern (fh_formatter (o_formatter o1)) = pattern_of (if k = 0 then default_tokens else hej_tokens) \<and>
     file_output Stdout (sk_io (o_sink o1)) =
       concat (map (\<lambda>(rc, e). event_line (with_clock rc en) sh hej_tokens 0 e) ces)"

definition bk_at ::
  "environment \<Rightarrow> (fmt_arg \<Rightarrow> string) \<Rightarrow> main_host \<Rightarrow> resync_state \<Rightarrow> nat \<Rightarrow> thread_view list \<Rightarrow>
   (resync_state \<times> log_event) list \<Rightarrow> backend \<Rightarrow> bool"
where
  "bk_at en sh ho rc0 k ts ces bk \<longleftrightarrow>
     views (fst (bk_mem bk)) ts \<and> console en sh k ces (snd (bk_mem bk)) \<and>
     resync_run (stake k (mh_reads ho)) rc0 = Some (bk_resync bk) \<and>
     (\<forall>c \<in> set (map fst ces). clock_seen (mh_reads ho) rc0 c) \<and> (k = 0 \<longrightarrow> ces = [])"

lemma resync_run_append:
  "resync_run (xs @ ys) rc = (case resync_run xs rc of None \<Rightarrow> None | Some rc' \<Rightarrow> resync_run ys rc')"
  by (induction xs arbitrary: rc) (simp_all split: option.split)

definition pending :: "thread_view list \<Rightarrow> log_event list" where
  "pending ts = concat (map tv_events ts)"

definition hej_only :: "main_host \<Rightarrow> log_event list \<Rightarrow> bool" where
  "hej_only ho es \<longleftrightarrow> set es \<subseteq> hej_event ho ` {..<10}"

lemma hej_views_printable:
  assumes "host_ok en ho rc0" and "resync_run (stake k (mh_reads ho)) rc0 = Some rc" and "hej_only ho (pending ts)"
  shows "views_printable (with_clock rc en) ts"
proof -
  have "event_printable (with_clock rc en) e" if "e \<in> set (pending ts)" for e
    using that assms(3) hej_printable [OF assms(1,2)] unfolding hej_only_def by blast
  then show ?thesis by (auto simp: views_printable_def list_all_iff pending_def)
qed

text \<open>One turn.\<close>

lemma turn_at:
  assumes fmt: "fmt_renders sh (en_vformat en)" and ok: "host_ok en ho rc0"
    and bk: "bk_at en sh ho rc0 k ts ces bk" and es: "hej_only ho (pending ts)"
  obtains bk' rc where "backend_turn en (mh_reads ho !! k) bk = Some bk'"
    "bk_at en sh ho rc0 (Suc k) (pass_rest ts) (ces @ map (Pair rc) (pass_events ts)) bk'"
    "ctx_kept (fst (bk_mem bk)) (fst (bk_mem bk'))" "caps_kept (fst (bk_mem bk)) (fst (bk_mem bk'))"
proof -
  obtain rg o1 where mem: "bk_mem bk = (rg, o1)" by fastforce
  have v: "views rg ts" and con: "console en sh k ces o1"
    and run: "resync_run (stake k (mh_reads ho)) rc0 = Some (bk_resync bk)"
    using bk by (simp_all add: bk_at_def mem)
  obtain rc where rc: "resync_run (stake (Suc k) (mh_reads ho)) rc0 = Some rc" using host_clock [OF ok] by metis
  then have sync: "try_resync_clock (mh_reads ho !! k) (bk_resync bk) = Some rc"
    using run by (simp add: stake_Suc resync_run_append del: stake.simps split: option.splits)
  have seen: "clock_seen (mh_reads ho) rc0 rc" unfolding clock_seen_def using rc by blast
  have caches: "caches_ok (en_hms en) (o_caches o1)"
    and pat: "fo_pattern (next_formatter (o_formatter o1)) = pattern_of hej_tokens"
    and cur: "next_file (o_sink o1) = Stdout" using con by (simp_all add: console_def next_file_def)
  obtain rg' o2 where r: "outputs_ready en 16 1000 hej_tokens o2" "o_min_level o2 = o_min_level o1"
      "backend_turn en (mh_reads ho !! k) bk = Some \<lparr>bk_mem = (rg', o2), bk_resync = rc,
        bk_backoff_us = next_backoff (pass_events ts \<noteq> []) (bk_backoff_us bk)\<rparr>" "views rg' (pass_rest ts)"
      "sk_file (o_sink o2) = Stdout" "sk_pending (o_sink o2) = None"
      "fh_formatter (o_formatter o2) = next_formatter (o_formatter o1)" "fh_pending (o_formatter o2) = None"
      "file_output Stdout (sk_io (o_sink o2)) = file_output Stdout (sk_io (o_sink o1)) @
        concat (map (event_line (with_clock rc en) sh hej_tokens (o_min_level o1)) (pass_events ts))"
    using backend_turn_output [OF fmt v sync hej_views_printable [OF ok rc es] mem caches hej_pattern_accepted pat, of Stdout]
    unfolding cur by auto
  have "console en sh (Suc k) (ces @ map (Pair rc) (pass_events ts)) o2"
    using con r pat by (simp add: console_def next_formatter_def outputs_ready_def comp_def)
  then have at: "bk_at en sh ho rc0 (Suc k) (pass_rest ts) (ces @ map (Pair rc) (pass_events ts))
      \<lparr>bk_mem = (rg', o2), bk_resync = rc, bk_backoff_us = next_backoff (pass_events ts \<noteq> []) (bk_backoff_us bk)\<rparr>"
    using bk r(4) rc seen by (auto simp: bk_at_def)
  obtain any where "poll_threads (with_clock rc en) (rg, switched o1) = Some (any, rg', o2)"
    using r(3) sync by (auto simp: backend_turn_def mem switched_def split: option.splits)
  then have "ctx_kept rg rg'" "caps_kept rg rg'"
    unfolding poll_threads_def by (auto dest: poll_loop_kept poll_loop_caps)
  then show ?thesis using that r(3) at mem by simp
qed

text \<open>Any number of turns with at most one thread registered: events move from its queue to the output, in
  order; a thread that is alive stays.\<close>

definition later ::
  "thread_view list \<Rightarrow> (resync_state \<times> log_event) list \<Rightarrow> thread_view list \<Rightarrow> (resync_state \<times> log_event) list \<Rightarrow> bool"
where
  "later ts ces ts' ces' \<longleftrightarrow>
     map snd ces' @ pending ts' = map snd ces @ pending ts \<and> length ts' \<le> length ts \<and>
     (\<forall>t' \<in> set ts'. \<exists>t \<in> set ts. tv_node t' = tv_node t \<and> tv_alive t' = tv_alive t) \<and>
     ((\<exists>t \<in> set ts. tv_alive t) \<longrightarrow> (\<exists>t \<in> set ts'. tv_alive t))"

lemma later_refl: "later ts ces ts ces"
  by (auto simp: later_def)

lemma later_trans: "later ts ces ts1 ces1 \<Longrightarrow> later ts1 ces1 ts2 ces2 \<Longrightarrow> later ts ces ts2 ces2"
  unfolding later_def by (metis le_trans)

lemma pass_later:
  assumes "length ts \<le> 1"
  shows "later ts ces (pass_rest ts) (ces @ map (Pair rc) (pass_events ts))"
proof (cases ts)
  case (Cons t us)
  then have us: "ts = [t]" using assms by simp
  show ?thesis by (cases "tv_events t") (simp_all add: us later_def pass_thread_def pending_def comp_def)
qed (simp add: later_def)

lemma run_turns_at:
  assumes fmt: "fmt_renders sh (en_vformat en)" and ok: "host_ok en ho rc0"
  shows "ps_backend ps = Some bk \<Longrightarrow> bk_at en sh ho rc0 k ts ces bk \<Longrightarrow> length ts \<le> 1 \<Longrightarrow>
    hej_only ho (map snd ces @ pending ts) \<Longrightarrow>
    \<exists>bk' ts' ces'. run_turns en m (sdrop k (mh_reads ho), ps) =
        Some (sdrop (k + m) (mh_reads ho), ps\<lparr>ps_backend := Some bk'\<rparr>) \<and>
      bk_at en sh ho rc0 (k + m) ts' ces' bk' \<and> later ts ces ts' ces' \<and>
      ctx_kept (fst (bk_mem bk)) (fst (bk_mem bk')) \<and> caps_kept (fst (bk_mem bk)) (fst (bk_mem bk'))"
proof (induction m arbitrary: k ps bk ts ces)
  case 0
  then have "run_turns en 0 (sdrop k (mh_reads ho), ps) = Some (sdrop (k + 0) (mh_reads ho), ps\<lparr>ps_backend := Some bk\<rparr>)" by simp
  then show ?case using 0 later_refl ctx_kept_refl caps_kept_refl by (metis add_0_right)
next
  case (Suc m)
  have "hej_only ho (pending ts)" using Suc.prems(4) by (simp add: hej_only_def)
  from turn_at [OF fmt ok Suc.prems(2) this] obtain bk1 rc where
    turn: "backend_turn en (mh_reads ho !! k) bk = Some bk1"
    and at: "bk_at en sh ho rc0 (Suc k) (pass_rest ts) (ces @ map (Pair rc) (pass_events ts)) bk1"
    and kept: "ctx_kept (fst (bk_mem bk)) (fst (bk_mem bk1))" "caps_kept (fst (bk_mem bk)) (fst (bk_mem bk1))"
    by metis
  let ?ces = "ces @ map (Pair rc) (pass_events ts)"
  note l = pass_later [OF Suc.prems(3), of ces rc]
  have "length (pass_rest ts) \<le> 1" "hej_only ho (map snd ?ces @ pending (pass_rest ts))"
    using l Suc.prems(3,4) unfolding later_def by (simp, metis)
  from Suc.IH [OF _ at this, of "ps\<lparr>ps_backend := Some bk1\<rparr>"] obtain bk2 ts2 ces2 where
    r: "run_turns en m (sdrop (Suc k) (mh_reads ho), ps\<lparr>ps_backend := Some bk1\<rparr>) =
        Some (sdrop (Suc k + m) (mh_reads ho), ps\<lparr>ps_backend := Some bk2\<rparr>)"
      "bk_at en sh ho rc0 (Suc k + m) ts2 ces2 bk2" "later (pass_rest ts) ?ces ts2 ces2"
      "ctx_kept (fst (bk_mem bk1)) (fst (bk_mem bk2))" "caps_kept (fst (bk_mem bk1)) (fst (bk_mem bk2))"
    by auto
  have "run_turns en (Suc m) (sdrop k (mh_reads ho), ps) = Some (sdrop (k + Suc m) (mh_reads ho), ps\<lparr>ps_backend := Some bk2\<rparr>)"
    using r(1) turn Suc.prems(1) by simp
  then show ?case
    using r(2) later_trans [OF l r(3)] ctx_kept_trans [OF kept(1) r(4)] caps_kept_trans [OF kept(2) r(5)]
    by (metis add_Suc_shift)
qed

section \<open>The main thread\<close>

abbreviation main_ctx :: "main_host \<Rightarrow> nat" where "main_ctx ho \<equiv> al_context (mh_alloc ho)"

abbreviation main_node :: "main_host \<Rightarrow> nat" where "main_node ho \<equiv> al_node (mh_alloc ho)"

definition one :: "main_host \<Rightarrow> bool \<Rightarrow> log_event list \<Rightarrow> thread_view list" where
  "one ho alive es = [\<lparr>tv_node = main_node ho, tv_alive = alive, tv_events = es\<rparr>]"

lemma one_simps [simp]: "pending (one ho alive es) = es" "length (one ho alive es) = 1"
  by (simp_all add: one_def pending_def)

text \<open>After \<open>i\<close> of the ten calls.\<close>

definition hej_at ::
  "environment \<Rightarrow> (fmt_arg \<Rightarrow> string) \<Rightarrow> main_host \<Rightarrow> resync_state \<Rightarrow> nat \<Rightarrow> nat \<Rightarrow>
   (resync_state \<times> log_event) list \<Rightarrow> log_event list \<Rightarrow> papper \<Rightarrow> bool"
where
  "hej_at en sh ho rc0 k i ces es ps \<longleftrightarrow>
     (\<exists>bk q. ps_backend ps = Some bk \<and> bk_at en sh ho rc0 k (one ho True es) ces bk \<and>
        map snd ces @ es = map (hej_event ho) [0..<i] \<and> ps_handlers ps (mh_thread ho) = Made (main_ctx ho) \<and>
        ctx_of (fst (bk_mem bk)) (main_node ho) = Some (main_ctx ho) \<and>
        node_queue (fst (bk_mem bk)) (main_node ho) = Some q \<and> 1048576 \<le> q_cap q)"

lemma hej_bytes:
  assumes "map snd ces @ es = map (hej_event ho) [0..<i]"
  shows "length (concat (map event_bytes es)) \<le> 41 * i"
proof -
  have "length (map snd ces @ es) = i" unfolding assms by simp
  then have "length es \<le> i" by simp
  moreover have "length (event_bytes e) = 41" if "e \<in> set es" for e
  proof -
    have "e \<in> set (map (hej_event ho) [0..<i])" using that assms by (metis Un_iff set_append)
    then show ?thesis using hej_event_size by auto
  qed
  then have "length (concat (map event_bytes es)) = 41 * length es" by (induction es) auto
  ultimately show ?thesis by simp
qed

lemma hej_prefix_only:
  assumes "xs = map (hej_event ho) [0..<i]" and "i \<le> 10"
  shows "hej_only ho xs"
  using assms by (auto simp: hej_only_def)

lemma log_at:
  assumes at: "hej_at en sh ho rc0 k i ces es ps1" and i: "i < 10"
    and look: "(case ps_cached ps (mh_thread ho, 0) of
        Some c \<Rightarrow> Some (Returns c, ps)
      | None \<Rightarrow> get_or_create_thread_queue (mh_startup ho) (mh_alloc ho) (mh_thread ho) '''' (ps_queue_size ps) ps) =
      Some (Returns (main_ctx ho), ps1)"
  shows "\<exists>ps'. log_call (mh_startup ho) (mh_name_ptr ho) (mh_alloc ho) (mh_thread ho) 0 (mh_site ho) (mh_times ho i)
      (hej_args i) ps = Some (Returns (), ps') \<and>
    hej_at en sh ho rc0 k (Suc i) ces (es @ [hej_event ho i]) ps' \<and> ps_cached ps' (mh_thread ho, 0) = Some (main_ctx ho)"
proof -
  obtain bk q where bk: "ps_backend ps1 = Some bk" "bk_at en sh ho rc0 k (one ho True es) ces bk"
      "map snd ces @ es = map (hej_event ho) [0..<i]" "ps_handlers ps1 (mh_thread ho) = Made (main_ctx ho)"
      "ctx_of (fst (bk_mem bk)) (main_node ho) = Some (main_ctx ho)"
      "node_queue (fst (bk_mem bk)) (main_node ho) = Some q" "1048576 \<le> q_cap q"
    using at unfolding hej_at_def by blast
  let ?rg = "fst (bk_mem bk)" and ?e = "hej_event ho i"
  let ?t = "\<lparr>tv_node = main_node ho, tv_alive = True, tv_events = es\<rparr>"
  have v: "views ?rg ([] @ ?t # [])" using bk(2) by (simp add: bk_at_def one_def)
  have "ctx_of ?rg (tv_node ?t) = Some (main_ctx ho)" using bk(5) by simp
  then obtain nd ctx where n: "rg_nodes ?rg (main_node ho) = Some nd" "nd_context nd = main_ctx ho"
      "rg_contexts ?rg (main_ctx ho) = Some ctx" "q_holds (tc_q ctx) (map event_bytes es)"
    using views_node_ctx [OF v] by (metis thread_view.select_convs(1,3))
  have q: "tc_q ctx = q" using bk(5,6) n(3) by (simp add: node_queue_def)
  have "length (concat (map event_bytes es)) + length (event_bytes ?e) \<le> 410"
    using hej_bytes [OF bk(3)] i by (simp add: hej_event_size)
  then have "event_fits (q_cap q) es ?e" using bk(7) by (simp add: event_fits_def fits_def)
  then obtain q' where q': "push_event ?e q = Some (True, q')" "q_holds q' (map event_bytes (es @ [?e]))" "q_cap q' = q_cap q"
    using push_event_law [OF hej_event_ok [of ho i] n(4) [unfolded q]] by auto
  let ?rg' = "?rg\<lparr>rg_contexts := (rg_contexts ?rg)(main_ctx ho \<mapsto> ctx\<lparr>tc_q := q'\<rparr>)\<rparr>"
  let ?bk = "bk\<lparr>bk_mem := (?rg', snd (bk_mem bk))\<rparr>"
  let ?ps = "ps1\<lparr>ps_backend := Some ?bk, ps_cached := (ps_cached ps1)((mh_thread ho, 0) \<mapsto> main_ctx ho)\<rparr>"
  have "context_log (main_ctx ho) ?e ?rg = Some (True, ?rg')" using n(3) q q'(1) by (simp add: context_log_def)
  then have "log_call (mh_startup ho) (mh_name_ptr ho) (mh_alloc ho) (mh_thread ho) 0 (mh_site ho) (mh_times ho i)
      (hej_args i) ps = Some (Returns (), ?ps)"
    unfolding log_call_def look using bk(1) by (simp add: hej_event_def)
  moreover have "views ?rg' (one ho True (es @ [?e]))"
    using views_set_queue [OF v _ _ q'(2), of nd ctx] n by (simp add: one_def)
  then have "bk_at en sh ho rc0 k (one ho True (es @ [?e])) ces ?bk" using bk(2) by (simp add: bk_at_def)
  then have "hej_at en sh ho rc0 k (Suc i) ces (es @ [?e]) ?ps"
    unfolding hej_at_def using bk(3-7) q'(3) by (auto simp: node_queue_def ctx_of_def)
  ultimately show ?thesis by auto
qed

text \<open>The first call makes the handler: with the memory the host gives, the thread is registered with an
  empty queue of at least the default size.\<close>

definition unregistered :: "main_host \<Rightarrow> papper \<Rightarrow> bool" where
  "unregistered ho ps \<longleftrightarrow> ps_handlers ps (mh_thread ho) = Not_Made \<and> ps_cached ps (mh_thread ho, 0) = None \<and>
     ps_queue_size ps = 1048576 \<and> al_fresh (mh_alloc ho) ps"

lemma first_lookup:
  assumes ps: "ps_backend ps = Some bk" and un: "unregistered ho ps" and ok: "host_ok en ho rc0"
    and bk: "bk_at en sh ho rc0 k [] [] bk"
  shows "\<exists>ps1. get_or_create_thread_queue (mh_startup ho) (mh_alloc ho) (mh_thread ho) '''' (ps_queue_size ps) ps =
      Some (Returns (main_ctx ho), ps1) \<and> hej_at en sh ho rc0 k 0 [] [] ps1"
proof -
  let ?rg = "fst (bk_mem bk)"
  obtain q where q: "new_queue 1048576 = Some q" "q_holds q []" "1048576 \<le> q_cap q"
    using new_queue_holds [of 1048576] by auto
  obtain ctx u where ctx: "new_thread_context '''' 1048576 (ps_unnamed ps) = Some (ctx, u)" "tc_q ctx = q" "tc_is_alive ctx"
    using q(1) by (auto simp: new_thread_context_def Let_def)
  have fresh: "rg_nodes ?rg (main_node ho) = None" "rg_contexts ?rg (main_ctx ho) = None"
    using un ps by (simp_all add: unregistered_def al_fresh_def)
  have "False \<in> set (al_attempts (mh_alloc ho))" using ok by (simp add: host_ok_def)
  moreover have "rg_nodes (register_begin (main_node ho) (main_ctx ho) (add_context (main_ctx ho) ctx ?rg)) (main_node ho) =
      Some \<lparr>nd_context = main_ctx ho, nd_next = rg_head ?rg\<rparr>"
    by (simp add: register_begin_def add_context_def)
  ultimately obtain rg' where reg: "register_thread (mh_alloc ho) (add_context (main_ctx ho) ctx ?rg) = Some rg'"
    unfolding register_thread_def using register_loop_returns by (fastforce simp: register_begin_def add_context_def)
  have v: "views ?rg []" using bk by (simp add: bk_at_def)
  have r: "views rg' (one ho True [])" "ctx_of rg' (main_node ho) = Some (main_ctx ho)" "rg_contexts rg' (main_ctx ho) = Some ctx"
    using register_thread_views [OF v fresh _ _ reg] q(2) ctx(2,3) by (simp_all add: one_def)
  let ?bk = "bk\<lparr>bk_mem := (rg', snd (bk_mem bk))\<rparr>"
  let ?ps = "ps\<lparr>ps_unnamed := u, ps_backend := Some ?bk, ps_handlers := (ps_handlers ps)(mh_thread ho := Made (main_ctx ho))\<rparr>"
  have "get_or_create_thread_queue (mh_startup ho) (mh_alloc ho) (mh_thread ho) '''' (ps_queue_size ps) ps =
      Some (Returns (main_ctx ho), ?ps)"
    using un ctx(1) reg ps
    by (simp add: get_or_create_thread_queue_def unregistered_def thread_context_handler_def get_or_create_instance_def)
  moreover have "bk_at en sh ho rc0 k (one ho True []) [] ?bk" using bk r(1) by (simp add: bk_at_def)
  then have "hej_at en sh ho rc0 k 0 [] [] ?ps"
    unfolding hej_at_def using r(2,3) q(3) ctx(2) by (simp add: node_queue_def)
  ultimately show ?thesis by blast
qed

text \<open>Turns between the calls.\<close>

lemma hej_turns:
  assumes fmt: "fmt_renders sh (en_vformat en)" and ok: "host_ok en ho rc0" and at: "hej_at en sh ho rc0 k i ces es ps"
    and i: "i \<le> 10" and cached: "ps_cached ps (mh_thread ho, 0) = Some (main_ctx ho)"
  shows "\<exists>ps' ces' es'. run_turns en m (sdrop k (mh_reads ho), ps) = Some (sdrop (k + m) (mh_reads ho), ps') \<and>
    hej_at en sh ho rc0 (k + m) i ces' es' ps' \<and> ps_cached ps' (mh_thread ho, 0) = Some (main_ctx ho)"
proof -
  obtain bk q where bk: "ps_backend ps = Some bk" "bk_at en sh ho rc0 k (one ho True es) ces bk"
      "map snd ces @ es = map (hej_event ho) [0..<i]" "ps_handlers ps (mh_thread ho) = Made (main_ctx ho)"
      "ctx_of (fst (bk_mem bk)) (main_node ho) = Some (main_ctx ho)"
      "node_queue (fst (bk_mem bk)) (main_node ho) = Some q" "1048576 \<le> q_cap q"
    using at unfolding hej_at_def by blast
  have only: "hej_only ho (map snd ces @ pending (one ho True es))" using hej_prefix_only [OF bk(3) i] by simp
  obtain bk' ts' ces' where r: "run_turns en m (sdrop k (mh_reads ho), ps) =
        Some (sdrop (k + m) (mh_reads ho), ps\<lparr>ps_backend := Some bk'\<rparr>)"
      "bk_at en sh ho rc0 (k + m) ts' ces' bk'" "later (one ho True es) ces ts' ces'"
      "ctx_kept (fst (bk_mem bk)) (fst (bk_mem bk'))" "caps_kept (fst (bk_mem bk)) (fst (bk_mem bk'))"
    using run_turns_at [OF fmt ok bk(1,2) _ only, of m] by auto
  have "\<exists>t \<in> set ts'. tv_alive t" "length ts' \<le> 1" using r(3) by (auto simp: later_def one_def)
  then obtain t where t: "ts' = [t]" "tv_alive t" by (cases ts') auto
  have t_node: "tv_node t = main_node ho" using r(3) t(1) by (simp add: later_def one_def)
  have ts': "ts' = one ho True (tv_events t)" using t r(3) by (cases t) (simp add: later_def one_def)
  have v: "views (fst (bk_mem bk')) ([] @ t # [])" using r(2) t(1) by (simp add: bk_at_def)
  then obtain c' ctx' where c': "ctx_of (fst (bk_mem bk')) (main_node ho) = Some c'" "rg_contexts (fst (bk_mem bk')) c' = Some ctx'"
    using t_node by (auto simp: views_def view_ok_def)
  have c: "c' = main_ctx ho" using r(4) c'(1) bk(5) unfolding ctx_kept_def by fastforce
  then obtain ctx where "rg_contexts (fst (bk_mem bk)) (main_ctx ho) = Some ctx" "q_cap (tc_q ctx) = q_cap (tc_q ctx')"
    using r(5) c'(2) unfolding caps_kept_def by metis
  then have "node_queue (fst (bk_mem bk')) (main_node ho) = Some (tc_q ctx')" "1048576 \<le> q_cap (tc_q ctx')"
    using bk(5-7) c' c by (auto simp: node_queue_def)
  moreover have "map snd ces' @ tv_events t = map (hej_event ho) [0..<i]"
    using r(3) bk(3) t(1) by (simp add: later_def pending_def one_def)
  ultimately have "hej_at en sh ho rc0 (k + m) i ces' (tv_events t) (ps\<lparr>ps_backend := Some bk'\<rparr>)"
    unfolding hej_at_def using r(2) ts' bk(4) c'(1) c by auto
  then show ?thesis using r(1) cached by auto
qed

lemma unregistered_turns:
  assumes fmt: "fmt_renders sh (en_vformat en)" and ok: "host_ok en ho rc0" and ps: "ps_backend ps = Some bk"
    and un: "unregistered ho ps" and bk: "bk_at en sh ho rc0 k [] [] bk"
  shows "\<exists>ps' bk'. run_turns en m (sdrop k (mh_reads ho), ps) = Some (sdrop (k + m) (mh_reads ho), ps') \<and>
    ps_backend ps' = Some bk' \<and> unregistered ho ps' \<and> bk_at en sh ho rc0 (k + m) [] [] bk'"
proof -
  have "hej_only ho (map snd ([] :: (resync_state \<times> log_event) list) @ pending [])" by (simp add: hej_only_def pending_def)
  from run_turns_at [OF fmt ok ps bk _ this, of m] obtain bk' ts' ces' where
    r: "run_turns en m (sdrop k (mh_reads ho), ps) = Some (sdrop (k + m) (mh_reads ho), ps\<lparr>ps_backend := Some bk'\<rparr>)"
      "bk_at en sh ho rc0 (k + m) ts' ces' bk'" "later [] [] ts' ces'" "caps_kept (fst (bk_mem bk)) (fst (bk_mem bk'))"
    by auto
  have "ts' = []" "ces' = []" using r(3) by (auto simp: later_def pending_def)
  moreover have "unregistered ho (ps\<lparr>ps_backend := Some bk'\<rparr>)"
    using un ps caps_kept_fresh [OF r(4)] by (simp add: unregistered_def al_fresh_def)
  ultimately show ?thesis using r(1,2) by auto
qed

text \<open>The calls of the loop.\<close>

lemma log_calls_at:
  assumes fmt: "fmt_renders sh (en_vformat en)" and ok: "host_ok en ho rc0"
  shows "hej_at en sh ho rc0 k i ces es ps \<Longrightarrow> ps_cached ps (mh_thread ho, 0) = Some (main_ctx ho) \<Longrightarrow> i \<le> 10 \<Longrightarrow>
    \<exists>ps' ces' es' k'. log_calls en ho [i..<10] (sdrop k (mh_reads ho), ps) = Some (Returns (), (sdrop k' (mh_reads ho), ps')) \<and>
      k' = k + (\<Sum>j = i..<10. mh_turns ho j) \<and> hej_at en sh ho rc0 k' 10 ces' es' ps' \<and>
      ps_cached ps' (mh_thread ho, 0) = Some (main_ctx ho)"
proof (induction "10 - i" arbitrary: i k ces es ps)
  case 0
  then have "i = 10" by simp
  then show ?case using 0 by auto
next
  case (Suc n)
  then have i: "i < 10" by simp
  obtain ps1 ces1 es1 where t: "run_turns en (mh_turns ho i) (sdrop k (mh_reads ho), ps) =
        Some (sdrop (k + mh_turns ho i) (mh_reads ho), ps1)"
      "hej_at en sh ho rc0 (k + mh_turns ho i) i ces1 es1 ps1" "ps_cached ps1 (mh_thread ho, 0) = Some (main_ctx ho)"
    using hej_turns [OF fmt ok Suc.prems(1,3,2)] by blast
  obtain ps2 where l: "log_call (mh_startup ho) (mh_name_ptr ho) (mh_alloc ho) (mh_thread ho) 0 (mh_site ho) (mh_times ho i)
        (hej_args i) ps1 = Some (Returns (), ps2)"
      "hej_at en sh ho rc0 (k + mh_turns ho i) (Suc i) ces1 (es1 @ [hej_event ho i]) ps2"
      "ps_cached ps2 (mh_thread ho, 0) = Some (main_ctx ho)"
    using log_at [OF t(2) i, of ps1] t(3) by auto
  have "n = 10 - Suc i" "Suc i \<le> 10" using Suc.hyps(2) i by simp_all
  from Suc.hyps(1) [OF this(1) l(2,3) this(2)] obtain ps3 ces3 es3 k3 where
    r: "log_calls en ho [Suc i..<10] (sdrop (k + mh_turns ho i) (mh_reads ho), ps2) = Some (Returns (), (sdrop k3 (mh_reads ho), ps3))"
      "k3 = k + mh_turns ho i + (\<Sum>j = Suc i..<10. mh_turns ho j)" "hej_at en sh ho rc0 k3 10 ces3 es3 ps3"
      "ps_cached ps3 (mh_thread ho, 0) = Some (main_ctx ho)"
    by blast
  have "log_calls en ho [i..<10] (sdrop k (mh_reads ho), ps) = Some (Returns (), (sdrop k3 (mh_reads ho), ps3))"
    using t(1) l(1) r(1) i by (simp add: upt_conv_Cons)
  moreover have "k3 = k + (\<Sum>j = i..<10. mh_turns ho j)" using r(2) i by (simp add: sum.atLeast_Suc_lessThan)
  ultimately show ?case using r(3,4) by blast
qed

lemma all_calls_at:
  assumes fmt: "fmt_renders sh (en_vformat en)" and ok: "host_ok en ho rc0" and ps: "ps_backend ps = Some bk"
    and un: "unregistered ho ps" and bk: "bk_at en sh ho rc0 0 [] [] bk"
  shows "\<exists>ps' ces' es'. log_calls en ho [0..<10] (mh_reads ho, ps) =
      Some (Returns (), (sdrop (\<Sum>j = 0..<10. mh_turns ho j) (mh_reads ho), ps')) \<and>
    hej_at en sh ho rc0 (\<Sum>j = 0..<10. mh_turns ho j) 10 ces' es' ps' \<and>
    ps_cached ps' (mh_thread ho, 0) = Some (main_ctx ho)"
proof -
  obtain ps1 bk1 where t: "run_turns en (mh_turns ho 0) (mh_reads ho, ps) = Some (sdrop (mh_turns ho 0) (mh_reads ho), ps1)"
      "ps_backend ps1 = Some bk1" "unregistered ho ps1" "bk_at en sh ho rc0 (mh_turns ho 0) [] [] bk1"
    using unregistered_turns [OF fmt ok ps un bk, of "mh_turns ho 0"] by auto
  obtain ps2 where look: "get_or_create_thread_queue (mh_startup ho) (mh_alloc ho) (mh_thread ho) '''' (ps_queue_size ps1) ps1 =
        Some (Returns (main_ctx ho), ps2)" "hej_at en sh ho rc0 (mh_turns ho 0) 0 [] [] ps2"
    using first_lookup [OF t(2,3) ok t(4)] by blast
  have none: "ps_cached ps1 (mh_thread ho, 0) = None" using t(3) by (simp add: unregistered_def)
  obtain ps3 where l: "log_call (mh_startup ho) (mh_name_ptr ho) (mh_alloc ho) (mh_thread ho) 0 (mh_site ho) (mh_times ho 0)
        (hej_args 0) ps1 = Some (Returns (), ps3)" "hej_at en sh ho rc0 (mh_turns ho 0) (Suc 0) [] [hej_event ho 0] ps3"
      "ps_cached ps3 (mh_thread ho, 0) = Some (main_ctx ho)"
    using log_at [OF look(2), of ps1] look(1) none by auto
  have "Suc 0 \<le> 10" by simp
  from log_calls_at [OF fmt ok l(2,3) this] obtain ps4 ces4 es4 where
    r: "log_calls en ho [Suc 0..<10] (sdrop (mh_turns ho 0) (mh_reads ho), ps3) =
        Some (Returns (), (sdrop (mh_turns ho 0 + (\<Sum>j = Suc 0..<10. mh_turns ho j)) (mh_reads ho), ps4))"
      "hej_at en sh ho rc0 (mh_turns ho 0 + (\<Sum>j = Suc 0..<10. mh_turns ho j)) 10 ces4 es4 ps4"
      "ps_cached ps4 (mh_thread ho, 0) = Some (main_ctx ho)"
    by blast
  have sum: "mh_turns ho 0 + (\<Sum>j = Suc 0..<10. mh_turns ho j) = (\<Sum>j = 0..<10. mh_turns ho j)"
    by (simp add: sum.atLeast_Suc_lessThan)
  have "log_calls en ho (0 # [Suc 0..<10]) (mh_reads ho, ps) =
      Some (Returns (), (sdrop (\<Sum>j = 0..<10. mh_turns ho j) (mh_reads ho), ps4))"
    using t(1) l(1) r(1) unfolding sum by simp
  moreover have "[0..<10] = 0 # [Suc 0..<10]" by (simp add: upt_rec)
  ultimately show ?thesis using r(2,3) unfolding sum by metis
qed

section \<open>From start to end\<close>

lemma start_at:
  assumes bk: "new_backend (mh_startup ho) = Some (Returns bk0)"
  shows "\<exists>ps bk. set_pattern (mh_startup ho) (mh_formatter ho) ''{time:HMSF} {message}'' initial_papper = Some (Returns (), ps) \<and>
    ps_backend ps = Some bk \<and> unregistered ho ps \<and> bk_at en sh ho (bk_resync bk0) 0 [] [] bk"
proof -
  let ?fo = "\<lparr>fo_address = mh_formatter ho, fo_pattern = pattern_of hej_tokens\<rparr>"
  let ?bk = "queue_new_pattern_formatter (Some ?fo) bk0"
  let ?ps = "initial_papper\<lparr>ps_backend := Some ?bk\<rparr>"
  have "set_pattern (mh_startup ho) (mh_formatter ho) ''{time:HMSF} {message}'' initial_papper = Some (Returns (), ?ps)"
    unfolding set_pattern_def set_long_pattern_def static_string_literal hej_pattern_parses
    using bk by (simp add: pattern_of_error with_backend_def get_or_create_instance_def initial_papper_def)
  moreover obtain addr where mem: "bk_mem bk0 = (empty_registry,
      \<lparr>o_sink = new_sink_handler, o_formatter = new_formatter_handler addr, o_caches = initial_caches,
       o_min_level = level_code Trace\<rparr>)"
    using bk by (auto simp: new_backend_def split: option.splits bool.splits)
  have "bk_at en sh ho (bk_resync bk0) 0 [] [] ?bk"
    using initial_caches_ok default_pattern_parses
    by (simp add: bk_at_def mem queue_new_pattern_formatter_def views_empty console_def new_sink_handler_def
        queue_new_formatter_def new_formatter_handler_def next_formatter_def default_pattern_def file_output_def)
  moreover have "unregistered ho ?ps"
    by (simp add: unregistered_def initial_papper_def al_fresh_def queue_new_pattern_formatter_def mem empty_registry_def)
  ultimately show ?thesis by auto
qed

lemma exit_at:
  assumes "hej_at en sh ho rc0 k i ces es ps"
  shows "\<exists>ps' bk'. exit_thread (mh_thread ho) ps = Some ps' \<and> ps_backend ps' = Some bk' \<and>
    bk_at en sh ho rc0 k (one ho False es) ces bk'"
proof -
  obtain bk where bk: "ps_backend ps = Some bk" "bk_at en sh ho rc0 k (one ho True es) ces bk"
      "ps_handlers ps (mh_thread ho) = Made (main_ctx ho)" "ctx_of (fst (bk_mem bk)) (main_node ho) = Some (main_ctx ho)"
    using assms unfolding hej_at_def by blast
  let ?t = "\<lparr>tv_node = main_node ho, tv_alive = True, tv_events = es\<rparr>"
  have v: "views (fst (bk_mem bk)) ([] @ ?t # [])" using bk(2) by (simp add: bk_at_def one_def)
  obtain rg' where rg': "thread_exit (main_node ho) (fst (bk_mem bk)) = Some rg'" "views rg' (one ho False es)"
    using views_kill [OF v] by (auto simp: one_def)
  have "context_kill (main_ctx ho) (fst (bk_mem bk)) = Some rg'"
    using rg'(1) bk(4) by (auto simp: thread_exit_def context_kill_def ctx_of_def split: option.splits)
  then show ?thesis
    using bk rg'(2) by (auto simp: exit_thread_def bk_at_def)
qed

text \<open>The destructor of the backend prints what is left, in order: there is one queue.\<close>

lemma one_queue_in_order:
  assumes "length ts \<le> 1" and "mset es = all_events ts" and "\<forall>t \<in> set ts. subseq (tv_events t) es"
  shows "es = pending ts"
proof (cases ts)
  case Nil
  then show ?thesis using assms(2) by (simp add: pending_def)
next
  case (Cons t us)
  then have ts: "ts = [t]" using assms(1) by simp
  then have "mset es = mset (tv_events t)" "subseq (tv_events t) es" using assms(2,3) by simp_all
  then have "tv_events t = es" by (metis subseq_same_length mset_eq_length)
  then show ?thesis by (simp add: ts pending_def)
qed

lemma dtor_at:
  assumes fmt: "fmt_renders sh (en_vformat en)" and ok: "host_ok en ho rc0" and bk: "bk_at en sh ho rc0 k ts ces bk"
    and ts: "length ts \<le> 1" "\<forall>t \<in> set ts. \<not> tv_alive t" and only: "hej_only ho (pending ts)"
  shows "\<exists>o2 ces2. backend_dtor en (sdrop k (mh_reads ho)) bk = Some o2 \<and> map snd ces2 = pending ts \<and>
    (\<forall>c \<in> set (map fst (ces @ ces2)). clock_seen (mh_reads ho) rc0 c) \<and>
    file_output Stdout (sk_io (o_sink o2)) =
      concat (map (\<lambda>(rc, e). event_line (with_clock rc en) sh (if k = 0 then default_tokens else hej_tokens) 0 e) (ces @ ces2))"
proof -
  obtain rg o1 where mem: "bk_mem bk = (rg, o1)" by fastforce
  let ?toks = "if k = 0 then default_tokens else hej_tokens"
  have v: "views rg ts" and con: "console en sh k ces o1"
    and run: "resync_run (stake k (mh_reads ho)) rc0 = Some (bk_resync bk)" and zero: "k = 0 \<longrightarrow> ces = []"
    and seen: "\<forall>c \<in> set (map fst ces). clock_seen (mh_reads ho) rc0 c"
    using bk by (simp_all add: bk_at_def mem)
  have ahead: "resync_run (stake n (sdrop k (mh_reads ho))) (bk_resync bk) = resync_run (stake (k + n) (mh_reads ho)) rc0" for n
    unfolding stake_add [symmetric] resync_run_append run by simp
  have prints: "clock_prints en ts (sdrop k (mh_reads ho)) (bk_resync bk)"
    unfolding clock_prints_def ahead using host_clock [OF ok] hej_views_printable [OF ok _ only] by metis
  have ready: "outputs_ready en 16 1000 ?toks o1"
    using con hej_pattern_accepted default_pattern_accepted by (simp add: outputs_ready_def console_def)
  have dead: "list_all (\<lambda>t. \<not> tv_alive t) ts" using ts(2) by (simp add: list_all_iff)
  obtain o2 ces2 where r: "backend_dtor en (sdrop k (mh_reads ho)) bk = Some o2" "mset (map snd ces2) = all_events ts"
      "\<forall>t \<in> set ts. subseq (tv_events t) (map snd ces2)"
      "\<forall>c \<in> set (map fst ces2). clock_seen (sdrop k (mh_reads ho)) (bk_resync bk) c"
      "file_output (sk_file (o_sink o1)) (sk_io (o_sink o2)) = file_output (sk_file (o_sink o1)) (sk_io (o_sink o1)) @
        concat (map (\<lambda>(c, e). event_line (with_clock c en) sh ?toks (o_min_level o1) e) ces2)"
    using backend_dtor_flushes [OF fmt mem ready v prints dead] by blast
  have "clock_seen (mh_reads ho) rc0 c" if "clock_seen (sdrop k (mh_reads ho)) (bk_resync bk) c" for c
    using that unfolding clock_seen_def ahead by blast
  moreover have "map snd ces2 = pending ts" using one_queue_in_order [OF ts(1) r(2,3)] .
  moreover have "file_output Stdout (sk_io (o_sink o2)) =
      concat (map (\<lambda>(rc, e). event_line (with_clock rc en) sh ?toks 0 e) (ces @ ces2))"
    using r(5) con zero by (cases "k = 0") (simp_all add: console_def)
  ultimately show ?thesis using r(1,4) seen by auto
qed

section \<open>Properties\<close>

lemma lines_by_index:
  assumes "map snd xs = map h [0..<n]"
  shows "map (\<lambda>(c, e). g c e) xs = map (\<lambda>i. g (map fst xs ! i) (h i)) [0..<n]"
proof (rule nth_equalityI)
  have len: "length xs = n" using assms by (metis diff_zero length_map length_upt)
  then show "length (map (\<lambda>(c, e). g c e) xs) = length (map (\<lambda>i. g (map fst xs ! i) (h i)) [0..<n])" by simp
  fix i assume "i < length (map (\<lambda>(c, e). g c e) xs)"
  then have i: "i < n" using len by simp
  then have "map snd xs ! i = h i" using assms by simp
  then show "map (\<lambda>(c, e). g c e) xs ! i = map (\<lambda>i. g (map fst xs ! i) (h i)) [0..<n] ! i"
    using i len by (simp add: case_prod_unfold)
qed


text \<open>A run in which the backend takes one turn, before the fourth call, and the tick counter is so coarse
  that it shows the same value at all calls.\<close>

definition hej_uformat :: "string \<Rightarrow> (ctype \<times> cval) list \<Rightarrow> string option" where
  "hej_uformat fmt_str args =
     (case args of
        [(t1, V_Triv b), (t2, V_Triv s)] \<Rightarrow>
          Some (''hej '' @ dec_string (le_nat b) @ '', '' @ map (char_of \<circ> unat) (takeWhile (\<lambda>c. c \<noteq> 0) s))
      | _ \<Rightarrow> None)"

definition hej_env :: environment where
  "hej_env = demo_env\<lparr>en_sites := (\<lambda>a. if a = 4096 then hej_site ''main.cpp'' ''main'' 95 else None),
     en_uformat := hej_uformat\<rparr>"

definition hej_host :: main_host where
  "hej_host = \<lparr>mh_startup = demo_startup, mh_name_ptr = (\<lambda>c. 8192), mh_alloc = demo_al, mh_formatter = 7, mh_thread = 0,
     mh_site = 4096, mh_times = (\<lambda>i. 58089000071000), mh_turns = (\<lambda>j. if j = 3 then 1 else 0),
     mh_reads = sconst demo_reads\<rparr>"

lemma hej_host_message:
  assumes "i < 10"
  shows "en_uformat hej_env ''hej {}, {}'' (hej_args i) = Some (''hej '' @ dec_string i @ '', hopp'')"
proof -
  have "le_nat (le_bytes 4 i) = i" using assms by (simp add: le_nat_le_bytes)
  moreover have "map (char_of \<circ> unat) (takeWhile (\<lambda>c. c \<noteq> 0) [0x68 :: byte, 0x6F, 0x70, 0x70, 0]) = ''hopp''" by code_simp
  ultimately show ?thesis by (simp add: hej_env_def hej_uformat_def hej_args_def)
qed

lemma hej_host_ok: "host_ok hej_env hej_host demo_resync"
proof -
  have "en_sites hej_env (mh_site hej_host) = hej_site ''main.cpp'' ''main'' 95"
    "en_names hej_env (mh_name_ptr hej_host (main_ctx hej_host)) \<noteq> None" "False \<in> set (al_attempts (mh_alloc hej_host))"
    by (simp_all add: hej_env_def hej_host_def demo_env_def demo_al_def)
  moreover have "\<exists>t. timestamp_to_local_system_time (rc_clock demo_resync) (mh_times hej_host i) = Some t \<and> t div ns_per_s \<noteq> -1" for i
    using demo_local_time by (simp add: hej_host_def ns_per_s_def)
  moreover have "resync_run (stake k (mh_reads hej_host)) demo_resync = Some demo_resync" for k
    using demo_resync_run by (simp only: hej_host_def main_host.simps)
  ultimately show ?thesis unfolding host_ok_def using hej_host_message by blast
qed

lemma hej_fraction: "zero_pad 9 (dec_string (unat (ns_part 58089000071000))) = ''000071000''"
proof -
  have "digit_char 0 = CHR ''0''" "digit_char 1 = CHR ''1''" "digit_char 7 = CHR ''7''" by code_simp+
  then have "dec_string 71000 = ''71000''" by (simp add: dec_string.simps)
  moreover have "ns_part 58089000071000 = 71000" by (simp add: ns_part_def ns_per_s_def signed_modulo_int_def)
  moreover have "zero_pad 9 ''71000'' = ''000071000''" by code_simp
  ultimately show ?thesis by simp
qed

lemma hej_line:
  assumes "i < 10"
  shows "event_line (with_clock demo_resync hej_env) show_ref hej_tokens 0 (hej_event hej_host i) =
    ''16:08:09.000071000 hej '' @ dec_string i @ '', hopp'' @ [CHR 0x0A]"
proof -
  obtain site where site: "hej_site ''main.cpp'' ''main'' 95 = Some site" by (simp add: hej_site_def trace_macro)
  have "event_data (with_clock demo_resync hej_env) (hej_event hej_host i) =
      Some \<lparr>pd_level = 0, pd_thread_name = ''main'', pd_timestamp = 58089000071000, pd_filename = cs_file_name site,
        pd_functionname = cs_function_name site, pd_linenumber = cs_line site,
        pd_message = ''hej '' @ dec_string i @ '', hopp''\<rparr>"
    using hej_host_message [OF assms] hej_site_data(2) [OF site] site demo_local_time
    by (simp add: event_data_def with_clock_def hej_event_def hej_host_def hej_env_def demo_env_def)
  moreover have "hms_ref (58089000071000 div ns_per_s) = ''16:08:09''"
    "resolve_field ''time:HMSF'' = Inr (F_Time, S_TimeHMSF)" "resolve_field ''message'' = Inr (F_Message, S_None)"
    by code_simp+
  moreover have "en_hms (with_clock demo_resync hej_env) = hms_ref" by (simp add: hej_env_def demo_env_def)
  ultimately show ?thesis by (simp add: event_line_def hej_tokens_def hej_fraction)
qed


end
